(* ===== verification/Helix_Prelude.thy ===== *)
theory Helix_Prelude
  imports Main "HOL-Library.AList" "HOL-Library.List_Lexorder" "HOL-Library.Char_ord"
begin

text \<open>
  Shared vocabulary of the development: the types that stand for Python's \<open>bytes\<close> and
  \<open>str\<close>, exceptions as values, insertion-ordered dictionaries, \<open>bytes.hex\<close> and
  \<open>bytes.fromhex\<close>, and decimal numbers.

  A Python \<open>bytes\<close> object is a list of \<^typ>\<open>char\<close> (HOL characters are 8-bit values).
  A Python \<open>str\<close> is represented by its UTF-8 encoding, so \<open>s.encode("utf-8")\<close> is the
  identity and comparison by code point is comparison of the encodings. Python integers are
  \<^typ>\<open>int\<close>.
\<close>

type_synonym bytes = "char list"

section \<open>Collections of the development\<close>

named_theorems py_simps \<open>rewrite rules for the Python vocabulary of the prelude\<close>
named_theorems py_intros \<open>introduction rules for the Python vocabulary of the prelude\<close>


section \<open>Exceptions as values\<close>

text \<open>
  The exception classes the sources raise or handle. \<open>IllTyped\<close> is not an exception: it
  is the result of the typed model on data of a type that the source's annotations exclude
  and that Python would store unchecked.
\<close>

datatype py_error =
    ValueError | KeyError | IndexError | TypeError | AttributeError
  | OSError | RuntimeError | SystemExit | IllTyped

type_synonym 'a result = "py_error + 'a"

definition bindr :: "'e + 'a \<Rightarrow> ('a \<Rightarrow> 'e + 'b) \<Rightarrow> 'e + 'b" where
  "bindr r f = (case r of Inl e \<Rightarrow> Inl e | Inr x \<Rightarrow> f x)"

lemma bindr_simps [simp]:
  "bindr (Inl e) f = Inl e" "bindr (Inr x) f = f x"
  by (simp_all add: bindr_def)

lemma bindr_Inl_iff: "bindr r f = Inl e \<longleftrightarrow> r = Inl e \<or> (\<exists>x. r = Inr x \<and> f x = Inl e)"
  by (cases r) auto

lemma bindr_Inr_iff: "bindr r f = Inr y \<longleftrightarrow> (\<exists>x. r = Inr x \<and> f x = Inr y)"
  by (cases r) auto

lemma bindr_cong [fundef_cong]:
  "r = r' \<Longrightarrow> (\<And>x. r' = Inr x \<Longrightarrow> f x = g x) \<Longrightarrow> bindr r f = bindr r' g"
  by (cases r') auto

text \<open>A list comprehension whose element expression may raise: the first error wins.\<close>

fun mapr :: "('a \<Rightarrow> 'e + 'b) \<Rightarrow> 'a list \<Rightarrow> 'e + 'b list" where
  "mapr f [] = Inr []"
| "mapr f (x # xs) = bindr (f x) (\<lambda>y. bindr (mapr f xs) (\<lambda>ys. Inr (y # ys)))"

lemma mapr_cong [fundef_cong]:
  "xs = ys \<Longrightarrow> (\<And>x. x \<in> set ys \<Longrightarrow> f x = g x) \<Longrightarrow> mapr f xs = mapr g ys"
  by (induction ys arbitrary: xs) (auto intro!: bindr_cong)

lemma mapr_map_Inr: "(\<And>x. x \<in> set xs \<Longrightarrow> f (g x) = Inr x) \<Longrightarrow> mapr f (map g xs) = Inr xs"
  by (induction xs) auto

lemma mapr_Inr_length: "mapr f xs = Inr ys \<Longrightarrow> length ys = length xs"
  by (induction xs arbitrary: ys) (auto simp: bindr_Inr_iff)


section \<open>Insertion-ordered dictionaries\<close>

text \<open>
  A Python dictionary keeps the insertion order of its keys, and assigning to a key that is
  present keeps its position. That is an association list under \<^const>\<open>AList.update\<close>.
\<close>

type_synonym ('k, 'v) dict = "('k \<times> 'v) list"

abbreviation dict_get :: "('k, 'v) dict \<Rightarrow> 'k \<Rightarrow> 'v option" where
  "dict_get \<equiv> map_of"

abbreviation dict_set :: "'k \<Rightarrow> 'v \<Rightarrow> ('k, 'v) dict \<Rightarrow> ('k, 'v) dict" where
  "dict_set \<equiv> AList.update"

abbreviation dict_pop :: "'k \<Rightarrow> ('k, 'v) dict \<Rightarrow> ('k, 'v) dict" where
  "dict_pop \<equiv> AList.delete"

definition dict_keys :: "('k, 'v) dict \<Rightarrow> 'k list" where
  "dict_keys d = map fst d"

definition dict_values :: "('k, 'v) dict \<Rightarrow> 'v list" where
  "dict_values d = map snd d"

definition dict_get_list :: "('k, ('j, 'v) dict) dict \<Rightarrow> 'k \<Rightarrow> ('j, 'v) dict" where
  \<comment> \<open>\<open>d.get(k, {})\<close>\<close>
  "dict_get_list d k = (case dict_get d k of None \<Rightarrow> [] | Some v \<Rightarrow> v)"

definition dict_set2 ::
    "'k \<Rightarrow> 'j \<Rightarrow> 'v \<Rightarrow> ('k, ('j, 'v) dict) dict \<Rightarrow> ('k, ('j, 'v) dict) dict" where
  \<comment> \<open>\<open>d.setdefault(k, {})[j] = v\<close>\<close>
  "dict_set2 k j v d = dict_set k (dict_set j v (dict_get_list d k)) d"

definition dict_ok :: "('k, 'v) dict \<Rightarrow> bool" where
  "dict_ok d \<longleftrightarrow> distinct (map fst d)"

lemma dict_ok_Nil [simp, py_intros]: "dict_ok []"
  by (simp add: dict_ok_def)

lemma dict_ok_set [py_intros]: "dict_ok d \<Longrightarrow> dict_ok (dict_set k v d)"
  by (simp add: dict_ok_def distinct_update)

lemma dict_ok_pop [py_intros]: "dict_ok d \<Longrightarrow> dict_ok (dict_pop k d)"
  by (simp add: dict_ok_def distinct_delete)

lemma dict_get_set [simp]: "dict_get (dict_set k v d) j = (if j = k then Some v else dict_get d j)"
  by (simp add: update_conv')

lemma dict_get_pop: "dict_get (dict_pop k d) j = (if j = k then None else dict_get d j)"
  by (simp add: delete_conv')

lemma fst_set_dict_set [simp]: "fst ` set (dict_set k v d) = insert k (fst ` set d)"
  by (simp add: dom_update)

lemma set_dict_set: "dict_ok d \<Longrightarrow> set (dict_set k v d) = insert (k, v) {p \<in> set d. fst p \<noteq> k}"
  by (induction d) (force simp: dict_ok_def)+

lemma set_dict_set_subset: "set (dict_set k v d) \<subseteq> insert (k, v) (set d)"
  by (induction d) auto

lemma map_snd_dict_set_subset: "set (dict_values (dict_set k v d)) \<subseteq> insert v (set (dict_values d))"
  using set_dict_set_subset [of k v d] by (auto simp: dict_values_def)

lemma map_of_eq_Some_iff_dict: "dict_ok d \<Longrightarrow> dict_get d k = Some v \<longleftrightarrow> (k, v) \<in> set d"
  by (simp add: dict_ok_def)

lemma dict_set_cancel: "dict_get d k = None \<Longrightarrow> dict_set k v d = d @ [(k, v)]"
  by (induction d) (auto split: if_splits)

lemma dict_get_list_set2 [simp]:
  "dict_get_list (dict_set2 k j v d) i
     = (if i = k then dict_set j v (dict_get_list d k) else dict_get_list d i)"
  by (simp add: dict_get_list_def dict_set2_def)

lemma dict_get_list_Nil [simp]: "dict_get_list [] k = []"
  by (simp add: dict_get_list_def)

lemma fst_set_dict_set2 [simp]: "fst ` set (dict_set2 k j v d) = insert k (fst ` set d)"
  by (simp add: dict_set2_def)

lemma dict_ok_set2 [py_intros]: "dict_ok d \<Longrightarrow> dict_ok (dict_set2 k j v d)"
  by (simp add: dict_set2_def dict_ok_set)

lemma length_distinct_fst: "dict_ok d \<Longrightarrow> card (fst ` set d) = length d"
  by (metis dict_ok_def distinct_card length_map set_map)

end
