(* ===== verification/Py_Text.thy ===== *)
theory Py_Text
  imports Helix_Prelude
begin

text \<open>
  The text conversions of the Python standard library that the sources use: \<open>bytes.hex()\<close>,
  \<open>bytes.fromhex()\<close>, \<open>str(int)\<close>, \<open>int(str)\<close>, \<open>str.strip\<close> and the splitting functions.
  The lemmas give the two round trips of hexadecimal text, the injectivity of both printers,
  and what makes a hexadecimal string \<^emph>\<open>canonical\<close> (the only spelling \<open>bytes.hex()\<close>
  produces: \<open>bytes.fromhex()\<close> also accepts upper-case digits and white space).
\<close>

section \<open>Hexadecimal text\<close>

definition hex_digits :: string where
  "hex_digits = ''0123456789abcdef''"

definition nibble_char :: "nat \<Rightarrow> char" where
  "nibble_char n = (if n < 16 then hex_digits ! n else CHR ''0'')"

fun hex_of_bytes :: "bytes \<Rightarrow> string" where
  \<comment> \<open>\<open>bytes.hex()\<close>\<close>
  "hex_of_bytes [] = []"
| "hex_of_bytes (b # bs)
     = nibble_char (of_char b div 16) # nibble_char (of_char b mod 16) # hex_of_bytes bs"

definition nibble_val :: "char \<Rightarrow> nat option" where
  "nibble_val c = (let n = (of_char c :: nat) in
     if 48 \<le> n \<and> n \<le> 57 then Some (n - 48)
     else if 97 \<le> n \<and> n \<le> 102 then Some (n - 87)
     else if 65 \<le> n \<and> n \<le> 70 then Some (n - 55)
     else None)"

definition is_space :: "char \<Rightarrow> bool" where
  "is_space c = (let n = (of_char c :: nat) in (9 \<le> n \<and> n \<le> 13) \<or> n = 32)"

fun bytes_fromhex :: "string \<Rightarrow> bytes result" where
  \<comment> \<open>\<open>bytes.fromhex()\<close>: white space may separate pairs, each pair is two hex digits\<close>
  "bytes_fromhex [] = Inr []"
| "bytes_fromhex [c] = (if is_space c then Inr [] else Inl ValueError)"
| "bytes_fromhex (c # d # cs) =
     (if is_space c then bytes_fromhex (d # cs)
      else case (nibble_val c, nibble_val d) of
             (Some h, Some l) \<Rightarrow> bindr (bytes_fromhex cs) (\<lambda>bs. Inr (char_of (16 * h + l) # bs))
           | _ \<Rightarrow> Inl ValueError)"

lemma hex_digits_nth_code:
  "\<forall>n \<in> set [0..<16]. nibble_val (hex_digits ! n) = Some n \<and> \<not> is_space (hex_digits ! n)"
  by code_simp

lemma nibble_val_char [simp]: "n < 16 \<Longrightarrow> nibble_val (nibble_char n) = Some n"
  and is_space_nibble_char [simp]: "n < 16 \<Longrightarrow> \<not> is_space (nibble_char n)"
  using hex_digits_nth_code by (auto simp: nibble_char_def)

lemma of_char_div_16 [simp]: "(of_char (b :: char) :: nat) div 16 < 16"
proof -
  have "(of_char b :: nat) < 256" by simp
  then show ?thesis by (simp add: less_mult_imp_div_less)
qed

theorem fromhex_hex [simp]: "bytes_fromhex (hex_of_bytes bs) = Inr bs"
  by (induction bs) auto

text \<open>
  Code equations on the bits of a character, so that the definitions evaluate quickly inside
  the logic.
\<close>

fun nibble_of_bits :: "bool \<Rightarrow> bool \<Rightarrow> bool \<Rightarrow> bool \<Rightarrow> char" where
  "nibble_of_bits False False False False = CHR ''0''"
| "nibble_of_bits False False False True = CHR ''1''"
| "nibble_of_bits False False True False = CHR ''2''"
| "nibble_of_bits False False True True = CHR ''3''"
| "nibble_of_bits False True False False = CHR ''4''"
| "nibble_of_bits False True False True = CHR ''5''"
| "nibble_of_bits False True True False = CHR ''6''"
| "nibble_of_bits False True True True = CHR ''7''"
| "nibble_of_bits True False False False = CHR ''8''"
| "nibble_of_bits True False False True = CHR ''9''"
| "nibble_of_bits True False True False = CHR ''a''"
| "nibble_of_bits True False True True = CHR ''b''"
| "nibble_of_bits True True False False = CHR ''c''"
| "nibble_of_bits True True False True = CHR ''d''"
| "nibble_of_bits True True True False = CHR ''e''"
| "nibble_of_bits True True True True = CHR ''f''"

lemma nibble_char_bits:
  "nibble_char (of_char (Char b0 b1 b2 b3 b4 b5 b6 b7) div 16) = nibble_of_bits b7 b6 b5 b4"
  "nibble_char (of_char (Char b0 b1 b2 b3 b4 b5 b6 b7) mod 16) = nibble_of_bits b3 b2 b1 b0"
  by (cases b0; cases b1; cases b2; cases b3; cases b4; cases b5; cases b6; cases b7;
      simp add: nibble_char_def hex_digits_def)+

lemma hex_of_bytes_code [code]:
  "hex_of_bytes [] = []"
  "hex_of_bytes (Char b0 b1 b2 b3 b4 b5 b6 b7 # bs)
     = nibble_of_bits b7 b6 b5 b4 # nibble_of_bits b3 b2 b1 b0 # hex_of_bytes bs"
  by (simp_all add: nibble_char_bits del: of_char_Char)

fun hex_bits :: "char \<Rightarrow> (bool \<times> bool \<times> bool \<times> bool) option" where
  "hex_bits (Char b0 b1 b2 b3 b4 b5 b6 b7) =
     (if \<not> b7 \<and> \<not> b6 \<and> b5 \<and> b4 \<and> \<not> (b3 \<and> (b2 \<or> b1)) then Some (b3, b2, b1, b0)
      else if \<not> b7 \<and> b6 \<and> \<not> b4 \<and> \<not> b3 \<and> (b2 \<or> b1 \<or> b0) \<and> \<not> (b2 \<and> b1 \<and> b0)
        then Some (True, b2 \<noteq> (b1 \<and> b0), b1 \<noteq> b0, \<not> b0)
      else None)"

definition bits_val :: "bool \<times> bool \<times> bool \<times> bool \<Rightarrow> nat" where
  "bits_val = (\<lambda>(x3, x2, x1, x0). 8 * of_bool x3 + 4 * of_bool x2 + 2 * of_bool x1 + of_bool x0)"

lemma nibble_val_bits: "nibble_val c = map_option bits_val (hex_bits c)"
proof (cases c)
  case (Char b0 b1 b2 b3 b4 b5 b6 b7)
  show ?thesis unfolding Char
    by (cases b0; cases b1; cases b2; cases b3; cases b4; cases b5; cases b6; cases b7;
        simp add: nibble_val_def bits_val_def)
qed

lemma char_of_bits:
  "char_of (16 * bits_val (h3, h2, h1, h0) + bits_val (l3, l2, l1, l0)) = Char l0 l1 l2 l3 h0 h1 h2 h3"
proof -
  have "16 * bits_val (h3, h2, h1, h0) + bits_val (l3, l2, l1, l0) = of_char (Char l0 l1 l2 l3 h0 h1 h2 h3)"
    by (cases l0; cases l1; cases l2; cases l3; cases h0; cases h1; cases h2; cases h3; simp add: bits_val_def)
  then show ?thesis by (simp only: char_of_char)
qed

lemma is_space_code [code]:
  "is_space (Char b0 b1 b2 b3 b4 b5 b6 b7) \<longleftrightarrow> \<not> b7 \<and> \<not> b6 \<and> \<not> b4 \<and>
     (if b5 then \<not> b3 \<and> \<not> b2 \<and> \<not> b1 \<and> \<not> b0 else b3 \<and> (if b2 then \<not> b1 else b1 \<or> b0))"
  by (cases b0; cases b1; cases b2; cases b3; cases b4; cases b5; cases b6; cases b7; simp add: is_space_def)

lemma bytes_fromhex_code [code]:
  "bytes_fromhex [] = Inr []"
  "bytes_fromhex [c] = (if is_space c then Inr [] else Inl ValueError)"
  "bytes_fromhex (c # d # cs) =
     (if is_space c then bytes_fromhex (d # cs)
      else case hex_bits c of None \<Rightarrow> Inl ValueError | Some (h3, h2, h1, h0) \<Rightarrow>
        (case hex_bits d of None \<Rightarrow> Inl ValueError | Some (l3, l2, l1, l0) \<Rightarrow>
          bindr (bytes_fromhex cs) (\<lambda>bs. Inr (Char l0 l1 l2 l3 h0 h1 h2 h3 # bs))))"
  by (auto simp: nibble_val_bits char_of_bits split: option.splits)

lemma length_hex [simp]: "length (hex_of_bytes bs) = 2 * length bs"
  by (induction bs) auto

lemma hex_of_bytes_inj: "hex_of_bytes a = hex_of_bytes b \<longleftrightarrow> a = b"
  by (metis fromhex_hex sum.inject(2))

lemma hex_of_bytes_Nil_iff [simp]: "hex_of_bytes bs = [] \<longleftrightarrow> bs = []" "[] = hex_of_bytes bs \<longleftrightarrow> bs = []"
  by (cases bs; simp)+

text \<open>A string is canonical hexadecimal text if it is what \<open>bytes.hex()\<close> prints.\<close>

definition canonical_hex :: "string \<Rightarrow> bool" where
  "canonical_hex s = (case bytes_fromhex s of Inl _ \<Rightarrow> False | Inr bs \<Rightarrow> hex_of_bytes bs = s)"

lemma canonical_hex_hex [simp]: "canonical_hex (hex_of_bytes bs)"
  by (simp add: canonical_hex_def)

lemma canonical_hex_fromhex: "canonical_hex s \<Longrightarrow> bytes_fromhex s = Inr bs \<Longrightarrow> hex_of_bytes bs = s"
  by (simp add: canonical_hex_def)


section \<open>Decimal text\<close>

fun show_nat :: "nat \<Rightarrow> string" where
  "show_nat n = (if n < 10 then [char_of (48 + n)] else show_nat (n div 10) @ [char_of (48 + n mod 10)])"

declare show_nat.simps [simp del]

definition show_int :: "int \<Rightarrow> string" where
  \<comment> \<open>\<open>str(i)\<close>, also the text of an integer in JSON\<close>
  "show_int i = (if i < 0 then CHR ''-'' # show_nat (nat (- i)) else show_nat (nat i))"

definition is_digit :: "char \<Rightarrow> bool" where
  "is_digit c = (let n = (of_char c :: nat) in 48 \<le> n \<and> n \<le> 57)"

definition digit_val :: "char \<Rightarrow> nat" where
  "digit_val c = of_char c - 48"

definition read_nat :: "string \<Rightarrow> nat" where
  "read_nat = foldl (\<lambda>n c. 10 * n + digit_val c) 0"

lemma is_digit_char_of: "(n::nat) < 10 \<Longrightarrow> is_digit (char_of (48 + n))"
  by (simp add: is_digit_def Let_def)

lemma digit_val_char_of: "(n::nat) < 10 \<Longrightarrow> digit_val (char_of (48 + n)) = n"
  by (simp add: digit_val_def)

lemma show_nat_digits: "c \<in> set (show_nat n) \<Longrightarrow> is_digit c"
proof (induction n arbitrary: c rule: show_nat.induct)
  case (1 n)
  show ?case
  proof (cases "n < 10")
    case True
    with "1.prems" show ?thesis by (simp add: show_nat.simps [of n] is_digit_char_of)
  next
    case False
    with "1.prems" have "c \<in> set (show_nat (n div 10)) \<or> c = char_of (48 + n mod 10)"
      by (auto simp: show_nat.simps [of n])
    then show ?thesis
      using "1.IH" [OF False] is_digit_char_of [of "n mod 10"] by auto
  qed
qed

lemma show_nat_not_Nil [simp]: "show_nat n \<noteq> []"
  by (subst show_nat.simps) simp

lemma read_show_nat [simp]: "read_nat (show_nat n) = n"
proof (induction n rule: show_nat.induct)
  case (1 n)
  show ?case
  proof (cases "n < 10")
    case True
    then show ?thesis by (simp add: show_nat.simps [of n] read_nat_def digit_val_char_of)
  next
    case False
    then have "read_nat (show_nat n) = 10 * read_nat (show_nat (n div 10)) + n mod 10"
      by (simp add: show_nat.simps [of n] read_nat_def digit_val_char_of)
    also have "\<dots> = n" using "1.IH" [OF False] by simp
    finally show ?thesis .
  qed
qed

lemma show_nat_inj: "show_nat m = show_nat n \<longleftrightarrow> m = n"
  by (metis read_show_nat)

lemma not_is_digit_minus [simp]: "\<not> is_digit (CHR ''-'')"
  by code_simp

lemma show_int_not_Nil [simp]: "show_int i \<noteq> []"
  by (simp add: show_int_def)

text \<open>
  Printed integers are self-delimiting: followed by text that does not start with a digit,
  the number and the rest can be read off.
\<close>

definition no_digit_start :: "string \<Rightarrow> bool" where
  "no_digit_start r = (case r of [] \<Rightarrow> True | c # _ \<Rightarrow> \<not> is_digit c)"

lemma takeWhile_show_nat: "no_digit_start r \<Longrightarrow> takeWhile is_digit (show_nat n @ r) = show_nat n"
proof -
  assume r: "no_digit_start r"
  have "takeWhile is_digit (show_nat n @ r) = show_nat n @ takeWhile is_digit r"
    by (rule takeWhile_append2) (rule show_nat_digits)
  moreover have "takeWhile is_digit r = []"
    using r by (cases r) (auto simp: no_digit_start_def)
  ultimately show ?thesis by simp
qed

lemma show_nat_append_inj:
  assumes "show_nat m @ r = show_nat n @ s" "no_digit_start r" "no_digit_start s"
  shows "m = n \<and> r = s"
  using assms takeWhile_show_nat [of r m] takeWhile_show_nat [of s n]
  by (metis append_same_eq same_append_eq show_nat_inj)

lemma show_nat_no_minus: "show_nat n \<noteq> CHR ''-'' # t"
  using show_nat_digits [of "CHR ''-''" n] by (metis list.set_intros(1) not_is_digit_minus)

lemma show_int_append_inj:
  assumes eq: "show_int i @ r = show_int j @ s" and r: "no_digit_start r" "no_digit_start s"
  shows "i = j \<and> r = s"
proof -
  have hd: "hd (show_nat n) \<noteq> CHR ''-''" for n
    using show_nat_no_minus [of n] by (metis list.collapse show_nat_not_Nil)
  have sgn: "(hd (show_int k @ t) = CHR ''-'') \<longleftrightarrow> k < 0" for k t
    using hd by (simp add: show_int_def)
  have iff: "i < 0 \<longleftrightarrow> j < 0" using sgn [of i r] sgn [of j s] eq by metis
  show ?thesis
  proof (cases "i < 0")
    case True
    with iff eq have "show_nat (nat (- i)) @ r = show_nat (nat (- j)) @ s"
      by (simp add: show_int_def)
    then have "nat (- i) = nat (- j) \<and> r = s" using r by (rule show_nat_append_inj)
    with True iff show ?thesis by auto
  next
    case False
    with iff eq have "show_nat (nat i) @ r = show_nat (nat j) @ s"
      by (simp add: show_int_def)
    then have "nat i = nat j \<and> r = s" using r by (rule show_nat_append_inj)
    with False iff show ?thesis by auto
  qed
qed

lemma show_int_inj: "show_int i = show_int j \<longleftrightarrow> i = j"
  using show_int_append_inj [of i "[]" j "[]"] by (auto simp: no_digit_start_def)


section \<open>Stripping, splitting and \<open>int(str)\<close>\<close>

definition str_space :: "char \<Rightarrow> bool" where
  \<comment> \<open>the ASCII characters \<open>str.isspace\<close> accepts: those of \<open>bytes.fromhex\<close> and the separators 0x1c to 0x1f\<close>
  "str_space c = (is_space c \<or> (let n = (of_char c :: nat) in 28 \<le> n \<and> n \<le> 31))"

lemma str_space_code [code]:
  "str_space (Char b0 b1 b2 b3 b4 b5 b6 b7) \<longleftrightarrow> is_space (Char b0 b1 b2 b3 b4 b5 b6 b7) \<or>
     \<not> b7 \<and> \<not> b6 \<and> \<not> b5 \<and> b4 \<and> b3 \<and> b2"
  by (cases b0; cases b1; cases b2; cases b3; cases b4; cases b5; cases b6; cases b7; simp add: str_space_def is_space_def)

definition strip :: "string \<Rightarrow> string" where
  \<comment> \<open>\<open>s.strip()\<close>\<close>
  "strip s = rev (dropWhile str_space (rev (dropWhile str_space s)))"

fun split_first :: "char \<Rightarrow> string \<Rightarrow> (string \<times> string) option" where
  \<comment> \<open>\<open>a, b = s.split(c, 1)\<close>: \<open>None\<close> is the ValueError of unpacking one element\<close>
  "split_first c [] = None"
| "split_first c (x # xs) =
     (if x = c then Some ([], xs)
      else map_option (\<lambda>(a, b). (x # a, b)) (split_first c xs))"

definition split_last :: "char \<Rightarrow> string \<Rightarrow> (string \<times> string) option" where
  \<comment> \<open>\<open>a, b = s.rsplit(c, 1)\<close>\<close>
  "split_last c s = map_option (\<lambda>(a, b). (rev b, rev a)) (split_first c (rev s))"

fun split_all :: "char \<Rightarrow> string \<Rightarrow> string list" where
  \<comment> \<open>\<open>s.split(c)\<close>\<close>
  "split_all c [] = [[]]"
| "split_all c (x # xs) =
     (if x = c then [] # split_all c xs
      else case split_all c xs of [] \<Rightarrow> [[x]] | y # ys \<Rightarrow> (x # y) # ys)"

fun read_digits :: "bool \<Rightarrow> nat \<Rightarrow> string \<Rightarrow> nat option" where
  \<comment> \<open>decimal digits with single underscores between them; the flag says that the previous
      character was a digit\<close>
  "read_digits prev n [] = (if prev then Some n else None)"
| "read_digits prev n (c # cs) =
     (if is_digit c then read_digits True (10 * n + digit_val c) cs
      else if c = CHR ''_'' \<and> prev \<and> cs \<noteq> [] then read_digits False n cs
      else None)"

definition int_of_str :: "string \<Rightarrow> int result" where
  \<comment> \<open>\<open>int(s)\<close>\<close>
  "int_of_str s =
     (let t = strip s in
      case t of
        [] \<Rightarrow> Inl ValueError
      | c # cs \<Rightarrow>
          (case (if c = CHR ''-'' \<or> c = CHR ''+'' then read_digits False 0 cs
                 else read_digits False 0 t) of
             None \<Rightarrow> Inl ValueError
           | Some n \<Rightarrow> Inr (if c = CHR ''-'' then - int n else int n)))"

lemma read_digits_digits:
  "(\<And>c. c \<in> set cs \<Longrightarrow> is_digit c) \<Longrightarrow> cs \<noteq> [] \<or> b \<Longrightarrow>
     read_digits b n cs = Some (foldl (\<lambda>n c. 10 * n + digit_val c) n cs)"
  by (induction cs arbitrary: b n) auto

lemma dropWhile_id: "(\<And>c. c \<in> set s \<Longrightarrow> \<not> P c) \<Longrightarrow> dropWhile P s = s"
  by (cases s) auto

lemma is_digit_not_space: "is_digit c \<Longrightarrow> \<not> str_space c"
  by (auto simp: is_digit_def is_space_def str_space_def Let_def)

lemma strip_id: "(\<And>c. c \<in> set s \<Longrightarrow> \<not> str_space c) \<Longrightarrow> strip s = s"
  using dropWhile_id [of s str_space] dropWhile_id [of "rev s" str_space] by (auto simp: strip_def)

lemma show_int_no_space: "c \<in> set (show_int i) \<Longrightarrow> \<not> str_space c"
proof -
  assume "c \<in> set (show_int i)"
  then have "c = CHR ''-'' \<or> is_digit c"
    by (auto simp: show_int_def dest: show_nat_digits split: if_splits)
  moreover have "\<not> str_space (CHR ''-'')" by code_simp
  ultimately show ?thesis using is_digit_not_space by auto
qed

theorem int_of_str_show_int: "int_of_str (show_int i) = Inr i"
proof -
  have strip: "strip (show_int i) = show_int i"
    by (rule strip_id) (rule show_int_no_space)
  have rd: "read_digits False 0 (show_nat n) = Some n" for n
    using read_digits_digits [of "show_nat n" False 0] show_nat_digits [of _ n]
    by (simp flip: read_nat_def)
  show ?thesis
  proof (cases "i < 0")
    case True
    then show ?thesis
      using strip rd [of "nat (- i)"] by (simp add: int_of_str_def show_int_def)
  next
    case False
    obtain c cs where c: "show_nat (nat i) = c # cs" by (cases "show_nat (nat i)") auto
    then have "is_digit c" using show_nat_digits [of c "nat i"] by simp
    then have "c \<noteq> CHR ''-''" "c \<noteq> CHR ''+''" by (auto simp: is_digit_def)
    then show ?thesis
      using False strip rd [of "nat i"] c by (simp add: int_of_str_def show_int_def)
  qed
qed

end
