(* ===== verification/Canonical.thy ===== *)
theory Canonical
  imports Py_Text
begin

text \<open>
  \<open>domain/canonical.py\<close>: the bytes that get hashed and signed. JSON values, the text
  \<open>json.dumps(obj, separators=(",", ":"), ensure_ascii=False)\<close> prints for them, the effect
  of \<open>sort_keys=True\<close> and \<open>canonical_bytes\<close>. The main results: the encoding does not
  depend on the order in which a dictionary was filled, and two values have the same canonical
  bytes exactly when they are the same value up to that order.
\<close>

section \<open>JSON values\<close>

text \<open>
  \<open>JFloat\<close> carries the text \<open>float.__repr__\<close> prints for the number. An object is the list
  of its items in insertion order.
\<close>

datatype json =
    JNull
  | JBool bool
  | JInt int
  | JFloat string
  | JStr string
  | JList "json list"
  | JObj "(string \<times> json) list"

section \<open>\<open>json.dumps\<close>\<close>

definition esc_char :: "char \<Rightarrow> string" where
  "esc_char c =
     (if c = CHR 0x22 then [CHR 0x5C, CHR 0x22]
      else if c = CHR 0x5C then [CHR 0x5C, CHR 0x5C]
      else if c = CHR 0x0A then [CHR 0x5C, CHR ''n'']
      else if c = CHR 0x0D then [CHR 0x5C, CHR ''r'']
      else if c = CHR 0x09 then [CHR 0x5C, CHR ''t'']
      else if c = CHR 0x0C then [CHR 0x5C, CHR ''f'']
      else if c = CHR 0x08 then [CHR 0x5C, CHR ''b'']
      else if (of_char c :: nat) < 32
        then [CHR 0x5C, CHR ''u'', CHR ''0'', CHR ''0'',
              nibble_char (of_char c div 16), nibble_char (of_char c mod 16)]
      else [c])"

lemma esc_char_code [code]:
  "esc_char (Char b0 b1 b2 b3 b4 b5 b6 b7) =
     (let c = Char b0 b1 b2 b3 b4 b5 b6 b7 in
      if b5 \<or> b6 \<or> b7 then
        if c = CHR 0x22 \<or> c = CHR 0x5C then [CHR 0x5C, c] else [c]
      else if c = CHR 0x0A then [CHR 0x5C, CHR ''n'']
      else if c = CHR 0x0D then [CHR 0x5C, CHR ''r'']
      else if c = CHR 0x09 then [CHR 0x5C, CHR ''t'']
      else if c = CHR 0x0C then [CHR 0x5C, CHR ''f'']
      else if c = CHR 0x08 then [CHR 0x5C, CHR ''b'']
      else [CHR 0x5C, CHR ''u'', CHR ''0'', CHR ''0'',
            nibble_of_bits b7 b6 b5 b4, nibble_of_bits b3 b2 b1 b0])"
  unfolding esc_char_def nibble_char_bits Let_def
  by (cases b0; cases b1; cases b2; cases b3; cases b4; cases b5; cases b6; cases b7; simp)

definition quote_str :: "string \<Rightarrow> string" where
  "quote_str s = CHR 0x22 # concat (map esc_char s) @ [CHR 0x22]"

fun join_comma :: "string list \<Rightarrow> string" where
  "join_comma [] = []"
| "join_comma [x] = x"
| "join_comma (x # y # ys) = x @ CHR '','' # join_comma (y # ys)"

definition float_text :: "string \<Rightarrow> string" where
  \<comment> \<open>\<open>json.dumps\<close> prints \<open>float.__repr__\<close>, but for the three values JSON has no text for\<close>
  "float_text t = (if t = ''nan'' then ''NaN'' else if t = ''inf'' then ''Infinity''
     else if t = ''-inf'' then ''-Infinity'' else t)"

fun json_text :: "json \<Rightarrow> string" where
  "json_text JNull = ''null''"
| "json_text (JBool b) = (if b then ''true'' else ''false'')"
| "json_text (JInt i) = show_int i"
| "json_text (JFloat t) = float_text t"
| "json_text (JStr s) = quote_str s"
| "json_text (JList xs) = CHR ''['' # join_comma (map json_text xs) @ '']''"
| "json_text (JObj kvs) =
     CHR ''{'' # join_comma (map (\<lambda>p. quote_str (fst p) @ CHR '':'' # json_text (snd p)) kvs) @ ''}''"

fun sort_keys :: "json \<Rightarrow> json" where
  \<comment> \<open>\<open>sort_keys=True\<close>, at every level\<close>
  "sort_keys (JList xs) = JList (map sort_keys xs)"
| "sort_keys (JObj kvs) = JObj (sort_key fst (map (\<lambda>p. (fst p, sort_keys (snd p))) kvs))"
| "sort_keys v = v"

definition canonical_bytes :: "json \<Rightarrow> bytes" where
  "canonical_bytes v = json_text (sort_keys v)"


section \<open>Order independence\<close>

lemma distinct_map_sort_key: "distinct (map f (sort_key f xs)) = distinct (map f xs)"
  by (induction xs) (auto simp: distinct_insort_key)

lemma sort_key_fst_cong:
  assumes "dict_ok d" "dict_ok e" "set d = set e"
  shows "sort_key fst d = sort_key fst e"
proof (rule map_sorted_distinct_set_unique [where f = fst])
  show "inj_on fst (set (sort_key fst d) \<union> set (sort_key fst e))"
    using assms by (simp add: dict_ok_def distinct_map)
qed (use assms in \<open>auto simp: distinct_map_sort_key dict_ok_def\<close>)

theorem sort_keys_obj_cong:
  assumes "dict_ok d" "dict_ok e" "set d = set e"
  shows "sort_keys (JObj d) = sort_keys (JObj e)"
proof -
  let ?g = "\<lambda>p. (fst p, sort_keys (snd p))"
  have "sort_key fst (map ?g d) = sort_key fst (map ?g e)"
    by (rule sort_key_fst_cong) (use assms in \<open>auto simp: dict_ok_def comp_def\<close>)
  then show ?thesis by simp
qed


section \<open>Injectivity of the text\<close>

text \<open>Reading one escaped character back.\<close>

definition unesc :: "string \<Rightarrow> (char \<times> string) option" where
  "unesc s = (case s of
     [] \<Rightarrow> None
   | c # cs \<Rightarrow>
       if c \<noteq> CHR 0x5C then Some (c, cs)
       else (case cs of
           [] \<Rightarrow> None
         | d # ds \<Rightarrow>
             if d = CHR ''n'' then Some (CHR 0x0A, ds)
             else if d = CHR ''r'' then Some (CHR 0x0D, ds)
             else if d = CHR ''t'' then Some (CHR 0x09, ds)
             else if d = CHR ''f'' then Some (CHR 0x0C, ds)
             else if d = CHR ''b'' then Some (CHR 0x08, ds)
             else if d = CHR ''u'' then
               (case (nibble_val (ds ! 2), nibble_val (ds ! 3)) of
                  (Some h, Some l) \<Rightarrow> Some (char_of (16 * h + l), drop 4 ds)
                | _ \<Rightarrow> None)
             else Some (d, ds)))"

lemma unesc_esc: "unesc (esc_char c @ r) = Some (c, r)"
  by (auto simp: unesc_def esc_char_def)

lemma esc_char_hd: "\<exists>d ds. esc_char c = d # ds \<and> d \<noteq> CHR 0x22"
  by (simp add: esc_char_def)

lemma escaped_inj:
  "concat (map esc_char k) @ CHR 0x22 # r = concat (map esc_char l) @ CHR 0x22 # s \<Longrightarrow> k = l \<and> r = s"
proof (induction k arbitrary: l)
  case Nil
  then show ?case
    using esc_char_hd by (cases l) (auto, metis append_Cons list.inject)
next
  case (Cons c k)
  show ?case
  proof (cases l)
    case Nil
    with Cons.prems show ?thesis
      using esc_char_hd [of c] by auto
  next
    case l: (Cons d l')
    have "esc_char c @ concat (map esc_char k) @ CHR 0x22 # r
        = esc_char d @ concat (map esc_char l') @ CHR 0x22 # s"
      using Cons.prems l by simp
    then have "Some (c, concat (map esc_char k) @ CHR 0x22 # r)
        = Some (d, concat (map esc_char l') @ CHR 0x22 # s)"
      by (metis unesc_esc)
    then show ?thesis using Cons.IH [of l'] l by simp
  qed
qed

lemma quote_str_append_inj: "quote_str k @ r = quote_str l @ s \<Longrightarrow> k = l \<and> r = s"
  using escaped_inj [of k r l s] by (simp add: quote_str_def)

text \<open>What can follow a value inside a larger text: nothing, a comma or a closing bracket.\<close>

definition delimited :: "string \<Rightarrow> bool" where
  "delimited r = (case r of [] \<Rightarrow> True | c # _ \<Rightarrow> c \<in> {CHR '','', CHR '']'', CHR ''}''})"

lemma delimited_simps [simp]:
  "delimited []" "delimited (CHR '','' # r)" "delimited (CHR '']'' # r)" "delimited (CHR ''}'' # r)"
  by (simp_all add: delimited_def)

lemma delimited_no_digit: "delimited r \<Longrightarrow> no_digit_start r"
proof -
  have "\<not> is_digit (CHR '','')" "\<not> is_digit (CHR '']'')" "\<not> is_digit (CHR ''}'')" by code_simp+
  then show "delimited r \<Longrightarrow> no_digit_start r"
    by (auto simp: delimited_def no_digit_start_def split: list.splits)
qed

lemma join_comma_Cons: "join_comma (x # xs) = x @ (if xs = [] then [] else CHR '','' # join_comma xs)"
  by (cases xs) auto

lemma join_comma_inj:
  assumes "join_comma (map f xs) @ c # r = join_comma (map f ys) @ c # s"
    and c: "c = CHR '']'' \<or> c = CHR ''}''"
    and inj: "\<And>x y r s. x \<in> set xs \<Longrightarrow> y \<in> set ys \<Longrightarrow> f x @ r = f y @ s \<Longrightarrow>
                delimited r \<Longrightarrow> delimited s \<Longrightarrow> x = y \<and> r = s"
    and hd: "\<And>x. x \<in> set xs \<union> set ys \<Longrightarrow> f x \<noteq> [] \<and> \<not> delimited (f x)"
  shows "xs = ys \<and> r = s"
  using assms
proof (induction xs arbitrary: ys)
  case Nil
  show ?case
  proof (cases ys)
    case (Cons y ys')
    have "f y \<noteq> []" "\<not> delimited (f y)" using Nil.prems(4) [of y] Cons by auto
    moreover have "hd (f y) = c"
      using Nil.prems(1) Cons \<open>f y \<noteq> []\<close> by (simp add: join_comma_Cons) (metis append_is_Nil_conv hd_append2 list.sel(1))
    ultimately have False using c by (cases "f y") auto
    then show ?thesis ..
  qed (use Nil.prems(1) in simp)
next
  case (Cons x xs)
  have fx: "f x \<noteq> []" "\<not> delimited (f x)" using Cons.prems(4) [of x] by auto
  show ?case
  proof (cases ys)
    case Nil
    have "hd (f x) = c"
      using Cons.prems(1) Nil fx by (simp add: join_comma_Cons) (metis append_is_Nil_conv hd_append2 list.sel(1))
    then have False using fx c by (cases "f x") auto
    then show ?thesis ..
  next
    case ys: (Cons y ys')
    let ?t = "\<lambda>zs r. (if zs = [] then [] else CHR '','' # join_comma (map f zs)) @ c # r"
    have "f x @ ?t xs r = f y @ ?t ys' s"
      using Cons.prems(1) ys by (simp add: join_comma_Cons)
    moreover have "delimited (?t xs r)" "delimited (?t ys' s)" using c by auto
    ultimately have xy: "x = y" and rest: "?t xs r = ?t ys' s"
      using Cons.prems(3) [of x y "?t xs r" "?t ys' s"] ys by auto
    have iff: "xs = [] \<longleftrightarrow> ys' = []" using rest c by (auto split: if_splits)
    then have "join_comma (map f xs) @ c # r = join_comma (map f ys') @ c # s"
      using rest by (auto split: if_splits)
    then have "xs = ys' \<and> r = s"
      by (rule Cons.IH [OF _ c]) (use Cons.prems(3,4) ys in auto)
    then show ?thesis using xy ys by simp
  qed
qed

text \<open>
  Values without floats: the only ones the sources hash or sign as part of a message, a
  header, a record or a membership change.
\<close>

fun no_float :: "json \<Rightarrow> bool" where
  "no_float (JFloat t) = False"
| "no_float (JList xs) = (\<forall>x \<in> set xs. no_float x)"
| "no_float (JObj kvs) = (\<forall>p \<in> set kvs. no_float (snd p))"
| "no_float _ = True"

definition first_class :: "json \<Rightarrow> nat" where
  "first_class v = (case v of JNull \<Rightarrow> 0 | JBool b \<Rightarrow> (if b then 1 else 2) | JInt _ \<Rightarrow> 3
     | JFloat _ \<Rightarrow> 4 | JStr _ \<Rightarrow> 5 | JList _ \<Rightarrow> 6 | JObj _ \<Rightarrow> 7)"

definition class_of_char :: "char \<Rightarrow> nat" where
  "class_of_char c = (if c = CHR ''n'' then 0 else if c = CHR ''t'' then 1 else if c = CHR ''f'' then 2
     else if c = CHR ''-'' \<or> is_digit c then 3 else if c = CHR 0x22 then 5
     else if c = CHR ''['' then 6 else if c = CHR ''{'' then 7 else 8)"

lemma class_of_digit: "is_digit c \<Longrightarrow> class_of_char c = 3"
  by (auto simp: class_of_char_def is_digit_def)

lemma show_int_class: "\<exists>c t. show_int i = c # t \<and> class_of_char c = 3"
proof (cases "i < 0")
  case False
  obtain c t where "show_nat (nat i) = c # t" by (cases "show_nat (nat i)") auto
  then show ?thesis
    using False show_nat_digits [of c "nat i"] class_of_digit by (simp add: show_int_def)
qed (auto simp: show_int_def class_of_char_def)

lemma json_text_class:
  "no_float v \<Longrightarrow> \<exists>c t. json_text v = c # t \<and> class_of_char c = first_class v"
  using show_int_class
  by (cases v) (auto simp: first_class_def class_of_char_def quote_str_def is_digit_def)

lemma json_text_not_delimited: "no_float v \<Longrightarrow> json_text v \<noteq> [] \<and> \<not> delimited (json_text v)"
proof -
  assume "no_float v"
  then obtain c t where c: "json_text v = c # t" "class_of_char c = first_class v"
    using json_text_class by blast
  have "first_class v \<noteq> 8" by (auto simp: first_class_def split: json.splits)
  then have "c \<notin> {CHR '','', CHR '']'', CHR ''}''}"
    using c(2) by (auto simp: class_of_char_def is_digit_def)
  with c show ?thesis by (simp add: delimited_def)
qed

lemma json_text_append_inj:
  "json_text v @ r = json_text w @ s \<Longrightarrow> no_float v \<Longrightarrow> no_float w \<Longrightarrow>
     delimited r \<Longrightarrow> delimited s \<Longrightarrow> v = w \<and> r = s"
proof (induction v arbitrary: w r s)
  case JNull
  then show ?case using json_text_class [of w]
    by (cases w) (auto simp: first_class_def class_of_char_def quote_str_def is_digit_def split: if_splits)
next
  case (JBool b)
  then show ?case using json_text_class [of w]
    by (cases w) (auto simp: first_class_def class_of_char_def quote_str_def is_digit_def split: if_splits)
next
  case (JInt i)
  have "first_class w = 3"
    using JInt json_text_class [of w] json_text_class [of "JInt i"]
    by (auto simp: first_class_def)
  then obtain j where "w = JInt j" by (cases w) (auto simp: first_class_def split: if_splits)
  with JInt show ?case
    using show_int_append_inj [of i r j s] by (simp add: delimited_no_digit)
next
  case (JFloat t)
  then show ?case by simp
next
  case (JStr k)
  have "first_class w = 5"
    using JStr json_text_class [of w] json_text_class [of "JStr k"]
    by (auto simp: first_class_def)
  then obtain l where "w = JStr l" by (cases w) (auto simp: first_class_def split: if_splits)
  with JStr show ?case using quote_str_append_inj [of k r l s] by simp
next
  case (JList xs)
  have "first_class w = 6"
    using JList.prems json_text_class [of w] json_text_class [of "JList xs"]
    by (auto simp: first_class_def)
  then obtain ys where w: "w = JList ys" by (cases w) (auto simp: first_class_def split: if_splits)
  have "join_comma (map json_text xs) @ CHR '']'' # r = join_comma (map json_text ys) @ CHR '']'' # s"
    using JList.prems(1) w by simp
  then have "xs = ys \<and> r = s"
    by (rule join_comma_inj)
      (use JList w in \<open>auto dest: json_text_not_delimited\<close>)
  with w show ?case by simp
next
  case (JObj kvs)
  have "first_class w = 7"
    using JObj.prems json_text_class [of w] json_text_class [of "JObj kvs"]
    by (auto simp: first_class_def)
  then obtain ys where w: "w = JObj ys" by (cases w) (auto simp: first_class_def split: if_splits)
  let ?f = "\<lambda>p. quote_str (fst p) @ CHR '':'' # json_text (snd p)"
  have "join_comma (map ?f kvs) @ CHR ''}'' # r = join_comma (map ?f ys) @ CHR ''}'' # s"
    using JObj.prems(1) w by simp
  then have "kvs = ys \<and> r = s"
  proof (rule join_comma_inj)
    fix x y r s
    assume xy: "x \<in> set kvs" "y \<in> set ys" "?f x @ r = ?f y @ s" "delimited r" "delimited s"
    have "fst x = fst y" "json_text (snd x) @ r = json_text (snd y) @ s"
      using quote_str_append_inj [of "fst x" "CHR '':'' # json_text (snd x) @ r" "fst y"
          "CHR '':'' # json_text (snd y) @ s"] xy(3) by auto
    moreover have "no_float (snd x)" "no_float (snd y)" using JObj.prems(2,3) xy w by auto
    moreover have "snd x \<in> Basic_BNFs.snds x" by (cases x) simp
    ultimately have "snd x = snd y \<and> r = s"
      using JObj.IH [OF xy(1)] xy(4,5) by blast
    then show "x = y \<and> r = s" using \<open>fst x = fst y\<close> by (simp add: prod_eq_iff)
  qed (auto simp: quote_str_def delimited_def)
  with w show ?case by simp
qed

lemma json_text_inj: "no_float v \<Longrightarrow> no_float w \<Longrightarrow> json_text v = json_text w \<longleftrightarrow> v = w"
  using json_text_append_inj [of v "[]" w "[]"] by auto

lemma no_float_sort_keys [simp]: "no_float (sort_keys v) = no_float v"
  by (induction v rule: sort_keys.induct) auto

theorem canonical_bytes_eq_iff:
  "no_float v \<Longrightarrow> no_float w \<Longrightarrow> canonical_bytes v = canonical_bytes w \<longleftrightarrow> sort_keys v = sort_keys w"
  by (simp add: canonical_bytes_def json_text_inj)

text \<open>For objects, field by field.\<close>

lemma sort_keys_obj_eq_iff:
  assumes "dict_ok d" "dict_ok e"
  shows "sort_keys (JObj d) = sort_keys (JObj e) \<longleftrightarrow>
    (\<forall>k. map_option sort_keys (dict_get d k) = map_option sort_keys (dict_get e k))"
proof -
  let ?g = "map (\<lambda>p. (fst p, sort_keys (snd p)))"
  have ok: "dict_ok (?g d)" "dict_ok (?g e)" using assms by (simp_all add: dict_ok_def comp_def)
  have get: "dict_get (?g c) k = map_option sort_keys (dict_get c k)" for c k
    by (induction c) auto
  have "sort_key fst (?g d) = sort_key fst (?g e) \<longleftrightarrow> set (?g d) = set (?g e)"
  proof
    assume "sort_key fst (?g d) = sort_key fst (?g e)"
    then have "set (sort_key fst (?g d)) = set (sort_key fst (?g e))" by (rule arg_cong)
    then show "set (?g d) = set (?g e)" by (simp only: set_sort)
  qed (rule sort_key_fst_cong [OF ok])
  also have "\<dots> \<longleftrightarrow> dict_get (?g d) = dict_get (?g e)"
    using map_of_inject_set [OF ok [unfolded dict_ok_def]] by blast
  also have "\<dots> \<longleftrightarrow> (\<forall>k. map_option sort_keys (dict_get d k) = map_option sort_keys (dict_get e k))"
    by (simp add: fun_eq_iff get)
  finally show ?thesis by simp
qed

theorem canonical_obj_eq_iff:
  assumes "dict_ok d" "dict_ok e" "no_float (JObj d)" "no_float (JObj e)"
  shows "canonical_bytes (JObj d) = canonical_bytes (JObj e) \<longleftrightarrow>
    (\<forall>k. map_option sort_keys (dict_get d k) = map_option sort_keys (dict_get e k))"
  using canonical_bytes_eq_iff [OF assms(3,4)] sort_keys_obj_eq_iff [OF assms(1,2)] by simp

lemma canonical_obj_fieldD:
  assumes "canonical_bytes (JObj d) = canonical_bytes (JObj e)"
    and "dict_ok d" "dict_ok e" "no_float (JObj d)" "no_float (JObj e)"
  shows "map_option sort_keys (dict_get d k) = map_option sort_keys (dict_get e k)"
  using canonical_obj_eq_iff [OF assms(2-5)] assms(1) by blast


section \<open>Reading dictionaries\<close>

text \<open>
  \<open>data[k]\<close>, \<open>data.get(k, default)\<close> and \<open>int(x)\<close> on a value that came from JSON. A
  field annotated \<open>str\<close> is read by \<open>as_str\<close>; a float given to \<open>int\<close> is outside the
  typed model, like any other value of a type the annotation excludes.
\<close>

fun get_item :: "json \<Rightarrow> string \<Rightarrow> json result" where
  "get_item (JObj d) k = (case dict_get d k of None \<Rightarrow> Inl KeyError | Some v \<Rightarrow> Inr v)"
| "get_item _ k = Inl TypeError"

fun get_default :: "json \<Rightarrow> string \<Rightarrow> json \<Rightarrow> json result" where
  "get_default (JObj d) k v = (case dict_get d k of None \<Rightarrow> Inr v | Some w \<Rightarrow> Inr w)"
| "get_default _ k v = Inl AttributeError"

fun as_str :: "json \<Rightarrow> string result" where
  "as_str (JStr s) = Inr s"
| "as_str _ = Inl IllTyped"

fun as_list :: "json \<Rightarrow> json list result" where
  \<comment> \<open>the value a comprehension iterates over\<close>
  "as_list (JList xs) = Inr xs"
| "as_list (JObj d) = Inr (map (JStr \<circ> fst) d)"
| "as_list (JStr s) = Inr (map (\<lambda>c. JStr [c]) s)"
| "as_list _ = Inl TypeError"

fun py_int :: "json \<Rightarrow> int result" where
  "py_int (JInt i) = Inr i"
| "py_int (JBool b) = Inr (if b then 1 else 0)"
| "py_int (JStr s) = int_of_str s"
| "py_int (JFloat t) = Inl IllTyped"
| "py_int _ = Inl TypeError"

section \<open>Properties\<close>

text \<open>C30: the canonical encoding is a normal form. Two dictionaries without floats have the
  same canonical bytes exactly if they agree on every key, whatever the insertion order of
  their keys, so equal bytes never stand for different content.\<close>

theorem canonical_bytes_normal_form:
  assumes "dict_ok d" "dict_ok e" "no_float (JObj d)" "no_float (JObj e)"
  shows "canonical_bytes (JObj d) = canonical_bytes (JObj e) \<longleftrightarrow>
    (\<forall>k. map_option sort_keys (dict_get d k) = map_option sort_keys (dict_get e k))"
  using canonical_obj_eq_iff [OF assms] .

theorem canonical_bytes_normal_form_witness:
  "canonical_bytes (JObj [(''b'', JInt 1), (''a'', JList [JNull, JStr ''x''])])
     = canonical_bytes (JObj [(''a'', JList [JNull, JStr ''x'']), (''b'', JInt 1)])"
  by (subst canonical_bytes_normal_form) (simp_all add: dict_ok_def)

end
