(* ===== verification/Crypto.thy ===== *)
theory Crypto
  imports Canonical
begin

text \<open>
  \<open>domain/crypto.py\<close>: keys and signatures. The primitives themselves (\<open>hashlib\<close>,
  \<open>hmac\<close>, and Ed25519 from the \<open>cryptography\<close> package) are not code of the repository:
  they are the fields of a record \<open>crypto\<close>, an argument of every definition that uses
  them. What the sources rely on is stated as named predicates on that record.
\<close>

section \<open>The primitives\<close>

record crypto =
  sha256 :: "bytes \<Rightarrow> bytes"                      \<comment> \<open>\<open>hashlib.sha256(data).digest()\<close>\<close>
  hmac_sha256 :: "bytes \<Rightarrow> bytes \<Rightarrow> bytes"        \<comment> \<open>\<open>hmac.new(key, data, sha256).digest()\<close>\<close>
  public_bytes_ok :: "bytes \<Rightarrow> bool"              \<comment> \<open>\<open>Ed25519PublicKey.from_public_bytes\<close> accepts\<close>
  public_of_seed :: "bytes \<Rightarrow> bytes"              \<comment> \<open>raw public key of a private seed\<close>
  ed_sign :: "bytes \<Rightarrow> bytes \<Rightarrow> bytes"            \<comment> \<open>seed, message\<close>
  ed_verify :: "bytes \<Rightarrow> bytes \<Rightarrow> bytes \<Rightarrow> bool"  \<comment> \<open>raw public key, signature, message\<close>

text \<open>
  Documented behaviour of Ed25519 in the \<open>cryptography\<close> package: the public key of a seed
  is a loadable key, and a signature made with the seed verifies under it; neither is an
  empty byte string.
\<close>

definition ed25519_correct :: "crypto \<Rightarrow> bool" where
  "ed25519_correct C \<longleftrightarrow>
     (\<forall>seed. length seed = 32 \<longrightarrow> public_of_seed C seed \<noteq> [] \<and> public_bytes_ok C (public_of_seed C seed)) \<and>
     (\<forall>seed m. length seed = 32 \<longrightarrow>
        ed_sign C seed m \<noteq> [] \<and> ed_verify C (public_of_seed C seed) (ed_sign C seed m) m)"

text \<open>Collision resistance of SHA-256, on the inputs a statement is about.\<close>

definition collision_free :: "crypto \<Rightarrow> bytes set \<Rightarrow> bool" where
  "collision_free C S \<longleftrightarrow> inj_on (sha256 C) S"

definition digest_length :: "crypto \<Rightarrow> bool" where
  "digest_length C \<longleftrightarrow> (\<forall>x. length (sha256 C x) = 32)"

definition sha256_hex :: "crypto \<Rightarrow> bytes \<Rightarrow> string" where
  "sha256_hex C data = hex_of_bytes (sha256 C data)"


section \<open>Keys\<close>

datatype public_key = PublicKey (raw_public: bytes)

datatype private_key = PrivateKey (raw_seed: bytes)

definition public_from_hex :: "crypto \<Rightarrow> string \<Rightarrow> public_key result" where
  "public_from_hex C s =
     bindr (bytes_fromhex s) (\<lambda>raw.
       if public_bytes_ok C raw then Inr (PublicKey raw) else Inl ValueError)"

definition public_to_hex :: "public_key \<Rightarrow> string" where
  "public_to_hex k = hex_of_bytes (raw_public k)"

definition public_verify :: "crypto \<Rightarrow> public_key \<Rightarrow> bytes \<Rightarrow> bytes \<Rightarrow> bool" where
  "public_verify C k sig msg = ed_verify C (raw_public k) sig msg"

definition public_eq :: "public_key \<Rightarrow> public_key \<Rightarrow> bool" where
  "public_eq a b = (public_to_hex a = public_to_hex b)"

definition private_from_hex :: "string \<Rightarrow> private_key result" where
  "private_from_hex s =
     bindr (bytes_fromhex s) (\<lambda>raw.
       if length raw \<noteq> 32 then Inl ValueError else Inr (PrivateKey raw))"

definition private_to_hex :: "private_key \<Rightarrow> string" where
  "private_to_hex k = hex_of_bytes (raw_seed k)"

definition private_public :: "crypto \<Rightarrow> private_key \<Rightarrow> public_key" where
  "private_public C k = PublicKey (public_of_seed C (raw_seed k))"

definition private_sign :: "crypto \<Rightarrow> private_key \<Rightarrow> bytes \<Rightarrow> bytes" where
  "private_sign C k msg = ed_sign C (raw_seed k) msg"

text \<open>A private key as \<open>PrivateKey.from_hex\<close> and \<open>generate\<close> make them.\<close>

definition private_ok :: "private_key \<Rightarrow> bool" where
  "private_ok k \<longleftrightarrow> length (raw_seed k) = 32"

lemma public_to_hex_inj [simp]: "public_to_hex a = public_to_hex b \<longleftrightarrow> a = b"
  by (cases a; cases b) (simp add: public_to_hex_def hex_of_bytes_inj)

lemma public_eq_iff [simp]: "public_eq a b \<longleftrightarrow> a = b"
  by (simp add: public_eq_def)

lemma bytes_fromhex_error: "bytes_fromhex t = Inl e \<Longrightarrow> e = ValueError"
  by (induction t rule: bytes_fromhex.induct) (auto simp: bindr_def split: if_splits sum.splits option.splits)

lemma public_from_hex_error: "public_from_hex C t = Inl e \<Longrightarrow> e = ValueError"
  by (auto simp: public_from_hex_def bindr_Inl_iff dest: bytes_fromhex_error split: if_splits)

lemma private_from_hex_to_hex: "private_ok k \<Longrightarrow> private_from_hex (private_to_hex k) = Inr k"
  by (cases k) (simp add: private_from_hex_def private_to_hex_def private_ok_def)

lemma public_from_hex_to_hex:
  "public_bytes_ok C (raw_public k) \<Longrightarrow> public_from_hex C (public_to_hex k) = Inr k"
  by (cases k) (simp add: public_from_hex_def public_to_hex_def)

lemma public_from_hex_Inr:
  "public_from_hex C s = Inr k \<longleftrightarrow>
     (\<exists>raw. bytes_fromhex s = Inr raw \<and> public_bytes_ok C raw \<and> k = PublicKey raw)"
  by (auto simp: public_from_hex_def bindr_Inr_iff)

text \<open>
  A canonical spelling of a key: the lower-case text \<open>to_hex()\<close> prints. For canonical
  strings, equal keys have equal spellings.
\<close>

lemma public_from_hex_canonical:
  "public_from_hex C s = Inr k \<Longrightarrow> canonical_hex s \<longleftrightarrow> s = public_to_hex k"
  by (auto simp: public_from_hex_Inr public_to_hex_def dest: canonical_hex_fromhex)

lemma private_public_from_hex:
  assumes "ed25519_correct C" "private_ok k"
  shows "public_from_hex C (public_to_hex (private_public C k)) = Inr (private_public C k)"
  using assms by (simp add: public_from_hex_to_hex ed25519_correct_def private_ok_def private_public_def)

lemma public_verify_sign:
  assumes "ed25519_correct C" "private_ok k"
  shows "public_verify C (private_public C k) (private_sign C k m) m"
  using assms
  by (simp add: public_verify_def private_public_def private_sign_def ed25519_correct_def private_ok_def)

lemma private_nonempty:
  assumes "ed25519_correct C" "private_ok k"
  shows "private_sign C k m \<noteq> []" "public_to_hex (private_public C k) \<noteq> []"
  using assms by (auto simp: private_sign_def private_public_def public_to_hex_def ed25519_correct_def private_ok_def)


section \<open>A concrete instance\<close>

text \<open>
  For evaluating the definitions on concrete inputs: a digest that copies its input behind
  a tag (injective), a key that is its seed, and a signature that is key and message side
  by side. It satisfies \<open>ed25519_correct\<close> and is collision free everywhere.
\<close>

definition demo_crypto :: crypto where
  "demo_crypto = \<lparr>sha256 = (\<lambda>x. CHR ''h'' # x), hmac_sha256 = (\<lambda>k x. k @ CHR ''m'' # x),
     public_bytes_ok = (\<lambda>raw. length raw = 32), public_of_seed = (\<lambda>seed. seed),
     ed_sign = (\<lambda>seed m. seed @ m), ed_verify = (\<lambda>pk s m. s = pk @ m)\<rparr>"

definition demo_key :: "char \<Rightarrow> private_key" where
  "demo_key c = PrivateKey (replicate 32 c)"

lemma demo_crypto_correct: "ed25519_correct demo_crypto"
  by (auto simp: ed25519_correct_def demo_crypto_def)

lemma demo_crypto_collision_free: "collision_free demo_crypto S"
  by (simp add: collision_free_def demo_crypto_def inj_on_def)

lemma demo_key_ok: "private_ok (demo_key c)"
  by (simp add: private_ok_def demo_key_def)

text \<open>
  The same instance with a digest of the real length: the first 8 and the last 24 bytes of
  the padded input; a signature is the key followed by the digest. It is not injective, so statements about collision resistance are instantiated on
  the finitely many inputs they name.
\<close>

definition padded_digest :: "bytes \<Rightarrow> bytes" where
  "padded_digest x = take 8 (x @ replicate 8 (CHR ''0'')) @ take 24 (rev x @ replicate 24 (CHR ''0''))"

definition padded_crypto :: crypto where
  "padded_crypto = demo_crypto\<lparr>sha256 := padded_digest,
     ed_sign := (\<lambda>seed m. seed @ padded_digest m), ed_verify := (\<lambda>pk s m. s = pk @ padded_digest m)\<rparr>"

lemma padded_crypto_digest_length: "digest_length padded_crypto"
  by (auto simp: digest_length_def padded_crypto_def padded_digest_def)

lemma padded_crypto_correct: "ed25519_correct padded_crypto"
  by (auto simp: ed25519_correct_def padded_crypto_def demo_crypto_def)

lemma collision_free_set_code:
  "collision_free C (set xs) \<longleftrightarrow> (let ys = remdups xs in distinct (map (sha256 C) ys))"
  by (simp add: collision_free_def Let_def distinct_map)

text \<open>
  A small instance for evaluating long runs: keys of one byte, a digest of four bytes of the
  end of its input (for a block header, the last digits of its time), and a signature that is
  the key with the last bytes of the message.
\<close>

definition short_crypto :: crypto where
  "short_crypto = \<lparr>sha256 = (\<lambda>x. take 4 (drop 1 (rev x))), hmac_sha256 = (\<lambda>k x. k),
     public_bytes_ok = (\<lambda>raw. length raw = 1), public_of_seed = take 1,
     ed_sign = (\<lambda>seed m. take 1 seed @ take 2 (rev m)), ed_verify = (\<lambda>pk s m. s = pk @ take 2 (rev m))\<rparr>"

lemma short_crypto_correct: "ed25519_correct short_crypto"
  by (auto simp: ed25519_correct_def short_crypto_def)

end
