(* ===== verification/Merkle.thy ===== *)
theory Merkle
  imports Crypto
begin

text \<open>
  \<open>domain/merkle.py\<close>: the Merkle root of a list of leaves, inclusion proofs and their
  verification. Proved: every generated proof verifies (completeness), a verifying proof
  belongs to a leaf of the tree (soundness, from collision resistance and the domain
  separation of leaves and nodes), the root determines the leaves once their number is
  known, and, conversely, that the number of leaves is not determined by the root.
\<close>

section \<open>Definitions\<close>

definition LEAF_PREFIX :: char where "LEAF_PREFIX = CHR 0x00"
definition NODE_PREFIX :: char where "NODE_PREFIX = CHR 0x01"

definition EMPTY_ROOT :: "crypto \<Rightarrow> bytes" where
  "EMPTY_ROOT C = sha256 C []"

definition hash_leaf :: "crypto \<Rightarrow> bytes \<Rightarrow> bytes" where
  "hash_leaf C data = sha256 C (LEAF_PREFIX # data)"

definition hash_node :: "crypto \<Rightarrow> bytes \<Rightarrow> bytes \<Rightarrow> bytes" where
  "hash_node C left right = sha256 C (NODE_PREFIX # left @ right)"

definition pad_level :: "bytes list \<Rightarrow> bytes list" where
  \<comment> \<open>\<open>if len(level) % 2 == 1: level.append(level[-1])\<close>\<close>
  "pad_level level = (if length level mod 2 = 1 then level @ [last level] else level)"

fun pair_level :: "crypto \<Rightarrow> bytes list \<Rightarrow> bytes list" where
  \<comment> \<open>\<open>[_hash_node(level[i], level[i+1]) for i in range(0, len(level), 2)]\<close>, on an even level\<close>
  "pair_level C (a # b # rest) = hash_node C a b # pair_level C rest"
| "pair_level C _ = []"

lemma length_pair_level [simp]: "length (pair_level C l) = length l div 2"
  by (induction C l rule: pair_level.induct) auto

lemma length_pad_level: "length (pad_level l) = 2 * ((length l + 1) div 2)"
  by (auto simp: pad_level_def) presburger+

function merkle_loop :: "crypto \<Rightarrow> bytes list \<Rightarrow> bytes list" where
  "merkle_loop C level =
     (if length level > 1 then merkle_loop C (pair_level C (pad_level level)) else level)"
  by pat_completeness auto
termination
  by (relation "measure (\<lambda>(C, l). length l)") (auto simp: length_pad_level)

declare merkle_loop.simps [simp del]

definition merkle_root :: "crypto \<Rightarrow> bytes list \<Rightarrow> bytes" where
  "merkle_root C leaves =
     (if leaves = [] then EMPTY_ROOT C else hd (merkle_loop C (map (hash_leaf C) leaves)))"

record proof_step =
  sibling :: bytes
  sibling_on_right :: bool

function proof_loop :: "crypto \<Rightarrow> bytes list \<Rightarrow> nat \<Rightarrow> proof_step list" where
  "proof_loop C level idx =
     (if length level > 1 then
        let level' = pad_level level;
            step = (if idx mod 2 = 0
                    then \<lparr>sibling = level' ! (idx + 1), sibling_on_right = True\<rparr>
                    else \<lparr>sibling = level' ! (idx - 1), sibling_on_right = False\<rparr>)
        in step # proof_loop C (pair_level C level') (idx div 2)
      else [])"
  by pat_completeness auto
termination
  by (relation "measure (\<lambda>(C, l, i). length l)") (auto simp: length_pad_level)

declare proof_loop.simps [simp del]

definition merkle_proof :: "crypto \<Rightarrow> bytes list \<Rightarrow> int \<Rightarrow> proof_step list result" where
  "merkle_proof C leaves index =
     (if 0 \<le> index \<and> index < int (length leaves)
      then Inr (proof_loop C (map (hash_leaf C) leaves) (nat index))
      else Inl IndexError)"

definition proof_acc :: "crypto \<Rightarrow> bytes \<Rightarrow> proof_step \<Rightarrow> bytes" where
  "proof_acc C acc step =
     (if sibling_on_right step then hash_node C acc (sibling step)
      else hash_node C (sibling step) acc)"

definition verify_proof :: "crypto \<Rightarrow> bytes \<Rightarrow> proof_step list \<Rightarrow> bytes \<Rightarrow> bool" where
  "verify_proof C leaf proof root = (foldl (proof_acc C) (hash_leaf C leaf) proof = root)"


section \<open>Completeness\<close>

lemma even_pad_level [simp]: "even (length (pad_level l))"
  by (simp add: length_pad_level)

lemma nth_pair_level:
  "i < length l div 2 \<Longrightarrow> pair_level C l ! i = hash_node C (l ! (2 * i)) (l ! (2 * i + 1))"
proof (induction C l arbitrary: i rule: pair_level.induct)
  case (1 C a b rest)
  then show ?case by (cases i) auto
qed auto

lemma nth_pad_level: "i < length l \<Longrightarrow> pad_level l ! i = l ! i"
  by (simp add: pad_level_def nth_append)

lemma foldl_proof_loop:
  "i < length level \<Longrightarrow> foldl (proof_acc C) (level ! i) (proof_loop C level i) = hd (merkle_loop C level)"
proof (induction C level i rule: proof_loop.induct)
  case (1 C level i)
  show ?case
  proof (cases "length level > 1")
    case False
    with "1.prems" have "i = 0" "level \<noteq> []" by auto
    with False show ?thesis
      by (simp add: proof_loop.simps [of C level 0] merkle_loop.simps [of C level] hd_conv_nth)
  next
    case True
    let ?l = "pad_level level"
    let ?s = "if i mod 2 = 0 then \<lparr>sibling = ?l ! (i + 1), sibling_on_right = True\<rparr>
              else \<lparr>sibling = ?l ! (i - 1), sibling_on_right = False\<rparr>"
    have lt: "i div 2 < length (pair_level C ?l)"
      using "1.prems" by (simp add: length_pad_level)
    then have nth: "pair_level C ?l ! (i div 2) = hash_node C (?l ! (2 * (i div 2))) (?l ! (2 * (i div 2) + 1))"
      by (simp add: nth_pair_level)
    have "proof_acc C (level ! i) ?s = pair_level C ?l ! (i div 2)"
    proof (cases "i mod 2 = 0")
      case True
      then have "2 * (i div 2) = i" by presburger
      with True nth show ?thesis using "1.prems" by (simp add: proof_acc_def nth_pad_level)
    next
      case False
      then have "2 * (i div 2) = i - 1" "2 * (i div 2) + 1 = i" by presburger+
      with False nth show ?thesis using "1.prems" by (simp add: proof_acc_def nth_pad_level)
    qed
    moreover have "foldl (proof_acc C) (pair_level C ?l ! (i div 2)) (proof_loop C (pair_level C ?l) (i div 2))
        = hd (merkle_loop C (pair_level C ?l))"
      using "1.IH" [OF True refl refl lt] .
    ultimately show ?thesis
      using True by (simp add: proof_loop.simps [of C level i] merkle_loop.simps [of C level] Let_def)
  qed
qed

lemma proof_verifies:
  assumes "merkle_proof C leaves i = Inr pr"
  shows "0 \<le> i \<and> i < int (length leaves) \<and> verify_proof C (leaves ! nat i) pr (merkle_root C leaves)"
proof -
  have i: "0 \<le> i" "i < int (length leaves)" and pr: "pr = proof_loop C (map (hash_leaf C) leaves) (nat i)"
    using assms by (auto simp: merkle_proof_def split: if_splits)
  have "nat i < length leaves" using i by auto
  then show ?thesis
    using i pr foldl_proof_loop [of "nat i" "map (hash_leaf C) leaves" C]
    by (auto simp: verify_proof_def merkle_root_def)
qed


section \<open>The inputs the tree hashes\<close>

fun pair_inputs :: "bytes list \<Rightarrow> bytes list" where
  "pair_inputs (a # b # rest) = (NODE_PREFIX # a @ b) # pair_inputs rest"
| "pair_inputs _ = []"

function loop_inputs :: "crypto \<Rightarrow> bytes list \<Rightarrow> bytes list" where
  "loop_inputs C level =
     (if length level > 1
      then pair_inputs (pad_level level) @ loop_inputs C (pair_level C (pad_level level))
      else [])"
  by pat_completeness auto
termination
  by (relation "measure (\<lambda>(C, l). length l)") (auto simp: length_pad_level)

declare loop_inputs.simps [simp del]

definition merkle_inputs :: "crypto \<Rightarrow> bytes list \<Rightarrow> bytes list" where
  \<comment> \<open>every byte string \<open>merkle_root\<close> passes to \<open>sha256\<close>\<close>
  "merkle_inputs C leaves =
     (if leaves = [] then [[]]
      else map ((#) LEAF_PREFIX) leaves @ loop_inputs C (map (hash_leaf C) leaves))"

fun proof_inputs :: "crypto \<Rightarrow> bytes \<Rightarrow> proof_step list \<Rightarrow> bytes list" where
  "proof_inputs C acc [] = []"
| "proof_inputs C acc (s # ss) =
     (NODE_PREFIX # (if sibling_on_right s then acc @ sibling s else sibling s @ acc))
       # proof_inputs C (proof_acc C acc s) ss"

definition verify_inputs :: "crypto \<Rightarrow> bytes \<Rightarrow> proof_step list \<Rightarrow> bytes list" where
  \<comment> \<open>every byte string \<open>verify_proof\<close> passes to \<open>sha256\<close>\<close>
  "verify_inputs C leaf proof = (LEAF_PREFIX # leaf) # proof_inputs C (hash_leaf C leaf) proof"

lemma pair_level_inputs: "pair_level C l = map (sha256 C) (pair_inputs l)"
  by (induction C l rule: pair_level.induct) (auto simp: hash_node_def)

lemma pair_inputs_elem:
  "x \<in> set (pair_inputs l) \<Longrightarrow> \<exists>a b. x = NODE_PREFIX # a @ b \<and> a \<in> set l \<and> b \<in> set l"
  by (induction l rule: pair_inputs.induct) auto

lemma set_pad_level: "set (pad_level l) = set l"
  by (cases "l = []") (auto simp: pad_level_def)

lemma loop_inputs_elem:
  "x \<in> set (loop_inputs C level) \<Longrightarrow>
     \<exists>a b. x = NODE_PREFIX # a @ b \<and>
       a \<in> set level \<union> sha256 C ` set (loop_inputs C level) \<and>
       b \<in> set level \<union> sha256 C ` set (loop_inputs C level)"
proof (induction C level rule: loop_inputs.induct)
  case (1 C level)
  then have len: "length level > 1" by (auto simp: loop_inputs.simps [of C level] split: if_splits)
  let ?p = "pair_inputs (pad_level level)" and ?q = "loop_inputs C (pair_level C (pad_level level))"
  have eq: "loop_inputs C level = ?p @ ?q" using len by (simp add: loop_inputs.simps [of C level])
  consider "x \<in> set ?p" | "x \<in> set ?q" using "1.prems" eq by auto
  then show ?case
  proof cases
    assume "x \<in> set ?p"
    then show ?thesis using pair_inputs_elem [of x "pad_level level"] by (auto simp: set_pad_level)
  next
    assume "x \<in> set ?q"
    from "1.IH" [OF len this] show ?thesis
      unfolding eq by (auto simp: pair_level_inputs)
  qed
qed

lemma merkle_loop_root:
  "level \<noteq> [] \<Longrightarrow> hd (merkle_loop C level) \<in> set level \<union> sha256 C ` set (loop_inputs C level)"
proof (induction C level rule: merkle_loop.induct)
  case (1 C level)
  show ?case
  proof (cases "length level > 1")
    case True
    have "pair_level C (pad_level level) \<noteq> []"
      using True by (simp add: length_pad_level flip: length_greater_0_conv)
    from "1.IH" [OF True this] show ?thesis
      using True
      by (auto simp: merkle_loop.simps [of C level] loop_inputs.simps [of C level] pair_level_inputs)
  qed (use 1 in \<open>simp add: merkle_loop.simps [of C level]\<close>)
qed

lemma merkle_inputs_elem:
  assumes "x \<in> set (merkle_inputs C leaves)"
  shows "x = [] \<and> leaves = [] \<or> (\<exists>leaf \<in> set leaves. x = LEAF_PREFIX # leaf) \<or>
    (\<exists>a b. x = NODE_PREFIX # a @ b \<and> a \<in> sha256 C ` set (merkle_inputs C leaves) \<and>
       b \<in> sha256 C ` set (merkle_inputs C leaves))"
proof (cases "leaves = []")
  case False
  have img: "set (map (hash_leaf C) leaves) \<union> sha256 C ` set (loop_inputs C (map (hash_leaf C) leaves))
      = sha256 C ` set (merkle_inputs C leaves)"
    using False by (auto simp: merkle_inputs_def hash_leaf_def)
  show ?thesis
    using assms False loop_inputs_elem [of x C "map (hash_leaf C) leaves"]
    unfolding img by (auto simp: merkle_inputs_def)
qed (use assms in \<open>simp add: merkle_inputs_def\<close>)

lemma merkle_root_in_inputs: "merkle_root C leaves \<in> sha256 C ` set (merkle_inputs C leaves)"
  using merkle_loop_root [of "map (hash_leaf C) leaves" C]
  by (auto simp: merkle_root_def merkle_inputs_def EMPTY_ROOT_def hash_leaf_def)


section \<open>Soundness\<close>

lemma prefixes_differ [simp]: "LEAF_PREFIX \<noteq> NODE_PREFIX" "NODE_PREFIX \<noteq> LEAF_PREFIX"
  by (simp_all add: LEAF_PREFIX_def NODE_PREFIX_def)

lemma proof_acc_input: "proof_acc C acc s = sha256 C (hd (proof_inputs C acc (s # ss)))"
  by (simp add: proof_acc_def hash_node_def)

lemma proof_step_back:
  assumes free: "inj_on (sha256 C) (set I \<union> {x})" and len: "\<forall>x. length (sha256 C x) = 32"
    and closed: "\<And>x. x \<in> set I \<Longrightarrow> hd x = NODE_PREFIX \<Longrightarrow> x \<noteq> [] \<Longrightarrow>
      \<exists>a b. x = NODE_PREFIX # a @ b \<and> a \<in> sha256 C ` set I \<and> b \<in> sha256 C ` set I"
    and x: "x = NODE_PREFIX # (if sibling_on_right s then acc @ sibling s else sibling s @ acc)"
    and acc: "length acc = 32" and "sha256 C x \<in> sha256 C ` set I"
  shows "acc \<in> sha256 C ` set I"
proof -
  obtain y where y: "y \<in> set I" "sha256 C x = sha256 C y" using assms(6) by auto
  then have "x = y" using free by (auto dest: inj_onD)
  then obtain a b where ab: "x = NODE_PREFIX # a @ b" "a \<in> sha256 C ` set I" "b \<in> sha256 C ` set I"
    using closed [of y] y x by auto
  have "length a = 32" "length b = 32" using ab(2,3) len by auto
  show ?thesis
  proof (cases "sibling_on_right s")
    case True
    then have "acc @ sibling s = a @ b" using ab(1) x by simp
    with acc \<open>length a = 32\<close> have "acc = a" by simp
    then show ?thesis using ab(2) by simp
  next
    case False
    then have "sibling s @ acc = a @ b" using ab(1) x by simp
    with acc \<open>length b = 32\<close> have "acc = b" by simp
    then show ?thesis using ab(3) by simp
  qed
qed

lemma foldl_proof_in_inputs:
  assumes len: "\<forall>x. length (sha256 C x) = 32"
    and closed: "\<And>x. x \<in> set I \<Longrightarrow> hd x = NODE_PREFIX \<Longrightarrow> x \<noteq> [] \<Longrightarrow>
      \<exists>a b. x = NODE_PREFIX # a @ b \<and> a \<in> sha256 C ` set I \<and> b \<in> sha256 C ` set I"
  shows "inj_on (sha256 C) (set I \<union> set (proof_inputs C acc pr)) \<Longrightarrow> length acc = 32 \<Longrightarrow>
    foldl (proof_acc C) acc pr \<in> sha256 C ` set I \<Longrightarrow> acc \<in> sha256 C ` set I"
proof (induction pr arbitrary: acc)
  case (Cons s ss)
  let ?x = "hd (proof_inputs C acc (s # ss))"
  have acc': "length (proof_acc C acc s) = 32" using len by (simp add: proof_acc_def hash_node_def)
  have "inj_on (sha256 C) (set I \<union> set (proof_inputs C (proof_acc C acc s) ss))"
    by (rule inj_on_subset [OF Cons.prems(1)]) auto
  then have "proof_acc C acc s \<in> sha256 C ` set I"
    using Cons.IH [OF _ acc'] Cons.prems(3) by simp
  then have "sha256 C ?x \<in> sha256 C ` set I"
    unfolding proof_acc_input [of C acc s ss, symmetric] .
  moreover have "inj_on (sha256 C) (set I \<union> {?x})"
    by (rule inj_on_subset [OF Cons.prems(1)]) auto
  moreover have "?x = NODE_PREFIX # (if sibling_on_right s then acc @ sibling s else sibling s @ acc)"
    by simp
  ultimately show ?case
    using proof_step_back [OF _ len closed] Cons.prems(2) by metis
qed simp

lemma proof_sound:
  assumes "verify_proof C leaf pr (merkle_root C leaves)" "digest_length C"
    and free: "collision_free C (set (merkle_inputs C leaves) \<union> set (verify_inputs C leaf pr))"
  shows "leaf \<in> set leaves"
proof -
  let ?I = "merkle_inputs C leaves"
  have len: "\<forall>x. length (sha256 C x) = 32" using assms(2) by (simp add: digest_length_def)
  have inj: "inj_on (sha256 C) (set ?I \<union> set (verify_inputs C leaf pr))"
    using free by (simp add: collision_free_def)
  have closed: "\<exists>a b. x = NODE_PREFIX # a @ b \<and> a \<in> sha256 C ` set ?I \<and> b \<in> sha256 C ` set ?I"
    if "x \<in> set ?I" "hd x = NODE_PREFIX" "x \<noteq> []" for x
    using merkle_inputs_elem [OF that(1)] that(2,3) by auto
  have "foldl (proof_acc C) (hash_leaf C leaf) pr \<in> sha256 C ` set ?I"
    using assms(1) merkle_root_in_inputs [of C leaves] by (simp add: verify_proof_def)
  moreover have "inj_on (sha256 C) (set ?I \<union> set (proof_inputs C (hash_leaf C leaf) pr))"
    by (rule inj_on_subset [OF inj]) (auto simp: verify_inputs_def)
  ultimately have "hash_leaf C leaf \<in> sha256 C ` set ?I"
    using foldl_proof_in_inputs [OF len closed, of "hash_leaf C leaf" pr] len
    by (simp add: hash_leaf_def)
  then obtain y where y: "y \<in> set ?I" "sha256 C (LEAF_PREFIX # leaf) = sha256 C y"
    by (auto simp: hash_leaf_def)
  then have "y = LEAF_PREFIX # leaf"
    using inj by (auto simp: verify_inputs_def dest: inj_onD)
  then show ?thesis using merkle_inputs_elem [OF y(1)] by auto
qed


section \<open>What the root determines\<close>

lemma pair_inputs_inj:
  assumes "length l = length m" "even (length l)" "\<forall>x \<in> set l \<union> set m. length x = 32"
    and "pair_inputs l = pair_inputs m"
  shows "l = m"
  using assms
proof (induction l arbitrary: m rule: pair_inputs.induct)
  case (1 a b rest)
  then obtain a' b' rest' where m: "m = a' # b' # rest'"
    by (metis Suc_length_conv length_Cons)
  with 1 show ?case by auto
qed auto

lemma pad_level_inj: "length l = length m \<Longrightarrow> pad_level l = pad_level m \<Longrightarrow> l = m"
  by (auto simp: pad_level_def split: if_splits)

lemma merkle_loop_inj:
  assumes "length l = length m" "\<forall>x. length (sha256 C x) = 32" "\<forall>x \<in> set l \<union> set m. length x = 32"
    and "inj_on (sha256 C) (set (loop_inputs C l) \<union> set (loop_inputs C m))"
    and "hd (merkle_loop C l) = hd (merkle_loop C m)"
  shows "l = m"
  using assms
proof (induction C l arbitrary: m rule: merkle_loop.induct)
  case (1 C l)
  show ?case
  proof (cases "length l > 1")
    case False
    then have "length l = 0 \<or> length l = 1" by linarith
    with "1.prems" show ?thesis
      by (auto simp: length_Suc_conv merkle_loop.simps [of C l] merkle_loop.simps [of C m])
  next
    case True
    let ?l = "pair_inputs (pad_level l)" and ?m = "pair_inputs (pad_level m)"
    have sub: "set ?l \<subseteq> set (loop_inputs C l)" "set ?m \<subseteq> set (loop_inputs C m)"
      "set (loop_inputs C (map (sha256 C) ?l)) \<subseteq> set (loop_inputs C l)"
      "set (loop_inputs C (map (sha256 C) ?m)) \<subseteq> set (loop_inputs C m)"
      using True "1.prems"(1)
      by (auto simp: loop_inputs.simps [of C l] loop_inputs.simps [of C m] pair_level_inputs)
    have lens: "length (pad_level l) = length (pad_level m)"
      using "1.prems"(1) by (simp add: length_pad_level)
    have "pair_level C (pad_level l) = pair_level C (pad_level m)"
    proof (rule "1.IH" [OF True])
      show "length (pair_level C (pad_level l)) = length (pair_level C (pad_level m))" using lens by simp
      show "hd (merkle_loop C (pair_level C (pad_level l))) = hd (merkle_loop C (pair_level C (pad_level m)))"
        using "1.prems"(1,5) True by (simp add: merkle_loop.simps [of C l] merkle_loop.simps [of C m])
      show "inj_on (sha256 C) (set (loop_inputs C (pair_level C (pad_level l)))
              \<union> set (loop_inputs C (pair_level C (pad_level m))))"
        by (rule inj_on_subset [OF "1.prems"(4)]) (use sub in \<open>auto simp: pair_level_inputs\<close>)
    qed (use "1.prems"(2) in \<open>auto simp: pair_level_inputs\<close>)
    then have "map (sha256 C) ?l = map (sha256 C) ?m" by (simp add: pair_level_inputs)
    moreover have "inj_on (sha256 C) (set ?l \<union> set ?m)"
      by (rule inj_on_subset [OF "1.prems"(4)]) (use sub in auto)
    ultimately have "?l = ?m" by (rule map_inj_on)
    then have "pad_level l = pad_level m"
      using pair_inputs_inj [OF lens] "1.prems"(3) by (simp add: set_pad_level)
    then show ?thesis using "1.prems"(1) by (simp add: pad_level_inj)
  qed
qed

lemma merkle_root_binding:
  assumes "merkle_root C xs = merkle_root C ys" "length xs = length ys" "digest_length C"
    and free: "collision_free C (set (merkle_inputs C xs) \<union> set (merkle_inputs C ys))"
  shows "xs = ys"
proof (cases "xs = []")
  case False
  with assms(2) have ne: "xs \<noteq> []" "ys \<noteq> []" by auto
  let ?hx = "map (hash_leaf C) xs" and ?hy = "map (hash_leaf C) ys"
  have inj: "inj_on (sha256 C) (set (merkle_inputs C xs) \<union> set (merkle_inputs C ys))"
    using free by (simp add: collision_free_def)
  have "?hx = ?hy"
  proof (rule merkle_loop_inj)
    show "inj_on (sha256 C) (set (loop_inputs C ?hx) \<union> set (loop_inputs C ?hy))"
      by (rule inj_on_subset [OF inj]) (use ne in \<open>auto simp: merkle_inputs_def\<close>)
  qed (use assms(1-3) ne in \<open>auto simp: merkle_root_def digest_length_def hash_leaf_def\<close>)
  then have "map (sha256 C) (map ((#) LEAF_PREFIX) xs) = map (sha256 C) (map ((#) LEAF_PREFIX) ys)"
    by (simp add: hash_leaf_def [abs_def] comp_def)
  then have "map ((#) LEAF_PREFIX) xs = map ((#) LEAF_PREFIX) ys"
    by (rule map_inj_on) (rule inj_on_subset [OF inj], use ne in \<open>auto simp: merkle_inputs_def\<close>)
  then show ?thesis by (simp add: inj_map_eq_map)
qed (use assms(2) in simp)

lemma merkle_root_duplicated_last:
  assumes "odd (length xs)" "length xs > 1"
  shows "merkle_root C (xs @ [last xs]) = merkle_root C xs"
proof -
  let ?h = "map (hash_leaf C)"
  have ne: "xs \<noteq> []" using assms by auto
  have pad: "pad_level (?h (xs @ [last xs])) = pad_level (?h xs)"
    using assms ne by (simp add: pad_level_def last_map odd_iff_mod_2_eq_one flip: One_nat_def)
  have "merkle_loop C (?h (xs @ [last xs])) = merkle_loop C (?h xs)"
    using assms pad ne merkle_loop.simps [of C "?h (xs @ [last xs])"] merkle_loop.simps [of C "?h xs"]
    by (simp del: map_append)
  then show ?thesis using ne by (simp add: merkle_root_def)
qed

lemma proof_loop_length:
  "level \<noteq> [] \<Longrightarrow> length level \<le> 2 ^ length (proof_loop C level i) \<and>
     2 ^ length (proof_loop C level i) < 2 * length level"
proof (induction C level i rule: proof_loop.induct)
  case (1 C level idx)
  show ?case
  proof (cases "length level > 1")
    case True
    let ?l = "pair_level C (pad_level level)" and ?n = "length level"
    have len: "length ?l = (?n + 1) div 2" by (simp add: length_pad_level)
    then have "?l \<noteq> []" using True by fastforce
    from "1.IH" [OF True refl refl this]
    have "length ?l \<le> 2 ^ length (proof_loop C ?l (idx div 2))"
      "2 ^ length (proof_loop C ?l (idx div 2)) < 2 * length ?l" by auto
    moreover have "length (proof_loop C level idx) = Suc (length (proof_loop C ?l (idx div 2)))"
      using True by (simp add: proof_loop.simps [of C level idx] Let_def)
    moreover have "(2::nat) ^ d \<noteq> ?n" if "odd ?n" for d
      using that True by (cases d) (auto, metis dvd_triv_left)
    moreover have "(n + 1) div 2 \<le> m \<Longrightarrow> m < 2 * ((n + 1) div 2) \<Longrightarrow> (odd n \<Longrightarrow> m \<noteq> n) \<Longrightarrow>
        n \<le> 2 * m \<and> 2 * m < 2 * n" for n m :: nat
      by presburger
    ultimately show ?thesis unfolding len by simp
  qed (use 1 in \<open>cases level; simp add: proof_loop.simps\<close>)
qed


section \<open>Properties\<close>

text \<open>Inclusion proofs are complete. For an index in range \<open>merkle_proof\<close> returns a proof
  that \<open>verify_proof\<close> accepts for that leaf and the root of the tree; for any other index,
  negative ones included, it raises \<open>IndexError\<close>.\<close>

theorem merkle_proof_complete:
  "case merkle_proof C leaves i of
     Inl e \<Rightarrow> e = IndexError \<and> (i < 0 \<or> int (length leaves) \<le> i)
   | Inr pr \<Rightarrow> 0 \<le> i \<and> i < int (length leaves) \<and> verify_proof C (leaves ! nat i) pr (merkle_root C leaves)"
  using proof_verifies [of C leaves i]
  by (cases "merkle_proof C leaves i") (auto simp: merkle_proof_def split: if_splits)

text \<open>C27: inclusion proofs are sound. Whatever proof a verifier is handed, if it leads from a
  leaf to the root then the leaf is one of the leaves of the tree, provided SHA-256 has no
  collision among the strings the tree and the verification hash.\<close>

theorem merkle_proof_sound:
  assumes "verify_proof C leaf pr (merkle_root C leaves)" "digest_length C"
    and "collision_free C (set (merkle_inputs C leaves @ verify_inputs C leaf pr))"
  shows "leaf \<in> set leaves"
  using proof_sound [OF assms(1,2)] assms(3) by simp

theorem merkle_proof_sound_witness:
  "''b'' \<in> set [''a'', ''b'', ''c'']"
proof (rule merkle_proof_sound)
  let ?C = padded_crypto and ?ls = "[''a'', ''b'', ''c'']"
  let ?pr = "proof_loop ?C (map (hash_leaf ?C) ?ls) 1"
  show "verify_proof ?C ''b'' ?pr (merkle_root ?C ?ls)" by code_simp
  show "digest_length ?C" by (rule padded_crypto_digest_length)
  show "collision_free ?C (set (merkle_inputs ?C ?ls @ verify_inputs ?C ''b'' ?pr))"
    unfolding collision_free_set_code by code_simp
qed

text \<open>The root is tamper evident. Two different leaf sequences of the same length have
  different roots, provided SHA-256 has no collision among the strings they hash.\<close>

theorem merkle_root_tamper_evident:
  assumes "xs \<noteq> ys" "length xs = length ys" "digest_length C"
    and "collision_free C (set (merkle_inputs C xs @ merkle_inputs C ys))"
  shows "merkle_root C xs \<noteq> merkle_root C ys"
  using merkle_root_binding [of C xs ys] assms by auto

theorem merkle_root_tamper_evident_witness:
  "merkle_root padded_crypto [''a'', ''b'', ''c''] \<noteq> merkle_root padded_crypto [''x'', ''b'', ''c'']"
proof (rule merkle_root_tamper_evident)
  show "collision_free padded_crypto
      (set (merkle_inputs padded_crypto [''a'', ''b'', ''c''] @ merkle_inputs padded_crypto [''x'', ''b'', ''c'']))"
    unfolding collision_free_set_code by code_simp
qed (simp_all add: padded_crypto_digest_length)

text \<open>The number of leaves is not protected. Appending a copy of the last leaf to a tree
  with an odd number of leaves, at least three, gives a different sequence with the same root.\<close>

theorem merkle_root_ignores_repeated_last:
  assumes "odd (length xs)" "length xs > 1"
  shows "merkle_root C (xs @ [last xs]) = merkle_root C xs \<and> xs @ [last xs] \<noteq> xs"
  using merkle_root_duplicated_last [OF assms] by simp

theorem merkle_root_ignores_repeated_last_witness:
  "merkle_root padded_crypto ([''a'', ''b'', ''c''] @ [last [''a'', ''b'', ''c'']])
     = merkle_root padded_crypto [''a'', ''b'', ''c'']"
  using merkle_root_ignores_repeated_last [of "[''a'', ''b'', ''c'']" padded_crypto] by simp

text \<open>Proofs are short. The proof of a tree with \<open>n\<close> leaves has the least number of
  steps \<open>d\<close> with \<open>n \<le> 2 ^ d\<close>.\<close>

theorem merkle_proof_length:
  assumes "merkle_proof C leaves i = Inr pr"
  shows "length leaves \<le> 2 ^ length pr \<and> 2 ^ length pr < 2 * length leaves"
proof -
  have "pr = proof_loop C (map (hash_leaf C) leaves) (nat i)" "leaves \<noteq> []"
    using assms by (auto simp: merkle_proof_def split: if_splits)
  then show ?thesis using proof_loop_length [of "map (hash_leaf C) leaves" C "nat i"] by simp
qed

theorem merkle_proof_length_witness:
  "\<exists>pr. merkle_proof padded_crypto [''a'', ''b'', ''c''] 2 = Inr pr \<and> length [''a'', ''b'', ''c''] \<le> 2 ^ length pr"
  using merkle_proof_length [of padded_crypto "[''a'', ''b'', ''c'']" 2]
  by (simp add: merkle_proof_def)

end
