(* ===== verification/Validator_Set.thy ===== *)
theory Validator_Set
  imports Crypto "HOL-Library.Multiset"
begin

text \<open>
  \<open>consensus/validator_set.py\<close>: the ordered validator set, its quorum arithmetic and the
  round-robin proposer. The interface consensus relies on is the locale \<open>quorum_system\<close>:
  two quorums share more members than can be faulty.
\<close>

section \<open>Definitions\<close>

record validator_set =
  vs_validators :: "public_key list"

fun unique_by_hex :: "(string, public_key) dict \<Rightarrow> public_key list \<Rightarrow> (string, public_key) dict" where
  \<comment> \<open>\<open>{v.to_hex(): v for v in validators}\<close>\<close>
  "unique_by_hex d [] = d"
| "unique_by_hex d (v # vs) = unique_by_hex (dict_set (public_to_hex v) v d) vs"

definition make_validator_set :: "public_key list \<Rightarrow> validator_set result" where
  \<comment> \<open>\<open>ValidatorSet.__init__\<close>\<close>
  "make_validator_set validators =
     (if validators = [] then Inl ValueError
      else let unique = unique_by_hex [] validators in
        if length unique \<noteq> length validators then Inl ValueError
        else Inr \<lparr>vs_validators = map (\<lambda>h. the (dict_get unique h)) (sort (dict_keys unique))\<rparr>)"

definition vs_size :: "validator_set \<Rightarrow> int" where
  "vs_size S = int (length (vs_validators S))"

definition max_faulty :: "validator_set \<Rightarrow> int" where
  "max_faulty S = (vs_size S - 1) div 3"

definition quorum :: "validator_set \<Rightarrow> int" where
  "quorum S = vs_size S - max_faulty S"

definition contains :: "validator_set \<Rightarrow> public_key \<Rightarrow> bool" where
  "contains S key = list_ex (public_eq key) (vs_validators S)"

definition proposer :: "validator_set \<Rightarrow> int \<Rightarrow> int \<Rightarrow> public_key" where
  "proposer S height rnd = vs_validators S ! nat ((height + rnd) mod vs_size S)"

fun index_from :: "int \<Rightarrow> public_key \<Rightarrow> public_key list \<Rightarrow> int result" where
  "index_from i key [] = Inl KeyError"
| "index_from i key (v # vs) = (if public_eq v key then Inr i else index_from (i + 1) key vs)"

definition index_of :: "validator_set \<Rightarrow> public_key \<Rightarrow> int result" where
  "index_of S key = index_from 0 key (vs_validators S)"

text \<open>What construction guarantees, and the members as a set.\<close>

definition vs_ok :: "validator_set \<Rightarrow> bool" where
  "vs_ok S \<longleftrightarrow> vs_validators S \<noteq> [] \<and> distinct (vs_validators S) \<and>
     sorted (map public_to_hex (vs_validators S))"

definition members :: "validator_set \<Rightarrow> public_key set" where
  "members S = set (vs_validators S)"


section \<open>Construction\<close>

lemma dict_get_unique:
  "dict_get (unique_by_hex d vs) h =
     (case find (\<lambda>v. public_to_hex v = h) (rev vs) of None \<Rightarrow> dict_get d h | Some v \<Rightarrow> Some v)"
proof (induction d vs rule: unique_by_hex.induct)
  case (2 d v vs)
  have "find P (xs @ [y]) = (case find P xs of None \<Rightarrow> if P y then Some y else None | Some x \<Rightarrow> Some x)"
    for P and xs :: "public_key list" and y
    by (induction xs) auto
  with 2 show ?case by (auto split: option.splits)
qed simp

lemma unique_by_hex_new:
  "distinct vs \<Longrightarrow> fst ` set d \<inter> public_to_hex ` set vs = {} \<Longrightarrow>
     unique_by_hex d vs = d @ map (\<lambda>v. (public_to_hex v, v)) vs"
proof (induction d vs rule: unique_by_hex.induct)
  case (2 d v vs)
  have "dict_get d (public_to_hex v) = None"
    using "2.prems"(2) by (auto simp: map_of_eq_None_iff)
  then have "dict_set (public_to_hex v) v d = d @ [(public_to_hex v, v)]"
    by (rule dict_set_cancel)
  with 2 show ?case by (auto simp: image_iff)
qed simp

lemma unique_by_hex_keys:
  "fst ` set (unique_by_hex d vs) = fst ` set d \<union> public_to_hex ` set vs"
  by (induction d vs rule: unique_by_hex.induct) auto

lemma dict_ok_unique: "dict_ok d \<Longrightarrow> dict_ok (unique_by_hex d vs)"
  by (induction d vs rule: unique_by_hex.induct) (auto simp: dict_ok_set)

lemma inj_public_to_hex: "inj_on public_to_hex A"
  by (simp add: inj_on_def)

lemma length_unique_iff: "length (unique_by_hex [] vs) = length vs \<longleftrightarrow> distinct vs"
proof -
  have "length (unique_by_hex [] vs) = card (fst ` set (unique_by_hex [] vs))"
    using length_distinct_fst dict_ok_unique [of "[]" vs] by force
  also have "\<dots> = card (set vs)" by (simp add: unique_by_hex_keys card_image inj_public_to_hex)
  finally show ?thesis by (metis card_distinct distinct_card)
qed

theorem make_validator_set_eq:
  "make_validator_set vs =
     (if vs = [] \<or> \<not> distinct vs then Inl ValueError
      else Inr \<lparr>vs_validators = sort_key public_to_hex vs\<rparr>)"
proof (cases "vs = [] \<or> \<not> distinct vs")
  case False
  then have d: "distinct vs" and ne: "vs \<noteq> []" by auto
  let ?u = "map (\<lambda>v. (public_to_hex v, v)) vs"
  have u: "unique_by_hex [] vs = ?u" using unique_by_hex_new [of vs "[]"] d by simp
  have look: "the (dict_get ?u (public_to_hex v)) = v" if "v \<in> set vs" for v
  proof -
    have "distinct (map fst ?u)" using d by (simp add: comp_def distinct_map inj_public_to_hex)
    then have "dict_get ?u (public_to_hex v) = Some v"
      by (rule map_of_is_SomeI) (use that in auto)
    then show ?thesis by simp
  qed
  have srt: "sort (map public_to_hex vs) = map public_to_hex (sort_key public_to_hex vs)"
  proof (rule map_sorted_distinct_set_unique [where f = "\<lambda>x. x"])
    show "distinct (map (\<lambda>x. x) (map public_to_hex (sort_key public_to_hex vs)))"
      using d by (simp add: distinct_map inj_public_to_hex)
  qed (use d in \<open>auto simp: distinct_map inj_public_to_hex\<close>)
  have "map (\<lambda>h. the (dict_get ?u h)) (sort (dict_keys ?u)) = sort_key public_to_hex vs"
    by (simp add: dict_keys_def comp_def srt) (rule map_idI, simp add: look)
  then show ?thesis using u ne d by (simp add: make_validator_set_def)
qed (auto simp: make_validator_set_def length_unique_iff Let_def)

lemma make_validator_set_ok: "make_validator_set vs = Inr S \<Longrightarrow> vs_ok S \<and> members S = set vs"
  by (auto simp: make_validator_set_eq vs_ok_def members_def split: if_splits)
    (metis length_0_conv length_sort)

lemma make_validator_set_perm:
  "set vs = set ws \<Longrightarrow> distinct vs \<Longrightarrow> distinct ws \<Longrightarrow> make_validator_set vs = make_validator_set ws"
proof -
  assume a: "set vs = set ws" "distinct vs" "distinct ws"
  have "sort_key public_to_hex vs = sort_key public_to_hex ws"
    by (rule map_sorted_distinct_set_unique [where f = public_to_hex])
      (use a in \<open>auto simp: distinct_map inj_public_to_hex\<close>)
  then show ?thesis using a by (auto simp: make_validator_set_eq)
qed

lemma make_validator_set_members:
  "vs_ok S \<Longrightarrow> distinct vs \<Longrightarrow> set vs = members S \<Longrightarrow> make_validator_set vs = Inr S"
proof -
  assume a: "vs_ok S" "distinct vs" "set vs = members S"
  have "sort_key public_to_hex vs = vs_validators S"
    by (rule map_sorted_distinct_set_unique [where f = public_to_hex])
      (use a in \<open>auto simp: distinct_map inj_public_to_hex vs_ok_def members_def\<close>)
  moreover have "vs \<noteq> []" using a by (auto simp: vs_ok_def members_def)
  ultimately show ?thesis using a(2) by (simp add: make_validator_set_eq)
qed


section \<open>Membership and quorum arithmetic\<close>

lemma contains_iff: "contains S k \<longleftrightarrow> k \<in> members S"
  by (auto simp: contains_def members_def list_ex_iff)

lemma vs_size_card: "vs_ok S \<Longrightarrow> vs_size S = int (card (members S))"
  by (simp add: vs_size_def members_def vs_ok_def distinct_card)

lemma vs_size_pos: "vs_ok S \<Longrightarrow> 1 \<le> vs_size S"
  by (cases "vs_validators S") (auto simp: vs_ok_def vs_size_def)

lemma finite_members [simp]: "finite (members S)"
  by (simp add: members_def)

lemma quorum_arith:
  assumes "vs_ok S"
  shows "0 \<le> max_faulty S" "3 * max_faulty S + 1 \<le> vs_size S" "vs_size S \<le> 3 * max_faulty S + 3"
    "max_faulty S < quorum S" "quorum S \<le> vs_size S" "max_faulty S < 2 * quorum S - vs_size S"
proof -
  define n where "n = vs_size S"
  have n: "1 \<le> n" using vs_size_pos [OF assms] by (simp add: n_def)
  define f where "f = (n - 1) div 3"
  have "0 \<le> f" "3 * f + 1 \<le> n" "n \<le> 3 * f + 3" using n by (auto simp: f_def)
  then show "0 \<le> max_faulty S" "3 * max_faulty S + 1 \<le> vs_size S" "vs_size S \<le> 3 * max_faulty S + 3"
    "max_faulty S < quorum S" "quorum S \<le> vs_size S" "max_faulty S < 2 * quorum S - vs_size S"
    by (auto simp: max_faulty_def quorum_def n_def f_def)
qed

text \<open>
  The contract between the validator set and consensus: any two quorums overlap in more
  members than the protocol allows to be faulty.
\<close>

locale quorum_system =
  fixes wf :: "'s \<Rightarrow> bool" and mem :: "'s \<Rightarrow> 'k set" and qsize :: "'s \<Rightarrow> int" and faults :: "'s \<Rightarrow> int"
  assumes finite_mem: "finite (mem S)"
    and faults_below_quorum: "wf S \<Longrightarrow> faults S < qsize S"
    and quorums_overlap: "wf S \<Longrightarrow> Q \<subseteq> mem S \<Longrightarrow> Q' \<subseteq> mem S \<Longrightarrow>
      qsize S \<le> int (card Q) \<Longrightarrow> qsize S \<le> int (card Q') \<Longrightarrow> faults S < int (card (Q \<inter> Q'))"
begin

lemma not_all_faulty:
  assumes "faults S < int (card Q)" "int (card Byz) \<le> faults S" "finite Byz"
  shows "\<exists>k \<in> Q. k \<notin> Byz"
proof (rule ccontr)
  assume "\<not> ?thesis"
  then have "Q \<subseteq> Byz" by blast
  then have "card Q \<le> card Byz" using assms(3) by (rule card_mono [rotated])
  with assms show False by simp
qed

lemma honest_in_quorum:
  assumes "wf S" "qsize S \<le> int (card Q)" "int (card Byz) \<le> faults S" "finite Byz"
  shows "\<exists>k \<in> Q. k \<notin> Byz"
  using not_all_faulty [of S Q Byz] faults_below_quorum [OF assms(1)] assms by simp

lemma honest_in_both:
  assumes "wf S" "Q \<subseteq> mem S" "Q' \<subseteq> mem S" "qsize S \<le> int (card Q)" "qsize S \<le> int (card Q')"
    and "int (card Byz) \<le> faults S" "finite Byz"
  shows "\<exists>k \<in> Q \<inter> Q'. k \<notin> Byz"
  using not_all_faulty [of S "Q \<inter> Q'" Byz] quorums_overlap [OF assms(1-5)] assms(6,7) by simp

end

interpretation vq: quorum_system vs_ok members quorum max_faulty
proof
  fix S :: validator_set and Q Q' :: "public_key set"
  show "finite (members S)" by simp
  show "max_faulty S < quorum S" if "vs_ok S" using quorum_arith [OF that] by simp
  assume S: "vs_ok S" "Q \<subseteq> members S" "Q' \<subseteq> members S"
    "quorum S \<le> int (card Q)" "quorum S \<le> int (card Q')"
  have fin: "finite Q" "finite Q'" using S(2,3) finite_members finite_subset by blast+
  have "card (Q \<union> Q') \<le> card (members S)" using S(2,3) by (intro card_mono) auto
  moreover have "card Q + card Q' = card (Q \<union> Q') + card (Q \<inter> Q')"
    using card_Un_Int [OF fin] .
  ultimately show "max_faulty S < int (card (Q \<inter> Q'))"
    using quorum_arith(6) [OF S(1)] vs_size_card [OF S(1)] S(4,5) by linarith
qed


section \<open>The proposer\<close>

lemma proposer_index_bound:
  assumes "vs_ok S"
  shows "nat ((h + r) mod vs_size S) < length (vs_validators S)"
proof -
  have "0 < vs_size S" using vs_size_pos [OF assms] by simp
  then have "0 \<le> (h + r) mod vs_size S" "(h + r) mod vs_size S < vs_size S" by auto
  then show ?thesis by (simp add: vs_size_def nat_less_iff)
qed

lemma proposer_member: "vs_ok S \<Longrightarrow> proposer S h r \<in> members S"
  using proposer_index_bound by (simp add: proposer_def members_def)

lemma proposer_rotation:
  assumes "vs_ok S" "k \<in> members S"
  shows "\<exists>!r. 0 \<le> r \<and> r < vs_size S \<and> proposer S h r = k"
proof -
  let ?n = "vs_size S" and ?vs = "vs_validators S"
  have n: "0 < ?n" using vs_size_pos [OF assms(1)] by simp
  obtain i where i: "i < length ?vs" "?vs ! i = k"
    using assms(2) by (auto simp: members_def in_set_conv_nth)
  define r where "r = (int i - h) mod ?n"
  have "(h + r) mod ?n = int i"
    using i(1) n by (simp add: r_def mod_simps) (simp add: vs_size_def)
  then have r: "0 \<le> r \<and> r < ?n \<and> proposer S h r = k"
    using n i by (simp add: r_def proposer_def)
  moreover have "q = r" if q: "0 \<le> q \<and> q < ?n \<and> proposer S h q = k" for q
  proof -
    have "nat ((h + q) mod ?n) = nat ((h + r) mod ?n)"
      using q r proposer_index_bound [OF assms(1), of h q] proposer_index_bound [OF assms(1), of h r]
        assms(1) nth_eq_iff_index_eq [of ?vs]
      unfolding proposer_def vs_ok_def by metis
    then have "(h + q) mod ?n = (h + r) mod ?n" using n by (simp add: nat_eq_iff)
    then have "q mod ?n = r mod ?n"
      by (metis add_diff_cancel_left' mod_diff_left_eq)
    then show ?thesis using q r by simp
  qed
  ultimately show ?thesis by blast
qed

lemma index_from_Inr: "index_from i k vs = Inr j \<Longrightarrow> i \<le> j \<and> nat (j - i) < length vs \<and> vs ! nat (j - i) = k"
proof (induction i k vs rule: index_from.induct)
  case (2 i key v vs)
  show ?case
  proof (cases "v = key")
    case False
    with 2 have "i + 1 \<le> j" "nat (j - (i + 1)) < length vs" "vs ! nat (j - (i + 1)) = key" by auto
    moreover have "nat (j - i) = Suc (nat (j - (i + 1)))" using \<open>i + 1 \<le> j\<close> by simp
    ultimately show ?thesis by simp
  qed (use 2 in auto)
qed simp

lemma index_from_member: "k \<in> set vs \<Longrightarrow> \<exists>j. index_from i k vs = Inr j"
  by (induction i k vs rule: index_from.induct) auto

section \<open>Properties\<close>

text \<open>C29: the constructor of a validator set rejects the empty list and duplicates, and
  otherwise gives the same set for every order of its argument, with exactly those members,
  listed without repetition in the order of their hexadecimal text.\<close>

theorem validator_set_construction:
  "case make_validator_set vs of
     Inl e \<Rightarrow> e = ValueError \<and> (vs = [] \<or> \<not> distinct vs)
   | Inr S \<Rightarrow> vs \<noteq> [] \<and> distinct vs \<and> vs_ok S \<and> members S = set vs \<and> vs_size S = int (length vs) \<and>
       (\<forall>ws. mset ws = mset vs \<longrightarrow> make_validator_set ws = Inr S)"
proof (cases "make_validator_set vs")
  case (Inr S)
  then have d: "vs \<noteq> []" "distinct vs" by (auto simp: make_validator_set_eq split: if_splits)
  have "make_validator_set ws = Inr S" if "mset ws = mset vs" for ws
    using make_validator_set_perm [of ws vs] that d Inr mset_eq_setD [OF that]
      mset_eq_imp_distinct_iff [OF that] by simp
  then show ?thesis
    using Inr d make_validator_set_ok [OF Inr] vs_size_card [of S] by (simp add: distinct_card)
qed (auto simp: make_validator_set_eq split: if_splits)

theorem validator_set_construction_witness:
  "make_validator_set [PublicKey ''b'', PublicKey ''a''] = make_validator_set [PublicKey ''a'', PublicKey ''b'']"
proof -
  obtain S where "make_validator_set [PublicKey ''a'', PublicKey ''b''] = Inr S"
    by (simp add: make_validator_set_eq)
  then show ?thesis
    using validator_set_construction [of "[PublicKey ''a'', PublicKey ''b'']"] by (simp add: add_mset_commute)
qed

text \<open>C28: two quorums of a validator set share a validator that is not faulty, whenever at
  most \<open>max_faulty\<close> validators are, and that bound is the largest \<open>f\<close> with \<open>3 f + 1\<close>
  at most the size of the set.\<close>

theorem quorums_share_honest:
  assumes "make_validator_set vs = Inr S" "Q \<subseteq> members S" "Q' \<subseteq> members S"
    and "quorum S \<le> int (card Q)" "quorum S \<le> int (card Q')"
    and "finite Byz" "int (card Byz) \<le> max_faulty S"
  shows "(\<exists>k \<in> Q \<inter> Q'. k \<notin> Byz) \<and> 3 * max_faulty S + 1 \<le> vs_size S \<and> vs_size S < 3 * (max_faulty S + 1) + 1"
proof -
  have ok: "vs_ok S" using make_validator_set_ok [OF assms(1)] by simp
  show ?thesis using vq.honest_in_both [OF ok assms(2-5,7,6)] quorum_arith [OF ok] by simp
qed

definition four_keys :: "public_key list" where
  "four_keys = map PublicKey [''a'', ''b'', ''c'', ''d'']"

theorem quorums_share_honest_witness:
  "\<exists>k \<in> {PublicKey ''a'', PublicKey ''b'', PublicKey ''c''} \<inter> {PublicKey ''b'', PublicKey ''c'', PublicKey ''d''}.
     k \<notin> {PublicKey ''b''}"
  using quorums_share_honest [of four_keys "\<lparr>vs_validators = four_keys\<rparr>"
      "{PublicKey ''a'', PublicKey ''b'', PublicKey ''c''}" "{PublicKey ''b'', PublicKey ''c'', PublicKey ''d''}"
      "{PublicKey ''b''}"]
  by (simp add: make_validator_set_eq four_keys_def members_def quorum_def max_faulty_def vs_size_def
      public_to_hex_def nibble_char_def hex_digits_def)

text \<open>The proposer rotation is fair. At every height, among any \<open>size\<close> consecutive
  rounds each validator proposes in exactly one.\<close>

theorem proposer_rotation_fair:
  assumes "make_validator_set vs = Inr S" "k \<in> set vs"
  shows "\<exists>!r. r0 \<le> r \<and> r < r0 + vs_size S \<and> proposer S h r = k"
proof -
  have ok: "vs_ok S" "k \<in> members S" using make_validator_set_ok [OF assms(1)] assms(2) by auto
  have shift: "proposer S (h + r0) q = proposer S h (r0 + q)" for q
    by (simp add: proposer_def algebra_simps)
  obtain q where q: "0 \<le> q \<and> q < vs_size S \<and> proposer S (h + r0) q = k"
    and uniq: "\<And>p. 0 \<le> p \<and> p < vs_size S \<and> proposer S (h + r0) p = k \<Longrightarrow> p = q"
    using proposer_rotation [OF ok, of "h + r0"] by blast
  show ?thesis
  proof (rule ex1I [of _ "r0 + q"])
    fix r assume "r0 \<le> r \<and> r < r0 + vs_size S \<and> proposer S h r = k"
    then show "r = r0 + q" using uniq [of "r - r0"] shift [of "r - r0"] by simp
  qed (use q shift [of q] in simp)
qed

theorem proposer_rotation_fair_witness:
  "\<exists>!r. 5 \<le> r \<and> r < 5 + vs_size \<lparr>vs_validators = four_keys\<rparr>
      \<and> proposer \<lparr>vs_validators = four_keys\<rparr> 7 r = PublicKey ''c''"
  by (rule proposer_rotation_fair [of four_keys])
    (simp_all add: make_validator_set_eq four_keys_def public_to_hex_def nibble_char_def hex_digits_def)

end
