(* ===== verification/Records.thy ===== *)
theory Records
  imports Crypto Validator_Set
begin

text \<open>
  \<open>domain/records.py\<close>: integrity records, their dictionary form, signing, verification and
  the two identities of a record (\<open>id\<close> of the signed record, \<open>content_key\<close> of the
  observation alone).
\<close>

section \<open>Definitions\<close>

datatype verdict = OK | TAMPERED | UNVERIFIED

fun verdict_value :: "verdict \<Rightarrow> string" where
  "verdict_value OK = ''OK''"
| "verdict_value TAMPERED = ''TAMPERED''"
| "verdict_value UNVERIFIED = ''UNVERIFIED''"

definition verdict_of :: "json \<Rightarrow> verdict result" where
  \<comment> \<open>\<open>Verdict(x)\<close>\<close>
  "verdict_of j =
     (if j = JStr ''OK'' then Inr OK else if j = JStr ''TAMPERED'' then Inr TAMPERED
      else if j = JStr ''UNVERIFIED'' then Inr UNVERIFIED else Inl ValueError)"

record integrity_record =
  entity_id :: string
  attribute :: string
  value_hash :: string
  source_broker :: string
  r_verdict :: verdict
  observed_at :: int
  observer :: string
  r_signature :: string

definition record_core :: "integrity_record \<Rightarrow> (string, json) dict" where
  "record_core r =
     [(''entity_id'', JStr (entity_id r)), (''attribute'', JStr (attribute r)),
      (''value_hash'', JStr (value_hash r)), (''source_broker'', JStr (source_broker r)),
      (''verdict'', JStr (verdict_value (r_verdict r))), (''observed_at'', JInt (observed_at r))]"

definition record_to_dict :: "integrity_record \<Rightarrow> json" where
  "record_to_dict r =
     JObj (record_core r @ [(''observer'', JStr (observer r)), (''signature'', JStr (r_signature r))])"

definition record_from_dict :: "json \<Rightarrow> integrity_record result" where
  "record_from_dict data =
     bindr (bindr (get_item data ''entity_id'') as_str) (\<lambda>eid.
     bindr (bindr (get_item data ''attribute'') as_str) (\<lambda>attr.
     bindr (bindr (get_item data ''value_hash'') as_str) (\<lambda>vh.
     bindr (bindr (get_item data ''source_broker'') as_str) (\<lambda>sb.
     bindr (bindr (get_item data ''verdict'') verdict_of) (\<lambda>v.
     bindr (bindr (get_item data ''observed_at'') py_int) (\<lambda>t.
     bindr (bindr (get_default data ''observer'' (JStr [])) as_str) (\<lambda>obs.
     bindr (bindr (get_default data ''signature'' (JStr [])) as_str) (\<lambda>sig.
       Inr \<lparr>entity_id = eid, attribute = attr, value_hash = vh, source_broker = sb, r_verdict = v,
            observed_at = t, observer = obs, r_signature = sig\<rparr>))))))))"

definition signing_bytes :: "integrity_record \<Rightarrow> bytes" where
  "signing_bytes r = canonical_bytes (JObj (record_core r))"

definition signed :: "crypto \<Rightarrow> integrity_record \<Rightarrow> private_key \<Rightarrow> integrity_record" where
  "signed C r k =
     r\<lparr>observer := public_to_hex (private_public C k),
       r_signature := hex_of_bytes (private_sign C k (signing_bytes r))\<rparr>"

definition record_verify :: "crypto \<Rightarrow> integrity_record \<Rightarrow> validator_set \<Rightarrow> bool result" where
  "record_verify C r allowed =
     (if observer r = [] \<or> r_signature r = [] then Inr False
      else case public_from_hex C (observer r) of
          Inl _ \<Rightarrow> Inr False
        | Inr key \<Rightarrow>
            if \<not> contains allowed key then Inr False
            else bindr (bytes_fromhex (r_signature r)) (\<lambda>sig.
                   Inr (public_verify C key sig (signing_bytes r))))"

definition record_canonical :: "integrity_record \<Rightarrow> bytes" where
  "record_canonical r = canonical_bytes (record_to_dict r)"

definition record_id :: "crypto \<Rightarrow> integrity_record \<Rightarrow> string" where
  "record_id C r = sha256_hex C (record_canonical r)"

definition content_key :: "crypto \<Rightarrow> integrity_record \<Rightarrow> string" where
  "content_key C r = sha256_hex C (signing_bytes r)"

definition hash_value :: "crypto \<Rightarrow> json \<Rightarrow> string" where
  "hash_value C value = sha256_hex C (canonical_bytes value)"


section \<open>Dictionary form\<close>

lemma verdict_of_value [simp]: "verdict_of (JStr (verdict_value v)) = Inr v"
  by (cases v) (simp_all add: verdict_of_def)

lemma verdict_value_inj [simp]: "verdict_value v = verdict_value w \<longleftrightarrow> v = w"
  by (cases v; cases w) simp_all

theorem record_from_dict_to_dict: "record_from_dict (record_to_dict r) = Inr r"
  by (simp add: record_from_dict_def record_to_dict_def record_core_def)

lemma record_core_ok [simp]: "dict_ok (record_core r)" "no_float (JObj (record_core r))"
  by (simp_all add: record_core_def dict_ok_def)

text \<open>The observation a record carries: everything but the observer and the signature.\<close>

definition same_observation :: "integrity_record \<Rightarrow> integrity_record \<Rightarrow> bool" where
  "same_observation r s \<longleftrightarrow> entity_id r = entity_id s \<and> attribute r = attribute s \<and>
     value_hash r = value_hash s \<and> source_broker r = source_broker s \<and>
     r_verdict r = r_verdict s \<and> observed_at r = observed_at s"

lemma record_core_eq_iff: "record_core r = record_core s \<longleftrightarrow> same_observation r s"
  by (auto simp: record_core_def same_observation_def)

lemma signing_bytes_eq_iff: "signing_bytes r = signing_bytes s \<longleftrightarrow> same_observation r s"
proof
  assume "signing_bytes r = signing_bytes s"
  then have "canonical_bytes (JObj (record_core r)) = canonical_bytes (JObj (record_core s))"
    by (simp add: signing_bytes_def)
  note f = canonical_obj_fieldD [OF this record_core_ok(1) record_core_ok(1)
      record_core_ok(2) record_core_ok(2)]
  show "same_observation r s"
    using f [of "''entity_id''"] f [of "''attribute''"] f [of "''value_hash''"]
      f [of "''source_broker''"] f [of "''verdict''"] f [of "''observed_at''"]
    by (simp add: record_core_def same_observation_def)
qed (simp add: signing_bytes_def flip: record_core_eq_iff)

lemma record_canonical_eq_iff: "record_canonical r = record_canonical s \<longleftrightarrow> r = s"
proof
  let ?d = "\<lambda>r. record_core r @ [(''observer'', JStr (observer r)), (''signature'', JStr (r_signature r))]"
  have ok: "dict_ok (?d r)" "no_float (JObj (?d r))" for r
    by (simp_all add: record_core_def dict_ok_def)
  assume "record_canonical r = record_canonical s"
  then have "canonical_bytes (JObj (?d r)) = canonical_bytes (JObj (?d s))"
    by (simp add: record_canonical_def record_to_dict_def)
  note f = canonical_obj_fieldD [OF this ok(1) ok(1) ok(2) ok(2)]
  show "r = s"
    using f [of "''entity_id''"] f [of "''attribute''"] f [of "''value_hash''"]
      f [of "''source_broker''"] f [of "''verdict''"] f [of "''observed_at''"]
      f [of "''observer''"] f [of "''signature''"]
    by (simp add: record_core_def)
qed simp


section \<open>Signing and verification\<close>

lemma signing_bytes_signed [simp]: "signing_bytes (signed C r k) = signing_bytes r"
  by (simp add: signed_def signing_bytes_def record_core_def)

lemma content_key_signed [simp]: "content_key C (signed C r k) = content_key C r"
  by (simp add: content_key_def)

lemma record_verify_signed:
  assumes "ed25519_correct C" "private_ok k" "contains S (private_public C k)"
  shows "record_verify C (signed C r k) S = Inr True"
proof -
  have obs: "observer (signed C r k) = public_to_hex (private_public C k)"
    and sig: "r_signature (signed C r k) = hex_of_bytes (private_sign C k (signing_bytes r))"
    by (simp_all add: signed_def)
  show ?thesis
    unfolding record_verify_def obs sig
    using assms by (simp add: private_public_from_hex public_verify_sign private_nonempty)
qed

lemma record_verify_True_iff:
  "record_verify C r S = Inr True \<longleftrightarrow>
     observer r \<noteq> [] \<and> r_signature r \<noteq> [] \<and>
     (\<exists>key sig. public_from_hex C (observer r) = Inr key \<and> contains S key \<and>
        bytes_fromhex (r_signature r) = Inr sig \<and> public_verify C key sig (signing_bytes r))"
  by (auto simp: record_verify_def bindr_Inr_iff split: sum.splits if_splits)

lemma record_verify_raises_iff:
  "(\<exists>e. record_verify C r S = Inl e) \<longleftrightarrow>
     observer r \<noteq> [] \<and> r_signature r \<noteq> [] \<and>
     (\<exists>key. public_from_hex C (observer r) = Inr key \<and> contains S key) \<and>
     (\<exists>e. bytes_fromhex (r_signature r) = Inl e)"
  by (cases "bytes_fromhex (r_signature r)") (auto simp: record_verify_def split: sum.splits if_splits)

section \<open>Properties\<close>

text \<open>A record that a validator signed with \<open>signed\<close> is accepted by \<open>verify\<close>, also
  after it was sent as a dictionary and parsed again.\<close>

theorem record_verify_signed_roundtrip:
  assumes "ed25519_correct C" "private_ok k" "contains S (private_public C k)"
  shows "bindr (record_from_dict (record_to_dict (signed C r k))) (\<lambda>s. record_verify C s S) = Inr True"
  using record_verify_signed [OF assms] by (simp add: record_from_dict_to_dict)

definition demo_record :: integrity_record where
  "demo_record = \<lparr>entity_id = ''urn:s1'', attribute = ''temperature'', value_hash = ''ab'',
     source_broker = ''orion'', r_verdict = OK, observed_at = 17, observer = [], r_signature = []\<rparr>"

theorem record_verify_signed_roundtrip_witness:
  "bindr (record_from_dict (record_to_dict (signed demo_crypto demo_record (demo_key (CHR ''a'')))))
     (\<lambda>s. record_verify demo_crypto s \<lparr>vs_validators = [private_public demo_crypto (demo_key (CHR ''a''))]\<rparr>) = Inr True"
  by (rule record_verify_signed_roundtrip)
    (simp_all add: demo_crypto_correct demo_key_ok contains_def)

text \<open>\<open>verify\<close> does not always answer. It raises \<open>ValueError\<close>, instead of returning
  \<open>False\<close>, exactly for a record that names a validator as observer and whose signature text
  is not hexadecimal.\<close>

theorem record_verify_raises:
  "(\<exists>e. record_verify C r S = Inl e) \<longleftrightarrow>
     observer r \<noteq> [] \<and> r_signature r \<noteq> [] \<and>
     (\<exists>key. public_from_hex C (observer r) = Inr key \<and> contains S key) \<and>
     (\<exists>e. bytes_fromhex (r_signature r) = Inl e)"
  by (rule record_verify_raises_iff)

text \<open>The two identities of a record. Provided SHA-256 does not collide on the encodings,
  \<open>id\<close> identifies the whole signed record, and \<open>content_key\<close> the observation, which is
  also what a signature covers: it ignores who signed it.\<close>

theorem record_identities:
  assumes "collision_free C {record_canonical r, record_canonical s, signing_bytes r, signing_bytes s}"
  shows "(record_id C r = record_id C s \<longleftrightarrow> r = s) \<and> (content_key C r = content_key C s \<longleftrightarrow> same_observation r s)"
proof -
  have inj: "x = y" if "sha256_hex C x = sha256_hex C y"
    "x \<in> {record_canonical r, record_canonical s, signing_bytes r, signing_bytes s}"
    "y \<in> {record_canonical r, record_canonical s, signing_bytes r, signing_bytes s}" for x y
    using assms that unfolding collision_free_def sha256_hex_def hex_of_bytes_inj by (rule inj_onD)
  show ?thesis
    using inj [of "record_canonical r" "record_canonical s"] inj [of "signing_bytes r" "signing_bytes s"]
    by (auto simp: record_id_def content_key_def record_canonical_eq_iff signing_bytes_eq_iff)
      (simp add: signing_bytes_eq_iff [symmetric])
qed

theorem record_identities_witness:
  "content_key demo_crypto demo_record = content_key demo_crypto (demo_record\<lparr>observer := ''aa''\<rparr>) \<and>
   record_id demo_crypto demo_record \<noteq> record_id demo_crypto (demo_record\<lparr>observer := ''aa''\<rparr>)"
  using record_identities [OF demo_crypto_collision_free, of demo_record "demo_record\<lparr>observer := ''aa''\<rparr>"]
  by (simp add: same_observation_def demo_record_def)

end
