(* ===== verification/Membership.thy ===== *)
theory Membership
  imports Validator_Set
begin

text \<open>
  \<open>domain/membership.py\<close>: on-chain validator-set changes. The abstract specification is an
  operation on the set of keys; for changes that spell their key canonically the code
  implements it, and deriving the set from the whole chain gives what applying the blocks
  one by one gives (locale \<open>replay\<close>). Without canonical spelling both can fail.
\<close>

section \<open>Definitions\<close>

datatype change_action = ADD | REMOVE

record validator_change =
  vc_action :: change_action
  vc_validator :: string

fun action_value :: "change_action \<Rightarrow> string" where
  "action_value ADD = ''ADD''"
| "action_value REMOVE = ''REMOVE''"

definition action_of :: "json \<Rightarrow> change_action result" where
  "action_of j =
     (if j = JStr ''ADD'' then Inr ADD else if j = JStr ''REMOVE'' then Inr REMOVE else Inl ValueError)"

definition change_to_dict :: "validator_change \<Rightarrow> json" where
  "change_to_dict c = JObj [(''action'', JStr (action_value (vc_action c))), (''validator'', JStr (vc_validator c))]"

definition change_from_dict :: "json \<Rightarrow> validator_change result" where
  "change_from_dict data =
     bindr (bindr (get_item data ''action'') action_of) (\<lambda>a.
     bindr (bindr (get_item data ''validator'') as_str) (\<lambda>v.
       Inr \<lparr>vc_action = a, vc_validator = v\<rparr>))"

definition change_canonical :: "validator_change \<Rightarrow> bytes" where
  "change_canonical c = canonical_bytes (change_to_dict c)"

fun apply_keys :: "crypto \<Rightarrow> (string, public_key) dict \<Rightarrow> validator_change list
    \<Rightarrow> (string, public_key) dict result" where
  \<comment> \<open>\<open>_apply\<close>\<close>
  "apply_keys C keys [] = Inr keys"
| "apply_keys C keys (c # cs) =
     (case vc_action c of
        ADD \<Rightarrow> bindr (public_from_hex C (vc_validator c)) (\<lambda>k.
                 apply_keys C (dict_set (vc_validator c) k keys) cs)
      | REMOVE \<Rightarrow> apply_keys C (dict_pop (vc_validator c) keys) cs)"

definition apply_changes :: "crypto \<Rightarrow> validator_set \<Rightarrow> validator_change list \<Rightarrow> validator_set result" where
  "apply_changes C validators changes =
     bindr (apply_keys C (unique_by_hex [] (vs_validators validators)) changes) (\<lambda>keys.
       if keys = [] then Inl ValueError else make_validator_set (dict_values keys))"

definition derive_validator_set :: "crypto \<Rightarrow> validator_change list \<Rightarrow> validator_set result" where
  "derive_validator_set C changes =
     bindr (apply_keys C [] changes) (\<lambda>keys.
       if keys = [] then Inl ValueError else make_validator_set (dict_values keys))"


section \<open>Dictionary form\<close>

lemma action_of_value [simp]: "action_of (JStr (action_value a)) = Inr a"
  by (cases a) (simp_all add: action_of_def)

theorem change_from_dict_to_dict: "change_from_dict (change_to_dict c) = Inr c"
  by (simp add: change_from_dict_def change_to_dict_def)

lemma action_value_inj [simp]: "action_value a = action_value b \<longleftrightarrow> a = b"
  by (cases a; cases b) simp_all

lemma change_canonical_eq_iff: "change_canonical c = change_canonical d \<longleftrightarrow> c = d"
proof
  assume eq: "change_canonical c = change_canonical d"
  have "map_option sort_keys (dict_get
      [(''action'', JStr (action_value (vc_action c))), (''validator'', JStr (vc_validator c))] k)
    = map_option sort_keys (dict_get
      [(''action'', JStr (action_value (vc_action d))), (''validator'', JStr (vc_validator d))] k)" for k
    by (rule canonical_obj_fieldD)
      (use eq in \<open>simp_all add: change_canonical_def change_to_dict_def dict_ok_def\<close>)
  from this [of "''action''"] this [of "''validator''"] show "c = d" by simp
qed simp


section \<open>The abstract specification\<close>

text \<open>A change that names its key the way \<open>to_hex()\<close> prints it.\<close>

definition change_ok :: "crypto \<Rightarrow> validator_change \<Rightarrow> bool" where
  "change_ok C c = (case public_from_hex C (vc_validator c) of
     Inl _ \<Rightarrow> False | Inr k \<Rightarrow> public_to_hex k = vc_validator c)"

fun change_members :: "crypto \<Rightarrow> public_key set \<Rightarrow> validator_change list \<Rightarrow> public_key set" where
  "change_members C M [] = M"
| "change_members C M (c # cs) =
     (case public_from_hex C (vc_validator c) of
        Inl _ \<Rightarrow> change_members C M cs
      | Inr k \<Rightarrow> change_members C (case vc_action c of ADD \<Rightarrow> insert k M | REMOVE \<Rightarrow> M - {k}) cs)"

definition keys_ok :: "(string, public_key) dict \<Rightarrow> bool" where
  "keys_ok d \<longleftrightarrow> dict_ok d \<and> (\<forall>p \<in> set d. fst p = public_to_hex (snd p))"

lemma keys_ok_values: "keys_ok d \<Longrightarrow> distinct (dict_values d)"
proof -
  assume d: "keys_ok d"
  then have "map fst d = map public_to_hex (dict_values d)"
    by (simp add: keys_ok_def dict_values_def)
  with d show ?thesis by (auto simp: keys_ok_def dict_ok_def distinct_map)
qed

lemma keys_ok_set: "keys_ok d \<Longrightarrow> keys_ok (dict_set (public_to_hex k) k d)"
  using set_dict_set_subset [of "public_to_hex k" k d]
  by (auto simp: keys_ok_def dict_ok_set)

lemma keys_ok_pop: "keys_ok d \<Longrightarrow> keys_ok (dict_pop h d)"
proof -
  have "set (dict_pop h d) \<subseteq> set d" by (auto simp: AList.delete_eq)
  then show "keys_ok d \<Longrightarrow> keys_ok (dict_pop h d)" by (auto simp: keys_ok_def dict_ok_pop)
qed

lemma values_set: "keys_ok d \<Longrightarrow> snd ` set (dict_set (public_to_hex k) k d) = insert k (snd ` set d)"
  by (force simp: keys_ok_def set_dict_set image_iff)

lemma values_pop: "keys_ok d \<Longrightarrow> snd ` set (dict_pop (public_to_hex k) d) = snd ` set d - {k}"
  by (force simp: keys_ok_def AList.delete_eq)

lemma keys_ok_unique: "vs_ok S \<Longrightarrow> keys_ok (unique_by_hex [] (vs_validators S)) \<and>
    snd ` set (unique_by_hex [] (vs_validators S)) = members S"
  using unique_by_hex_new [of "vs_validators S" "[]"]
  by (auto simp: keys_ok_def vs_ok_def members_def dict_ok_def comp_def distinct_map inj_public_to_hex
      image_image)

lemma apply_keys_ok:
  "keys_ok d \<Longrightarrow> \<forall>c \<in> set cs. change_ok C c \<Longrightarrow>
     \<exists>d'. apply_keys C d cs = Inr d' \<and> keys_ok d' \<and> snd ` set d' = change_members C (snd ` set d) cs"
proof (induction cs arbitrary: d)
  case (Cons c cs)
  then obtain k where k: "public_from_hex C (vc_validator c) = Inr k" "public_to_hex k = vc_validator c"
    by (auto simp: change_ok_def split: sum.splits)
  show ?case
  proof (cases "vc_action c")
    case ADD
    then show ?thesis
      using Cons.IH [OF keys_ok_set [OF Cons.prems(1), of k]] Cons.prems k values_set [OF Cons.prems(1), of k]
      by auto
  next
    case REMOVE
    then show ?thesis
      using Cons.IH [OF keys_ok_pop [OF Cons.prems(1), of "vc_validator c"]] Cons.prems k
        values_pop [OF Cons.prems(1), of k]
      by auto
  qed
qed simp

lemma apply_keys_malformed:
  assumes "c \<in> set cs" "vc_action c = ADD" "\<forall>k. public_from_hex C (vc_validator c) \<noteq> Inr k"
  shows "apply_keys C keys cs = Inl ValueError"
  using assms(1)
proof (induction cs arbitrary: keys)
  case (Cons d cs)
  show ?case
  proof (cases "d = c")
    case True
    obtain e where "public_from_hex C (vc_validator c) = Inl e" using assms(3) by (metis sum.exhaust)
    then show ?thesis using True assms(2) public_from_hex_error [of C "vc_validator c" e] by simp
  next
    case False
    then have IH: "apply_keys C keys cs = Inl ValueError" for keys using Cons by simp
    show ?thesis
      using IH public_from_hex_error [of C "vc_validator d"]
      by (cases "public_from_hex C (vc_validator d)") (simp_all split: change_action.split)
  qed
qed simp

definition set_of_members :: "public_key set \<Rightarrow> validator_set result \<Rightarrow> bool" where
  \<comment> \<open>the result is the validator set with these members, or an error if there are none\<close>
  "set_of_members M res = (if M = {} then res = Inl ValueError
     else (case res of Inl _ \<Rightarrow> False | Inr S \<Rightarrow> vs_ok S \<and> members S = M))"

lemma set_of_members_unique: "set_of_members M r \<Longrightarrow> set_of_members M r' \<Longrightarrow> r = r'"
proof -
  have "S = S'" if "vs_ok S" "vs_ok S'" "members S = members S'" for S S'
  proof -
    have "distinct (vs_validators S)" "set (vs_validators S) = members S"
      using that(1) by (auto simp: vs_ok_def members_def)
    then have "make_validator_set (vs_validators S) = Inr S" "make_validator_set (vs_validators S) = Inr S'"
      using make_validator_set_members [OF that(1)] make_validator_set_members [OF that(2)] that(3)
      by metis+
    then show ?thesis by simp
  qed
  then show "set_of_members M r \<Longrightarrow> set_of_members M r' \<Longrightarrow> r = r'"
    by (cases r; cases r') (auto simp: set_of_members_def split: if_splits)
qed

lemma make_from_keys:
  assumes "keys_ok d"
  shows "set_of_members (snd ` set d) (if d = [] then Inl ValueError else make_validator_set (dict_values d))"
proof (cases "d = []")
  case False
  then have "dict_values d \<noteq> []" "distinct (dict_values d)" "set (dict_values d) = snd ` set d"
    using keys_ok_values [OF assms] by (auto simp: dict_values_def)
  moreover from this obtain S where "make_validator_set (dict_values d) = Inr S"
    by (auto simp: make_validator_set_eq)
  ultimately show ?thesis
    using False make_validator_set_ok [of "dict_values d" S] by (simp add: set_of_members_def)
qed (simp add: set_of_members_def)

lemma apply_changes_members:
  assumes "vs_ok S" "\<forall>c \<in> set cs. change_ok C c"
  shows "set_of_members (change_members C (members S) cs) (apply_changes C S cs)"
proof -
  obtain d where d: "apply_keys C (unique_by_hex [] (vs_validators S)) cs = Inr d" "keys_ok d"
    "snd ` set d = change_members C (members S) cs"
    using apply_keys_ok [of "unique_by_hex [] (vs_validators S)" cs C] keys_ok_unique [OF assms(1)] assms(2)
    by auto
  then show ?thesis using make_from_keys [OF d(2)] by (simp add: apply_changes_def)
qed

lemma derive_members:
  assumes "\<forall>c \<in> set cs. change_ok C c"
  shows "set_of_members (change_members C {} cs) (derive_validator_set C cs)"
proof -
  obtain d where d: "apply_keys C [] cs = Inr d" "keys_ok d" "snd ` set d = change_members C {} cs"
    using apply_keys_ok [of "[]" cs C] assms by (auto simp: keys_ok_def)
  then show ?thesis using make_from_keys [OF d(2)] by (simp add: derive_validator_set_def)
qed

lemma change_members_append:
  "change_members C M (cs @ ds) = change_members C (change_members C M cs) ds"
  by (induction cs arbitrary: M) (auto split: sum.splits)


section \<open>Replay\<close>

text \<open>
  A node holds the active set and applies each block's changes to it; a restarted node
  derives it from all changes of the chain. The contract under which both agree:
\<close>

fun apply_blocks :: "('s \<Rightarrow> 'c list \<Rightarrow> 'e + 's) \<Rightarrow> 's \<Rightarrow> 'c list list \<Rightarrow> 'e + 's" where
  "apply_blocks app s [] = Inr s"
| "apply_blocks app s (cs # css) = bindr (if cs = [] then Inr s else app s cs) (\<lambda>s'. apply_blocks app s' css)"

locale replay =
  fixes derive :: "'c list \<Rightarrow> 'e + 's" and app :: "'s \<Rightarrow> 'c list \<Rightarrow> 'e + 's" and ok :: "'c \<Rightarrow> bool"
  assumes derive_append: "derive cs = Inr s \<Longrightarrow> \<forall>c \<in> set (cs @ ds). ok c \<Longrightarrow> derive (cs @ ds) = app s ds"
begin

lemma derive_blocks:
  "derive cs = Inr s \<Longrightarrow> \<forall>c \<in> set cs \<union> \<Union> (set ` set css). ok c \<Longrightarrow> apply_blocks app s css = Inr s' \<Longrightarrow>
     derive (cs @ concat css) = Inr s'"
proof (induction css arbitrary: cs s)
  case (Cons ds css)
  then obtain t where t: "(if ds = [] then Inr s else app s ds) = Inr t" "apply_blocks app t css = Inr s'"
    by (auto simp: bindr_Inr_iff)
  have "derive (cs @ ds) = Inr t"
    using t(1) Cons.prems(1,2) derive_append [of cs s ds] by (auto split: if_splits)
  then have "derive ((cs @ ds) @ concat css) = Inr s'"
    by (rule Cons.IH [OF _ _ t(2)]) (use Cons.prems(2) in auto)
  then show ?case by simp
qed simp

end

interpretation chain_set: replay "derive_validator_set C" "apply_changes C" "change_ok C" for C
proof
  fix cs s ds
  assume d: "derive_validator_set C cs = Inr s" and ok: "\<forall>c \<in> set (cs @ ds). change_ok C c"
  let ?M = "change_members C {} cs"
  have "set_of_members ?M (Inr s)" using derive_members [of cs C] d ok by simp
  then have s: "vs_ok s" "members s = ?M" by (auto simp: set_of_members_def split: if_splits)
  have "set_of_members (change_members C ?M ds) (apply_changes C s ds)"
    using apply_changes_members [OF s(1), of ds C] s(2) ok by simp
  moreover have "set_of_members (change_members C ?M ds) (derive_validator_set C (cs @ ds))"
    using derive_members [OF ok] by (simp add: change_members_append)
  ultimately show "derive_validator_set C (cs @ ds) = apply_changes C s ds"
    by (rule set_of_members_unique [rotated])
qed

section \<open>Properties\<close>

text \<open>C31: applying changes that spell their keys canonically implements the operation on
  sets of keys: the result is the validator set with exactly the keys the changes leave, and
  an error, \<open>ValueError\<close>, exactly if they leave none.\<close>

theorem apply_changes_refines:
  assumes "vs_ok S" "list_all (change_ok C) cs"
  shows "case apply_changes C S cs of
     Inl e \<Rightarrow> e = ValueError \<and> change_members C (members S) cs = {}
   | Inr S' \<Rightarrow> vs_ok S' \<and> members S' = change_members C (members S) cs"
  using apply_changes_members [OF assms(1), of cs C] assms(2)
  by (auto simp: set_of_members_def list_all_iff split: if_splits sum.splits)

definition demo_change :: "change_action \<Rightarrow> char \<Rightarrow> validator_change" where
  "demo_change a c = \<lparr>vc_action = a, vc_validator = hex_of_bytes (replicate 32 c)\<rparr>"

lemma demo_change_key: "public_from_hex demo_crypto (hex_of_bytes (replicate 32 c)) = Inr (PublicKey (replicate 32 c))"
  by (simp add: public_from_hex_def demo_crypto_def)

lemma demo_change_ok: "change_ok demo_crypto (demo_change a c)"
  by (simp add: change_ok_def demo_change_def demo_change_key public_to_hex_def)

definition solo_set :: "char \<Rightarrow> validator_set" where
  "solo_set c = \<lparr>vs_validators = [PublicKey (replicate 32 c)]\<rparr>"

theorem apply_changes_refines_witness:
  "apply_changes demo_crypto (solo_set (CHR ''a'')) [demo_change ADD (CHR ''b''), demo_change REMOVE (CHR ''a'')]
     = Inr (solo_set (CHR ''b'')) \<and>
   members (solo_set (CHR ''b'')) = change_members demo_crypto (members (solo_set (CHR ''a'')))
     [demo_change ADD (CHR ''b''), demo_change REMOVE (CHR ''a'')]"
proof -
  have eq: "apply_changes demo_crypto (solo_set (CHR ''a'')) [demo_change ADD (CHR ''b''), demo_change REMOVE (CHR ''a'')]
     = Inr (solo_set (CHR ''b''))" by code_simp
  show ?thesis
    using apply_changes_refines [of "solo_set (CHR ''a'')" demo_crypto
        "[demo_change ADD (CHR ''b''), demo_change REMOVE (CHR ''a'')]"] eq
    by (simp add: vs_ok_def demo_change_ok solo_set_def del: change_members.simps)
qed

text \<open>A node that restarts agrees with one that did not. If every change of the chain
  spells its key canonically, deriving the validator set from all changes of the chain gives
  the set reached by applying the blocks one after another.\<close>

theorem replay_agrees:
  assumes "derive_validator_set C genesis = Inr S" "apply_blocks (apply_changes C) S blocks = Inr S'"
    and "list_all (change_ok C) (genesis @ concat blocks)"
  shows "derive_validator_set C (genesis @ concat blocks) = Inr S'"
  by (rule chain_set.derive_blocks [OF assms(1) _ assms(2)]) (use assms(3) in \<open>auto simp: list_all_iff\<close>)

theorem replay_agrees_witness:
  "derive_validator_set demo_crypto ([demo_change ADD (CHR ''a'')] @ concat [[], [demo_change ADD (CHR ''b'')],
       [demo_change REMOVE (CHR ''a'')]])
     = Inr (solo_set (CHR ''b''))"
proof (rule replay_agrees)
  show "derive_validator_set demo_crypto [demo_change ADD (CHR ''a'')]
      = Inr (solo_set (CHR ''a''))" by code_simp
  show "apply_blocks (apply_changes demo_crypto) (solo_set (CHR ''a''))
      [[], [demo_change ADD (CHR ''b'')], [demo_change REMOVE (CHR ''a'')]]
    = Inr (solo_set (CHR ''b''))" by code_simp
qed (simp add: demo_change_ok)

definition upper_change :: validator_change where
  "upper_change = \<lparr>vc_action = ADD, vc_validator = replicate 64 (CHR ''A'')\<rparr>"

definition lower_removal :: validator_change where
  "lower_removal = \<lparr>vc_action = REMOVE, vc_validator = replicate 64 (CHR ''a'')\<rparr>"

text \<open>Canonical spelling is needed. With a key added in another spelling, the node that
  applied the blocks removes it later by its canonical name, and the node that derives the
  set from the chain keeps it.\<close>

theorem replay_needs_canonical_keys:
  "apply_blocks (apply_changes demo_crypto) (solo_set (CHR ''b''))
       [[upper_change], [lower_removal]]
     = Inr (solo_set (CHR ''b'')) \<and>
   derive_validator_set demo_crypto ([demo_change ADD (CHR ''b'')] @ concat [[upper_change], [lower_removal]])
     = Inr \<lparr>vs_validators = [PublicKey (replicate 32 (CHR ''b'')), PublicKey (replicate 32 (CHR 0xAA))]\<rparr>"
proof
  show "apply_blocks (apply_changes demo_crypto) (solo_set (CHR ''b''))
       [[upper_change], [lower_removal]]
     = Inr (solo_set (CHR ''b''))" by code_simp
  show "derive_validator_set demo_crypto ([demo_change ADD (CHR ''b'')] @ concat [[upper_change], [lower_removal]])
     = Inr \<lparr>vs_validators = [PublicKey (replicate 32 (CHR ''b'')), PublicKey (replicate 32 (CHR 0xAA))]\<rparr>"
    by code_simp
qed

end
