(* ===== verification/Block.thy ===== *)
theory Block
  imports Merkle Records Membership
begin

text \<open>
  \<open>domain/block.py\<close>: block headers, blocks, the genesis block and the validated in-memory
  chain. Proved: what the block hash commits to, dictionary round trips, when \<open>append\<close>
  accepts a block, that it keeps the chain valid, and that the hash of the last block fixes
  every header of a valid chain.
\<close>

section \<open>Blocks\<close>

definition ZERO_HASH :: string where
  "ZERO_HASH = replicate 64 (CHR ''0'')"

record block_header =
  bh_index :: int
  previous_hash :: string
  bh_timestamp :: int
  bh_merkle_root :: string
  bh_proposer :: string

definition header_dict :: "block_header \<Rightarrow> (string, json) dict" where
  "header_dict h =
     [(''index'', JInt (bh_index h)), (''previous_hash'', JStr (previous_hash h)),
      (''timestamp'', JInt (bh_timestamp h)), (''merkle_root'', JStr (bh_merkle_root h)),
      (''proposer'', JStr (bh_proposer h))]"

definition header_to_dict :: "block_header \<Rightarrow> json" where
  "header_to_dict h = JObj (header_dict h)"

definition header_from_dict :: "json \<Rightarrow> block_header result" where
  "header_from_dict data =
     bindr (bindr (get_item data ''index'') py_int) (\<lambda>i.
     bindr (bindr (get_item data ''previous_hash'') as_str) (\<lambda>p.
     bindr (bindr (get_item data ''timestamp'') py_int) (\<lambda>t.
     bindr (bindr (get_item data ''merkle_root'') as_str) (\<lambda>m.
     bindr (bindr (get_item data ''proposer'') as_str) (\<lambda>q.
       Inr \<lparr>bh_index = i, previous_hash = p, bh_timestamp = t, bh_merkle_root = m, bh_proposer = q\<rparr>)))))"

definition header_hash :: "crypto \<Rightarrow> block_header \<Rightarrow> string" where
  "header_hash C h = sha256_hex C (canonical_bytes (header_to_dict h))"

record block =
  header :: block_header
  records :: "integrity_record list"
  commit_signatures :: "(string, string) dict"
  validator_changes :: "validator_change list"

definition leaves :: "integrity_record list \<Rightarrow> validator_change list \<Rightarrow> bytes list" where
  "leaves rs cs = map record_canonical rs @ map change_canonical cs"

definition block_create ::
    "crypto \<Rightarrow> int \<Rightarrow> string \<Rightarrow> int \<Rightarrow> string \<Rightarrow> integrity_record list \<Rightarrow> validator_change list \<Rightarrow> block" where
  \<comment> \<open>\<open>Block.create\<close>\<close>
  "block_create C index previous timestamp prop rs changes =
     \<lparr>header = \<lparr>bh_index = index, previous_hash = previous, bh_timestamp = timestamp,
                bh_merkle_root = hex_of_bytes (merkle_root C (leaves rs changes)), bh_proposer = prop\<rparr>,
      records = rs, commit_signatures = [], validator_changes = changes\<rparr>"

definition block_hash :: "crypto \<Rightarrow> block \<Rightarrow> string" where
  "block_hash C b = header_hash C (header b)"

definition block_index :: "block \<Rightarrow> int" where
  "block_index b = bh_index (header b)"

definition computed_merkle_root :: "crypto \<Rightarrow> block \<Rightarrow> string" where
  "computed_merkle_root C b = hex_of_bytes (merkle_root C (leaves (records b) (validator_changes b)))"

definition has_consistent_merkle_root :: "crypto \<Rightarrow> block \<Rightarrow> bool" where
  "has_consistent_merkle_root C b = (bh_merkle_root (header b) = computed_merkle_root C b)"

definition proof_for_record :: "crypto \<Rightarrow> block \<Rightarrow> int \<Rightarrow> proof_step list result" where
  "proof_for_record C b index = merkle_proof C (leaves (records b) (validator_changes b)) index"

definition add_commit_signature :: "block \<Rightarrow> public_key \<Rightarrow> bytes \<Rightarrow> block" where
  "add_commit_signature b v sig =
     b\<lparr>commit_signatures := dict_set (public_to_hex v) (hex_of_bytes sig) (commit_signatures b)\<rparr>"

definition block_to_dict :: "block \<Rightarrow> json" where
  "block_to_dict b =
     JObj [(''header'', header_to_dict (header b)),
           (''records'', JList (map record_to_dict (records b))),
           (''commit_signatures'', JObj (map (\<lambda>p. (fst p, JStr (snd p))) (commit_signatures b))),
           (''validator_changes'', JList (map change_to_dict (validator_changes b)))]"

fun as_str_dict :: "json \<Rightarrow> (string, string) dict result" where
  \<comment> \<open>\<open>dict(x)\<close> for a field annotated \<open>dict[str, str]\<close>\<close>
  "as_str_dict (JObj d) = mapr (\<lambda>p. bindr (as_str (snd p)) (\<lambda>s. Inr (fst p, s))) d"
| "as_str_dict (JList _) = Inl IllTyped"
| "as_str_dict (JStr _) = Inl IllTyped"
| "as_str_dict _ = Inl TypeError"

definition block_from_dict :: "json \<Rightarrow> block result" where
  "block_from_dict data =
     bindr (bindr (get_item data ''header'') header_from_dict) (\<lambda>h.
     bindr (bindr (bindr (get_item data ''records'') as_list) (mapr record_from_dict)) (\<lambda>rs.
     bindr (bindr (get_default data ''commit_signatures'' (JObj [])) as_str_dict) (\<lambda>sigs.
     bindr (bindr (bindr (get_default data ''validator_changes'' (JList [])) as_list) (mapr change_from_dict)) (\<lambda>cs.
       Inr \<lparr>header = h, records = rs, commit_signatures = sigs, validator_changes = cs\<rparr>))))"

definition genesis_block :: "crypto \<Rightarrow> public_key list option \<Rightarrow> string \<Rightarrow> int \<Rightarrow> block" where
  "genesis_block C validators prop timestamp =
     (let changes = (case validators of
          None \<Rightarrow> []
        | Some vs \<Rightarrow> map (\<lambda>v. \<lparr>vc_action = ADD, vc_validator = public_to_hex v\<rparr>) vs)
      in block_create C 0 ZERO_HASH timestamp prop [] changes)"


section \<open>What a block hash commits to\<close>

lemma header_dict_ok [simp]: "dict_ok (header_dict h)" "no_float (JObj (header_dict h))"
  by (simp_all add: header_dict_def dict_ok_def)

lemma header_canonical_eq_iff:
  "canonical_bytes (header_to_dict h) = canonical_bytes (header_to_dict g) \<longleftrightarrow> h = g"
proof
  assume "canonical_bytes (header_to_dict h) = canonical_bytes (header_to_dict g)"
  then have "canonical_bytes (JObj (header_dict h)) = canonical_bytes (JObj (header_dict g))"
    by (simp add: header_to_dict_def)
  note f = canonical_obj_fieldD [OF this header_dict_ok(1) header_dict_ok(1)
      header_dict_ok(2) header_dict_ok(2)]
  show "h = g"
    using f [of "''index''"] f [of "''previous_hash''"] f [of "''timestamp''"]
      f [of "''merkle_root''"] f [of "''proposer''"]
    by (simp add: header_dict_def)
qed simp

lemma header_hash_eqD:
  assumes "header_hash C h = header_hash C g"
    and "inj_on (sha256 C) {canonical_bytes (header_to_dict h), canonical_bytes (header_to_dict g)}"
  shows "h = g"
proof -
  have "sha256 C (canonical_bytes (header_to_dict h)) = sha256 C (canonical_bytes (header_to_dict g))"
    using assms(1) by (simp add: header_hash_def sha256_hex_def hex_of_bytes_inj)
  then have "canonical_bytes (header_to_dict h) = canonical_bytes (header_to_dict g)"
    by (rule inj_onD [OF assms(2)]) simp_all
  then show ?thesis by (simp add: header_canonical_eq_iff)
qed

lemma record_not_change: "record_canonical r \<noteq> change_canonical c"
proof
  assume eq: "record_canonical r = change_canonical c"
  have "map_option sort_keys (dict_get (record_core r @ [(''observer'', JStr (observer r)),
        (''signature'', JStr (r_signature r))]) ''action'')
    = map_option sort_keys (dict_get
        [(''action'', JStr (action_value (vc_action c))), (''validator'', JStr (vc_validator c))] ''action'')"
    by (rule canonical_obj_fieldD)
      (use eq in \<open>simp_all add: record_canonical_def record_to_dict_def change_canonical_def
          change_to_dict_def record_core_def dict_ok_def\<close>)
  then show False by (simp add: record_core_def)
qed

lemma leaves_inj: "leaves rs cs = leaves rs' cs' \<Longrightarrow> rs = rs' \<and> cs = cs'"
proof (induction rs arbitrary: rs')
  case Nil
  have "rs' = []"
    using Nil record_not_change by (cases rs'; cases cs) (auto simp: leaves_def, metis)
  with Nil show ?case
    by (simp add: leaves_def inj_map_eq_map inj_def change_canonical_eq_iff)
next
  case (Cons r rs)
  show ?case
  proof (cases rs')
    case Nil
    then show ?thesis
      using Cons.prems record_not_change by (cases cs') (auto simp: leaves_def)
  next
    case (Cons r' rs'')
    then show ?thesis
      using Cons.IH [of rs''] Cons.prems by (simp add: leaves_def record_canonical_eq_iff)
  qed
qed

definition block_inputs :: "crypto \<Rightarrow> block \<Rightarrow> bytes set" where
  \<comment> \<open>every byte string hashed to check a block against its hash\<close>
  "block_inputs C b = insert (canonical_bytes (header_to_dict (header b)))
     (set (merkle_inputs C (leaves (records b) (validator_changes b))))"

lemma block_content_binding:
  assumes "header a = header b" "digest_length C"
    and "has_consistent_merkle_root C a" "has_consistent_merkle_root C b"
    and "length (records a) + length (validator_changes a) = length (records b) + length (validator_changes b)"
    and "collision_free C (block_inputs C a \<union> block_inputs C b)"
  shows "records a = records b \<and> validator_changes a = validator_changes b"
proof -
  let ?la = "leaves (records a) (validator_changes a)" and ?lb = "leaves (records b) (validator_changes b)"
  have "hex_of_bytes (merkle_root C ?la) = hex_of_bytes (merkle_root C ?lb)"
    using assms(1,3,4) by (simp add: has_consistent_merkle_root_def computed_merkle_root_def)
  then have "merkle_root C ?la = merkle_root C ?lb" by (simp add: hex_of_bytes_inj)
  moreover have "length ?la = length ?lb" using assms(5) by (simp add: leaves_def)
  moreover have "collision_free C (set (merkle_inputs C ?la) \<union> set (merkle_inputs C ?lb))"
    using assms(6) by (auto simp: collision_free_def block_inputs_def elim: inj_on_subset)
  ultimately have "?la = ?lb" using merkle_root_binding assms(2) by blast
  then show ?thesis by (rule leaves_inj)
qed

lemma block_create_consistent: "has_consistent_merkle_root C (block_create C i p t q rs cs)"
  by (simp add: has_consistent_merkle_root_def computed_merkle_root_def block_create_def)

lemma block_hash_add_signature [simp]:
  "block_hash C (add_commit_signature b v s) = block_hash C b"
  "header (add_commit_signature b v s) = header b"
  "records (add_commit_signature b v s) = records b"
  "validator_changes (add_commit_signature b v s) = validator_changes b"
  by (simp_all add: block_hash_def add_commit_signature_def)


section \<open>Dictionary round trips\<close>

lemma header_from_dict_to_dict [simp]: "header_from_dict (header_to_dict h) = Inr h"
  by (simp add: header_from_dict_def header_to_dict_def header_dict_def)

lemma as_str_dict_map [simp]: "as_str_dict (JObj (map (\<lambda>p. (fst p, JStr (snd p))) d)) = Inr d"
  by (induction d) auto

theorem block_from_dict_to_dict: "block_from_dict (block_to_dict b) = Inr b"
  by (simp add: block_from_dict_def block_to_dict_def mapr_map_Inr
      record_from_dict_to_dict change_from_dict_to_dict)


section \<open>The chain\<close>

datatype validation_error =
    GenesisIndex | GenesisMerkle
  | NonSequentialIndex int int
  | PreviousHashMismatch | MerkleInconsistent | TimestampPrecedes

record blockchain =
  chain :: "block list"

definition make_blockchain :: "crypto \<Rightarrow> block \<Rightarrow> validation_error + blockchain" where
  "make_blockchain C genesis =
     (if block_index genesis \<noteq> 0 then Inl GenesisIndex
      else if \<not> has_consistent_merkle_root C genesis then Inl GenesisMerkle
      else Inr \<lparr>chain = [genesis]\<rparr>)"

definition chain_latest :: "blockchain \<Rightarrow> block" where
  "chain_latest bc = last (chain bc)"

definition chain_height :: "blockchain \<Rightarrow> int" where
  "chain_height bc = block_index (chain_latest bc)"

definition chain_get :: "blockchain \<Rightarrow> int \<Rightarrow> block result" where
  \<comment> \<open>\<open>self._chain[index]\<close>: negative indices count from the end\<close>
  "chain_get bc index =
     (let n = int (length (chain bc)); j = (if index < 0 then n + index else index)
      in if 0 \<le> j \<and> j < n then Inr (chain bc ! nat j) else Inl IndexError)"

definition validate_next :: "crypto \<Rightarrow> blockchain \<Rightarrow> block \<Rightarrow> validation_error + unit" where
  "validate_next C bc b =
     (let prev = chain_latest bc in
      if block_index b \<noteq> block_index prev + 1
        then Inl (NonSequentialIndex (block_index prev + 1) (block_index b))
      else if previous_hash (header b) \<noteq> block_hash C prev then Inl PreviousHashMismatch
      else if \<not> has_consistent_merkle_root C b then Inl MerkleInconsistent
      else if bh_timestamp (header b) < bh_timestamp (header prev) then Inl TimestampPrecedes
      else Inr ())"

definition chain_append :: "crypto \<Rightarrow> blockchain \<Rightarrow> block \<Rightarrow> validation_error + blockchain" where
  "chain_append C bc b = bindr (validate_next C bc b) (\<lambda>_. Inr (bc\<lparr>chain := chain bc @ [b]\<rparr>))"

text \<open>A valid chain: consecutive indices from 0, hash links, consistent Merkle roots, monotone time.\<close>

definition links :: "crypto \<Rightarrow> block \<Rightarrow> block \<Rightarrow> bool" where
  "links C p b \<longleftrightarrow> block_index b = block_index p + 1 \<and> previous_hash (header b) = block_hash C p \<and>
     bh_timestamp (header p) \<le> bh_timestamp (header b)"

definition valid_chain :: "crypto \<Rightarrow> block list \<Rightarrow> bool" where
  "valid_chain C bs \<longleftrightarrow> bs \<noteq> [] \<and> block_index (hd bs) = 0 \<and>
     (\<forall>b \<in> set bs. has_consistent_merkle_root C b) \<and>
     (\<forall>i. i + 1 < length bs \<longrightarrow> links C (bs ! i) (bs ! (i + 1)))"

lemma validate_next_ok_iff:
  "validate_next C bc b = Inr () \<longleftrightarrow> links C (chain_latest bc) b \<and> has_consistent_merkle_root C b"
  by (auto simp: validate_next_def links_def Let_def)

lemma valid_chain_single: "valid_chain C [g] \<longleftrightarrow> block_index g = 0 \<and> has_consistent_merkle_root C g"
  by (simp add: valid_chain_def)

lemma valid_chain_snoc:
  assumes "bs \<noteq> []"
  shows "valid_chain C (bs @ [b]) \<longleftrightarrow>
    valid_chain C bs \<and> links C (last bs) b \<and> has_consistent_merkle_root C b"
proof -
  have nth: "links C ((bs @ [b]) ! i) ((bs @ [b]) ! (i + 1)) \<longleftrightarrow>
      (if i + 1 < length bs then links C (bs ! i) (bs ! (i + 1)) else links C (last bs) b)"
    if "i + 1 < length (bs @ [b])" for i
  proof (cases "i + 1 < length bs")
    case False
    with that have "i + 1 = length bs" by simp
    then have "i = length bs - 1" "i < length bs" using assms by auto
    with False \<open>i + 1 = length bs\<close> show ?thesis using assms by (simp add: nth_append last_conv_nth)
  qed (simp add: nth_append)
  have "(\<forall>i. i + 1 < length (bs @ [b]) \<longrightarrow> links C ((bs @ [b]) ! i) ((bs @ [b]) ! (i + 1))) \<longleftrightarrow>
      (\<forall>i. i + 1 < length bs \<longrightarrow> links C (bs ! i) (bs ! (i + 1))) \<and> links C (last bs) b" (is "?l \<longleftrightarrow> ?r")
  proof
    assume l: ?l
    have "links C (last bs) b"
      using l [rule_format, of "length bs - 1"] nth [of "length bs - 1"] assms by auto
    moreover have "links C (bs ! i) (bs ! (i + 1))" if "i + 1 < length bs" for i
      using l [rule_format, of i] nth [of i] that by auto
    ultimately show ?r by blast
  next
    assume ?r then show ?l using nth by simp
  qed
  then show ?thesis using assms unfolding valid_chain_def by auto
qed

lemma make_blockchain_valid: "make_blockchain C g = Inr bc \<Longrightarrow> valid_chain C (chain bc)"
  by (auto simp: make_blockchain_def valid_chain_single split: if_splits)

lemma chain_append_Inr_iff:
  "chain_append C bc b = Inr bc' \<longleftrightarrow>
     links C (chain_latest bc) b \<and> has_consistent_merkle_root C b \<and> bc' = bc\<lparr>chain := chain bc @ [b]\<rparr>"
  using validate_next_ok_iff [of C bc b] by (auto simp: chain_append_def bindr_Inr_iff)

lemma chain_append_valid:
  "valid_chain C (chain bc) \<Longrightarrow> chain_append C bc b = Inr bc' \<Longrightarrow> valid_chain C (chain bc')"
  using valid_chain_snoc [of "chain bc" C b]
  by (auto simp: chain_append_Inr_iff chain_latest_def valid_chain_def [of C "chain bc"])

lemma valid_chain_index: "valid_chain C bs \<Longrightarrow> i < length bs \<Longrightarrow> block_index (bs ! i) = int i"
proof (induction i)
  case 0
  then show ?case using hd_conv_nth [of bs] by (simp add: valid_chain_def)
next
  case (Suc i)
  then show ?case by (simp add: valid_chain_def links_def)
qed

lemma valid_chain_headers_equal:
  assumes "valid_chain C bs" "valid_chain C cs" "length bs = length cs"
    and "block_hash C (last bs) = block_hash C (last cs)"
    and "inj_on (sha256 C) ((\<lambda>b. canonical_bytes (header_to_dict (header b))) ` (set bs \<union> set cs))"
  shows "map header bs = map header cs"
  using assms
proof (induction bs arbitrary: cs rule: rev_induct)
  case (snoc b bs)
  then have "cs \<noteq> []" by auto
  then obtain cs' c where cs: "cs = cs' @ [c]" by (metis rev_exhaust)
  have hbc: "header b = header c"
  proof (rule header_hash_eqD [of C])
    show "inj_on (sha256 C) {canonical_bytes (header_to_dict (header b)), canonical_bytes (header_to_dict (header c))}"
      by (rule inj_on_subset [OF snoc.prems(5)]) (use cs in auto)
  qed (use snoc.prems(4) cs in \<open>simp add: block_hash_def\<close>)
  show ?case
  proof (cases "bs = []")
    case True
    with snoc.prems(3) cs hbc show ?thesis by simp
  next
    case False
    then have ne: "cs' \<noteq> []" using snoc.prems(3) cs by auto
    have v: "valid_chain C bs" "links C (last bs) b" "valid_chain C cs'" "links C (last cs') c"
      using snoc.prems(1,2) cs valid_chain_snoc [OF False] valid_chain_snoc [OF ne] by auto
    have "map header bs = map header cs'"
    proof (rule snoc.IH)
      show "block_hash C (last bs) = block_hash C (last cs')"
        using v(2,4) hbc by (simp add: links_def)
      show "inj_on (sha256 C) ((\<lambda>b. canonical_bytes (header_to_dict (header b))) ` (set bs \<union> set cs'))"
        by (rule inj_on_subset [OF snoc.prems(5)]) (use cs in auto)
    qed (use v snoc.prems(3) cs in auto)
    then show ?thesis using hbc cs by simp
  qed
qed (simp add: valid_chain_def)

section \<open>Properties\<close>

text \<open>\<open>append\<close> keeps a chain valid and accepts exactly the blocks that extend it: the
  next index, the hash of the last block, a consistent Merkle root and a time not before the
  last block's. On any other block it raises and there is no new chain.\<close>

theorem append_extends_valid:
  assumes "valid_chain C (chain bc)"
  shows "case chain_append C bc b of
     Inl _ \<Rightarrow> \<not> valid_chain C (chain bc @ [b])
   | Inr bc' \<Rightarrow> chain bc' = chain bc @ [b] \<and> valid_chain C (chain bc') \<and> chain_height bc' = chain_height bc + 1"
proof (cases "chain_append C bc b")
  case (Inl e)
  have "chain bc \<noteq> []" using assms by (simp add: valid_chain_def)
  then have "valid_chain C (chain bc @ [b]) \<Longrightarrow> chain_append C bc b = Inr (bc\<lparr>chain := chain bc @ [b]\<rparr>)"
    by (simp add: valid_chain_snoc chain_append_Inr_iff chain_latest_def)
  with Inl show ?thesis by auto
next
  case (Inr bc')
  then show ?thesis
    using chain_append_valid [OF assms Inr] chain_append_Inr_iff [of C bc b bc']
    by (simp add: chain_height_def chain_latest_def links_def)
qed

definition demo_chain :: "crypto \<Rightarrow> block list" where
  "demo_chain C = (let g = genesis_block C None ''p'' 5 in
     [g, block_create C 1 (block_hash C g) 6 ''q'' [demo_record] []])"

lemma demo_chain_snoc: "demo_chain C = [hd (demo_chain C)] @ [last (demo_chain C)]"
  by (simp add: demo_chain_def Let_def)

lemma demo_chain_valid: "valid_chain C (demo_chain C)" "valid_chain C [hd (demo_chain C)]"
proof -
  have "valid_chain C ([hd (demo_chain C)] @ [last (demo_chain C)])"
    by (subst valid_chain_snoc)
      (simp_all add: valid_chain_single demo_chain_def Let_def genesis_block_def block_create_consistent links_def,
       simp_all add: block_create_def block_index_def)
  then show "valid_chain C (demo_chain C)" "valid_chain C [hd (demo_chain C)]"
    using valid_chain_snoc [of "[hd (demo_chain C)]" C "last (demo_chain C)"]
    unfolding demo_chain_snoc [symmetric] by auto
qed

theorem append_extends_valid_witness:
  "\<exists>bc'. chain_append demo_crypto \<lparr>chain = [hd (demo_chain demo_crypto)]\<rparr> (last (demo_chain demo_crypto)) = Inr bc' \<and>
     chain bc' = demo_chain demo_crypto \<and> valid_chain demo_crypto (chain bc')"
  using append_extends_valid [of demo_crypto "\<lparr>chain = [hd (demo_chain demo_crypto)]\<rparr>" "last (demo_chain demo_crypto)"]
    demo_chain_valid [of demo_crypto] demo_chain_snoc [of demo_crypto]
  by (auto split: sum.splits)

text \<open>C33: the hash of its last block fixes a valid chain. Two valid chains of the same length
  that end in the same hash, without a SHA-256 collision on what they hash, have the same
  headers, and two of their blocks at the same index with equally many entries have the same
  records and validator changes.\<close>

theorem tip_hash_fixes_chain:
  assumes "valid_chain C bs" "valid_chain C cs" "length bs = length cs"
    and "block_hash C (last bs) = block_hash C (last cs)" "digest_length C"
    and "collision_free C (\<Union>b \<in> set (bs @ cs). block_inputs C b)"
  shows "map header bs = map header cs \<and>
    (\<forall>i < length bs. length (records (bs ! i)) + length (validator_changes (bs ! i))
         = length (records (cs ! i)) + length (validator_changes (cs ! i)) \<longrightarrow>
       records (bs ! i) = records (cs ! i) \<and> validator_changes (bs ! i) = validator_changes (cs ! i))"
proof -
  have inj: "inj_on (sha256 C) (\<Union>b \<in> set (bs @ cs). block_inputs C b)"
    using assms(6) by (simp add: collision_free_def)
  have "inj_on (sha256 C) ((\<lambda>b. canonical_bytes (header_to_dict (header b))) ` (set bs \<union> set cs))"
    by (rule inj_on_subset [OF inj]) (auto simp: block_inputs_def)
  then have hdr: "map header bs = map header cs" using valid_chain_headers_equal [OF assms(1-4)] by simp
  have "records (bs ! i) = records (cs ! i) \<and> validator_changes (bs ! i) = validator_changes (cs ! i)"
    if i: "i < length bs" and n: "length (records (bs ! i)) + length (validator_changes (bs ! i))
         = length (records (cs ! i)) + length (validator_changes (cs ! i))" for i
  proof (rule block_content_binding [OF _ assms(5) _ _ n])
    show "header (bs ! i) = header (cs ! i)" using hdr i assms(3) by (metis nth_map)
    show "collision_free C (block_inputs C (bs ! i) \<union> block_inputs C (cs ! i))"
      unfolding collision_free_def by (rule inj_on_subset [OF inj]) (use i assms(3) in auto)
  qed (use assms(1-3) i in \<open>auto simp: valid_chain_def\<close>)
  then show ?thesis using hdr by blast
qed


lemma valid_chain_add_signature:
  "valid_chain C (map (\<lambda>b. add_commit_signature b v s) bs) = valid_chain C bs"
proof (cases "bs = []")
  case False
  have "has_consistent_merkle_root C (add_commit_signature b v s) = has_consistent_merkle_root C b" for b
    by (simp add: has_consistent_merkle_root_def computed_merkle_root_def)
  moreover have "links C (add_commit_signature b v s) (add_commit_signature c v s) = links C b c" for b c
    by (simp add: links_def block_index_def)
  ultimately show ?thesis using False by (simp add: valid_chain_def hd_map block_index_def)
qed (simp add: valid_chain_def)

lemma block_inputs_code:
  "(\<Union>b \<in> set bs. block_inputs C b) = set (concat (map (\<lambda>b. canonical_bytes (header_to_dict (header b))
      # merkle_inputs C (leaves (records b) (validator_changes b))) bs))"
  by (simp add: block_inputs_def)

theorem tip_hash_fixes_chain_witness:
  "map header (demo_chain padded_crypto)
     = map header (map (\<lambda>b. add_commit_signature b (PublicKey ''k'') ''s'') (demo_chain padded_crypto))"
proof -
  let ?C = padded_crypto
  let ?bs = "demo_chain ?C" and ?cs = "map (\<lambda>b. add_commit_signature b (PublicKey ''k'') ''s'') (demo_chain ?C)"
  have "collision_free ?C (\<Union>b \<in> set (?bs @ ?cs). block_inputs ?C b)"
    unfolding block_inputs_code collision_free_set_code by code_simp
  moreover have "valid_chain ?C ?cs"
    using demo_chain_valid(1) by (simp only: valid_chain_add_signature)
  moreover have "block_hash ?C (last ?bs) = block_hash ?C (last ?cs)" by (simp add: demo_chain_def Let_def)
  ultimately show ?thesis
    using tip_hash_fixes_chain [of ?C ?bs ?cs] demo_chain_valid(1) [of ?C] padded_crypto_digest_length by simp
qed

end
