(* ===== verification/Messages.thy ===== *)
theory Messages
  imports Block
begin

text \<open>
  \<open>consensus/messages.py\<close>: the signed consensus messages with their nested certificates,
  the signing payload, creation, verification and the dictionary form.
\<close>

section \<open>Definitions\<close>

datatype message_type = PRE_PREPARE | PREPARE | COMMIT | ROUND_CHANGE

fun type_value :: "message_type \<Rightarrow> string" where
  "type_value PRE_PREPARE = ''PRE_PREPARE''"
| "type_value PREPARE = ''PREPARE''"
| "type_value COMMIT = ''COMMIT''"
| "type_value ROUND_CHANGE = ''ROUND_CHANGE''"

definition type_of :: "json \<Rightarrow> message_type result" where
  \<comment> \<open>\<open>MessageType(x)\<close>\<close>
  "type_of j =
     (if j = JStr ''PRE_PREPARE'' then Inr PRE_PREPARE else if j = JStr ''PREPARE'' then Inr PREPARE
      else if j = JStr ''COMMIT'' then Inr COMMIT else if j = JStr ''ROUND_CHANGE'' then Inr ROUND_CHANGE
      else Inl ValueError)"

datatype consensus_message = ConsensusMessage
  (m_type: message_type)
  (m_height: int)
  (m_round: int)
  (m_block_hash: string)
  (m_sender: string)
  (m_signature: string)
  (m_block: "block option")
  (m_commit_seal: "string option")
  (m_prepared_round: "int option")
  (m_prepared_cert: "consensus_message list")
  (m_round_change_cert: "consensus_message list")

definition opt_int :: "int option \<Rightarrow> json" where
  "opt_int o' = (case o' of None \<Rightarrow> JNull | Some i \<Rightarrow> JInt i)"

definition payload_dict :: "message_type \<Rightarrow> int \<Rightarrow> int \<Rightarrow> string \<Rightarrow> int option \<Rightarrow> (string, json) dict" where
  "payload_dict t h r bh pr =
     [(''type'', JStr (type_value t)), (''height'', JInt h), (''round'', JInt r), (''block_hash'', JStr bh)]
     @ (if t = ROUND_CHANGE then [(''prepared_round'', opt_int pr)] else [])"

definition signing_payload :: "consensus_message \<Rightarrow> bytes" where
  "signing_payload m =
     canonical_bytes (JObj (payload_dict (m_type m) (m_height m) (m_round m) (m_block_hash m) (m_prepared_round m)))"

definition message_create ::
    "crypto \<Rightarrow> message_type \<Rightarrow> int \<Rightarrow> int \<Rightarrow> string \<Rightarrow> private_key \<Rightarrow> block option \<Rightarrow> int option
     \<Rightarrow> consensus_message list \<Rightarrow> consensus_message list \<Rightarrow> consensus_message" where
  \<comment> \<open>\<open>ConsensusMessage.create\<close>\<close>
  "message_create C t height rnd bh signer blk prep_round prep_cert rc_cert =
     (let sender = public_to_hex (private_public C signer);
          partial = ConsensusMessage t height rnd bh sender [] None None prep_round [] [];
          signature = hex_of_bytes (private_sign C signer (signing_payload partial));
          seal = (if t = COMMIT then Some (hex_of_bytes (private_sign C signer bh)) else None)
      in ConsensusMessage t height rnd bh sender signature blk seal prep_round prep_cert rc_cert)"

definition verify_signature :: "crypto \<Rightarrow> consensus_message \<Rightarrow> bool" where
  "verify_signature C m =
     (case public_from_hex C (m_sender m) of
        Inl _ \<Rightarrow> False
      | Inr key \<Rightarrow> (case bytes_fromhex (m_signature m) of
            Inl _ \<Rightarrow> False
          | Inr sig \<Rightarrow> public_verify C key sig (signing_payload m)))"

definition opt_str :: "string option \<Rightarrow> json" where
  "opt_str o' = (case o' of None \<Rightarrow> JNull | Some s \<Rightarrow> JStr s)"

fun message_to_dict :: "consensus_message \<Rightarrow> json" where
  "message_to_dict (ConsensusMessage t h r bh sender sig blk seal pr pc rcc) =
     JObj [(''type'', JStr (type_value t)), (''height'', JInt h), (''round'', JInt r),
           (''block_hash'', JStr bh), (''sender'', JStr sender), (''signature'', JStr sig),
           (''block'', (case blk of None \<Rightarrow> JNull | Some b \<Rightarrow> block_to_dict b)),
           (''commit_seal'', opt_str seal), (''prepared_round'', opt_int pr),
           (''prepared_cert'', JList (map message_to_dict pc)),
           (''round_change_cert'', JList (map message_to_dict rcc))]"

fun as_opt_str :: "json \<Rightarrow> string option result" where
  "as_opt_str JNull = Inr None"
| "as_opt_str (JStr s) = Inr (Some s)"
| "as_opt_str _ = Inl IllTyped"

fun as_opt_int :: "json \<Rightarrow> int option result" where
  "as_opt_int JNull = Inr None"
| "as_opt_int (JInt i) = Inr (Some i)"
| "as_opt_int _ = Inl IllTyped"

definition cert_items :: "json \<Rightarrow> string \<Rightarrow> json list result" where
  \<comment> \<open>the values \<open>for m in data.get(k, [])\<close> ranges over\<close>
  "cert_items data k = bindr (get_default data k (JList [])) as_list"

lemma size_dict_get: "dict_get d k = Some v \<Longrightarrow> size v < size (JObj d)"
  by (induction d) (auto split: if_splits)

lemma size_as_list: "as_list j = Inr xs \<Longrightarrow> x \<in> set xs \<Longrightarrow> size x \<le> size j"
proof (induction j rule: as_list.induct)
  case (1 ys)
  then show ?case using size_list_estimation' [of x xs "size x" size] by simp
next
  case (2 d)
  then show ?case by auto
next
  case (3 s)
  then show ?case by auto
qed auto

lemma size_cert_items: "cert_items data k = Inr xs \<Longrightarrow> x \<in> set xs \<Longrightarrow> size x < size data"
proof -
  assume a: "cert_items data k = Inr xs" "x \<in> set xs"
  then obtain j where j: "get_default data k (JList []) = Inr j" "as_list j = Inr xs"
    by (auto simp: cert_items_def bindr_Inr_iff)
  then obtain d where d: "data = JObj d" by (cases data) auto
  show ?thesis
  proof (cases "dict_get d k")
    case None
    with j d a(2) show ?thesis by auto
  next
    case (Some v)
    with j d have "j = v" by simp
    then show ?thesis using size_as_list [OF j(2) a(2)] size_dict_get [OF Some] d by simp
  qed
qed

function message_from_dict :: "json \<Rightarrow> consensus_message result" where
  "message_from_dict data =
     bindr (get_default data ''block'' JNull) (\<lambda>raw_block.
     bindr (bindr (get_item data ''type'') type_of) (\<lambda>t.
     bindr (bindr (get_item data ''height'') py_int) (\<lambda>h.
     bindr (bindr (get_item data ''round'') py_int) (\<lambda>r.
     bindr (bindr (get_item data ''block_hash'') as_str) (\<lambda>bh.
     bindr (bindr (get_item data ''sender'') as_str) (\<lambda>sender.
     bindr (bindr (get_item data ''signature'') as_str) (\<lambda>sig.
     bindr (if raw_block \<noteq> JNull then bindr (block_from_dict raw_block) (\<lambda>b. Inr (Some b)) else Inr None) (\<lambda>blk.
     bindr (bindr (get_default data ''commit_seal'' JNull) as_opt_str) (\<lambda>seal.
     bindr (bindr (get_default data ''prepared_round'' JNull) as_opt_int) (\<lambda>pr.
     bindr (bindr (cert_items data ''prepared_cert'') (\<lambda>ms. mapr message_from_dict ms)) (\<lambda>pc.
     bindr (bindr (cert_items data ''round_change_cert'') (\<lambda>ms. mapr message_from_dict ms)) (\<lambda>rcc.
       Inr (ConsensusMessage t h r bh sender sig blk seal pr pc rcc)))))))))))))"
  by pat_completeness auto
termination
  by (relation "measure size") (auto dest: size_cert_items)

declare message_from_dict.simps [simp del]


section \<open>Dictionary round trip\<close>

lemma type_of_value [simp]: "type_of (JStr (type_value t)) = Inr t"
  by (cases t) (simp_all add: type_of_def)

lemma type_value_inj [simp]: "type_value t = type_value u \<longleftrightarrow> t = u"
  by (cases t; cases u) simp_all

lemma as_opt_simps [simp]: "as_opt_str (opt_str s) = Inr s" "as_opt_int (opt_int i) = Inr i"
  by (cases s; simp add: opt_str_def) (cases i; simp add: opt_int_def)

lemma block_to_dict_not_null [simp]: "block_to_dict b \<noteq> JNull"
  by (simp add: block_to_dict_def)

theorem message_from_dict_to_dict: "message_from_dict (message_to_dict m) = Inr m"
proof (induction m)
  case (ConsensusMessage t h r bh sender sig blk seal pr pc rcc)
  have "mapr message_from_dict (map message_to_dict pc) = Inr pc"
    "mapr message_from_dict (map message_to_dict rcc) = Inr rcc"
    using ConsensusMessage by (auto intro: mapr_map_Inr)
  then show ?case
    by (cases blk) (simp_all add: message_from_dict.simps cert_items_def block_from_dict_to_dict)
qed


section \<open>Signatures\<close>

lemma payload_dict_ok [simp]: "dict_ok (payload_dict t h r bh pr)" "no_float (JObj (payload_dict t h r bh pr))"
  by (auto simp: payload_dict_def dict_ok_def opt_int_def split: option.splits)

lemma opt_int_inj [simp]: "sort_keys (opt_int i) = sort_keys (opt_int j) \<longleftrightarrow> i = j"
  by (auto simp: opt_int_def split: option.splits)

lemma signing_payload_eq_iff:
  "signing_payload m = signing_payload n \<longleftrightarrow>
     m_type m = m_type n \<and> m_height m = m_height n \<and> m_round m = m_round n \<and>
     m_block_hash m = m_block_hash n \<and> (m_type m = ROUND_CHANGE \<longrightarrow> m_prepared_round m = m_prepared_round n)"
  (is "?l \<longleftrightarrow> ?r")
proof
  assume ?l
  then have "canonical_bytes (JObj (payload_dict (m_type m) (m_height m) (m_round m) (m_block_hash m) (m_prepared_round m)))
      = canonical_bytes (JObj (payload_dict (m_type n) (m_height n) (m_round n) (m_block_hash n) (m_prepared_round n)))"
    by (simp add: signing_payload_def)
  note f = canonical_obj_fieldD [OF this payload_dict_ok(1) payload_dict_ok(1)
      payload_dict_ok(2) payload_dict_ok(2)]
  show ?r
    using f [of "''type''"] f [of "''height''"] f [of "''round''"] f [of "''block_hash''"]
      f [of "''prepared_round''"]
    by (auto simp: payload_dict_def split: if_splits)
qed (auto simp: signing_payload_def payload_dict_def)

lemma message_create_simps [simp]:
  "m_type (message_create C t h r bh k blk pr pc rcc) = t"
  "m_height (message_create C t h r bh k blk pr pc rcc) = h"
  "m_round (message_create C t h r bh k blk pr pc rcc) = r"
  "m_block_hash (message_create C t h r bh k blk pr pc rcc) = bh"
  "m_sender (message_create C t h r bh k blk pr pc rcc) = public_to_hex (private_public C k)"
  "m_block (message_create C t h r bh k blk pr pc rcc) = blk"
  "m_prepared_round (message_create C t h r bh k blk pr pc rcc) = pr"
  "m_prepared_cert (message_create C t h r bh k blk pr pc rcc) = pc"
  "m_round_change_cert (message_create C t h r bh k blk pr pc rcc) = rcc"
  "m_commit_seal (message_create C t h r bh k blk pr pc rcc)
     = (if t = COMMIT then Some (hex_of_bytes (private_sign C k bh)) else None)"
  by (simp_all add: message_create_def Let_def)

lemma message_create_signature:
  "m_signature (message_create C t h r bh k blk pr pc rcc)
     = hex_of_bytes (private_sign C k (signing_payload (message_create C t h r bh k blk pr pc rcc)))"
  by (simp add: message_create_def Let_def signing_payload_def)

lemma verify_signature_create:
  assumes "ed25519_correct C" "private_ok k"
  shows "verify_signature C (message_create C t h r bh k blk pr pc rcc)"
  using assms
  by (simp add: verify_signature_def message_create_signature private_public_from_hex public_verify_sign)

text \<open>
  Who signed a message: the key its sender text denotes. The sender text itself is not part
  of the signed payload, so every spelling of the same key verifies alike.
\<close>

lemma verify_signature_respell:
  assumes "public_from_hex C s = public_from_hex C (m_sender m)"
    and "n = ConsensusMessage (m_type m) (m_height m) (m_round m) (m_block_hash m) s (m_signature m)
               (m_block m) (m_commit_seal m) (m_prepared_round m) (m_prepared_cert m) (m_round_change_cert m)"
  shows "verify_signature C n = verify_signature C m"
  using assms by (cases m) (simp add: verify_signature_def signing_payload_def cong: sum.case_cong)

section \<open>Properties\<close>

text \<open>A message survives its dictionary form, nested certificates and blocks included,
  and the parsed copy of a message that a key created and signed passes signature
  verification.\<close>

theorem message_roundtrip_verifies:
  assumes "ed25519_correct C" "private_ok k"
  shows "message_from_dict (message_to_dict m) = Inr m \<and>
    bindr (message_from_dict (message_to_dict (message_create C t h r bh k blk pr pc rcc)))
      (\<lambda>n. Inr (verify_signature C n)) = Inr True"
  using verify_signature_create [OF assms] by (simp add: message_from_dict_to_dict)

theorem message_roundtrip_verifies_witness:
  "bindr (message_from_dict (message_to_dict (message_create demo_crypto COMMIT 3 1 ''ab'' (demo_key (CHR ''k''))
       None None [] []))) (\<lambda>n. Inr (verify_signature demo_crypto n)) = Inr True"
  using message_roundtrip_verifies [OF demo_crypto_correct demo_key_ok, of _ COMMIT 3 1 "''ab''" "CHR ''k''" None None "[]" "[]"]
  by blast

text \<open>What a message signature covers. Two messages have the same signed bytes exactly
  if they agree on type, height, round and block hash, and for round changes on the prepared
  round; the sender text, the block and the certificates are not covered.\<close>

theorem signing_payload_covers:
  "signing_payload m = signing_payload n \<longleftrightarrow>
     m_type m = m_type n \<and> m_height m = m_height n \<and> m_round m = m_round n \<and>
     m_block_hash m = m_block_hash n \<and> (m_type m \<noteq> ROUND_CHANGE \<or> m_prepared_round m = m_prepared_round n)"
  using signing_payload_eq_iff by blast

theorem signing_payload_covers_witness:
  "signing_payload (ConsensusMessage PREPARE 1 0 ''h'' ''s'' [] None None None [] [])
     \<noteq> signing_payload (ConsensusMessage COMMIT 1 0 ''h'' ''s'' [] None None None [] [])"
  by (subst signing_payload_covers) simp

end
