(* ===== verification/Journal.thy ===== *)
theory Journal
  imports Messages
begin

text \<open>
  \<open>consensus/journal.py\<close>: the write-ahead journal of a validator's own votes and of its
  prepared lock, in its three implementations (none, in memory, SQL table), and the SQL
  store of all heights. The interface the consensus engine uses is the locale
  \<open>vote_log\<close>; the SQL view also satisfies \<open>durable_log\<close>: reading the table again after
  a crash gives the same answers.
\<close>

section \<open>Definitions\<close>

definition J_PREPARE :: string where "J_PREPARE = ''PREPARE''"
definition J_COMMIT :: string where "J_COMMIT = ''COMMIT''"

type_synonym lock = "int \<times> block \<times> consensus_message list"

record memory_journal =
  mj_votes :: "(int \<times> string, string) dict"
  mj_prepared :: "lock option"

definition empty_memory_journal :: memory_journal where
  "empty_memory_journal = \<lparr>mj_votes = [], mj_prepared = None\<rparr>"

text \<open>
  A row of the table \<open>consensus_wal\<close>; the table is its list of rows in order of \<open>id\<close>.
  The payload is the JSON value whose text the column holds.
\<close>

record wal_row =
  w_height :: int
  w_kind :: string
  w_round :: int
  w_phase :: string
  w_block_hash :: string
  w_payload :: json

record sql_height_view =
  sv_table :: "wal_row list"      \<comment> \<open>the table behind \<open>self._engine\<close>\<close>
  sv_height :: int
  sv_votes :: "(int \<times> string, string) dict"
  sv_prepared :: "lock option"

fun load_rows :: "wal_row list \<Rightarrow> (int \<times> string, string) dict \<Rightarrow> lock option
    \<Rightarrow> ((int \<times> string, string) dict \<times> lock option) result" where
  \<comment> \<open>the loop of \<open>_SqlHeightView._load\<close>\<close>
  "load_rows [] votes prep = Inr (votes, prep)"
| "load_rows (row # rows) votes prep =
     (if w_kind row = ''vote''
        then load_rows rows (dict_set (w_round row, w_phase row) (w_block_hash row) votes) prep
      else if w_kind row = ''prepared'' then
        bindr (bindr (get_item (w_payload row) ''block'') block_from_dict) (\<lambda>b.
        bindr (bindr (bindr (get_item (w_payload row) ''cert'') as_list) (mapr message_from_dict)) (\<lambda>cert.
          load_rows rows votes (Some (w_round row, b, cert))))
      else load_rows rows votes prep)"

definition open_view :: "wal_row list \<Rightarrow> int \<Rightarrow> sql_height_view result" where
  \<comment> \<open>\<open>_SqlHeightView.__init__\<close>\<close>
  "open_view table height =
     bindr (load_rows (filter (\<lambda>row. w_height row = height) table) [] None) (\<lambda>(votes, prep).
       Inr \<lparr>sv_table = table, sv_height = height, sv_votes = votes, sv_prepared = prep\<rparr>)"

definition sql_record_vote :: "sql_height_view \<Rightarrow> int \<Rightarrow> string \<Rightarrow> string \<Rightarrow> sql_height_view" where
  "sql_record_vote v rnd phase bh =
     v\<lparr>sv_votes := dict_set (rnd, phase) bh (sv_votes v),
       sv_table := sv_table v @ [\<lparr>w_height = sv_height v, w_kind = ''vote'', w_round = rnd,
                                  w_phase = phase, w_block_hash = bh, w_payload = JStr []\<rparr>]\<rparr>"

definition prepared_payload :: "block \<Rightarrow> consensus_message list \<Rightarrow> json" where
  "prepared_payload b cert =
     JObj [(''block'', block_to_dict b), (''cert'', JList (map message_to_dict cert))]"

definition sql_record_prepared ::
    "crypto \<Rightarrow> sql_height_view \<Rightarrow> int \<Rightarrow> block \<Rightarrow> consensus_message list \<Rightarrow> sql_height_view" where
  "sql_record_prepared C v rnd b cert =
     v\<lparr>sv_prepared := Some (rnd, b, cert),
       sv_table := sv_table v @ [\<lparr>w_height = sv_height v, w_kind = ''prepared'', w_round = rnd,
                                  w_phase = [], w_block_hash = block_hash C b,
                                  w_payload = prepared_payload b cert\<rparr>]\<rparr>"

datatype vote_journal =
    NullVoteJournal
  | InMemoryVoteJournal memory_journal
  | SqlHeightView sql_height_view

fun voted_hash :: "vote_journal \<Rightarrow> int \<Rightarrow> string \<Rightarrow> string option" where
  "voted_hash NullVoteJournal rnd phase = None"
| "voted_hash (InMemoryVoteJournal j) rnd phase = dict_get (mj_votes j) (rnd, phase)"
| "voted_hash (SqlHeightView v) rnd phase = dict_get (sv_votes v) (rnd, phase)"

fun record_vote :: "vote_journal \<Rightarrow> int \<Rightarrow> string \<Rightarrow> string \<Rightarrow> vote_journal" where
  "record_vote NullVoteJournal rnd phase bh = NullVoteJournal"
| "record_vote (InMemoryVoteJournal j) rnd phase bh =
     InMemoryVoteJournal (j\<lparr>mj_votes := dict_set (rnd, phase) bh (mj_votes j)\<rparr>)"
| "record_vote (SqlHeightView v) rnd phase bh = SqlHeightView (sql_record_vote v rnd phase bh)"

fun record_prepared :: "crypto \<Rightarrow> vote_journal \<Rightarrow> int \<Rightarrow> block \<Rightarrow> consensus_message list \<Rightarrow> vote_journal" where
  "record_prepared C NullVoteJournal rnd b cert = NullVoteJournal"
| "record_prepared C (InMemoryVoteJournal j) rnd b cert =
     InMemoryVoteJournal (j\<lparr>mj_prepared := Some (rnd, b, cert)\<rparr>)"
| "record_prepared C (SqlHeightView v) rnd b cert = SqlHeightView (sql_record_prepared C v rnd b cert)"

fun prepared_lock :: "vote_journal \<Rightarrow> lock option" where
  \<comment> \<open>the method \<open>prepared\<close>\<close>
  "prepared_lock NullVoteJournal = None"
| "prepared_lock (InMemoryVoteJournal j) = mj_prepared j"
| "prepared_lock (SqlHeightView v) = sv_prepared v"

text \<open>The stores a node opens views from.\<close>

datatype journal_store = NullJournalStore | SqlConsensusJournalStore "wal_row list"

fun store_view :: "journal_store \<Rightarrow> int \<Rightarrow> vote_journal result" where
  "store_view NullJournalStore height = Inr NullVoteJournal"
| "store_view (SqlConsensusJournalStore table) height =
     bindr (open_view table height) (\<lambda>v. Inr (SqlHeightView v))"

fun prune_below :: "journal_store \<Rightarrow> int \<Rightarrow> journal_store" where
  "prune_below NullJournalStore height = NullJournalStore"
| "prune_below (SqlConsensusJournalStore table) height =
     SqlConsensusJournalStore (filter (\<lambda>row. \<not> w_height row < height) table)"


section \<open>The interface\<close>

text \<open>
  What the engine relies on: a recorded vote is read back, other votes and the lock are
  left alone, and the last recorded lock is read back.
\<close>

locale vote_log =
  fixes wf :: "'j \<Rightarrow> bool"
    and voted :: "'j \<Rightarrow> int \<Rightarrow> string \<Rightarrow> string option"
    and vote :: "'j \<Rightarrow> int \<Rightarrow> string \<Rightarrow> string \<Rightarrow> 'j"
    and lock :: "'j \<Rightarrow> int \<Rightarrow> block \<Rightarrow> consensus_message list \<Rightarrow> 'j"
    and locked :: "'j \<Rightarrow> lock option"
  assumes wf_vote: "wf j \<Longrightarrow> wf (vote j r p h)"
    and wf_lock: "wf j \<Longrightarrow> wf (lock j r b c)"
    and voted_vote: "wf j \<Longrightarrow> voted (vote j r p h) r' p' = (if r' = r \<and> p' = p then Some h else voted j r' p')"
    and voted_lock: "wf j \<Longrightarrow> voted (lock j r b c) r' p' = voted j r' p'"
    and locked_lock: "wf j \<Longrightarrow> locked (lock j r b c) = Some (r, b, c)"
    and locked_vote: "wf j \<Longrightarrow> locked (vote j r p h) = locked j"
begin

lemma vote_twice:
  "wf j \<Longrightarrow> voted j r p = Some h \<Longrightarrow> voted j r' p' \<in> {None, Some h'} \<Longrightarrow>
     voted (vote j r' p' h') r p = Some h"
  by (auto simp: voted_vote)

end

locale durable_log = vote_log wf voted vote lock locked
  for wf :: "'j \<Rightarrow> bool" and voted vote lock locked +
  fixes reopen :: "'j \<Rightarrow> 'j result"
  assumes reopen_ok: "wf j \<Longrightarrow> \<exists>j'. reopen j = Inr j' \<and> wf j' \<and> voted j' = voted j \<and> locked j' = locked j"
begin

lemma vote_survives:
  "wf j \<Longrightarrow> \<exists>j'. reopen (vote j r p h) = Inr j' \<and> wf j' \<and> voted j' r p = Some h"
  using reopen_ok [OF wf_vote, of j r p h] voted_vote [of j r p h r p] by auto

lemma lock_survives:
  "wf j \<Longrightarrow> \<exists>j'. reopen (lock j r b c) = Inr j' \<and> wf j' \<and> locked j' = Some (r, b, c)"
  using reopen_ok [OF wf_lock, of j r b c] locked_lock [of j r b c] by auto

end


section \<open>The in-memory journal and the SQL view\<close>

interpretation mem_log: vote_log "\<lambda>_. True" "voted_hash \<circ> InMemoryVoteJournal"
  "\<lambda>j r p h. j\<lparr>mj_votes := dict_set (r, p) h (mj_votes j)\<rparr>"
  "\<lambda>j r b c. j\<lparr>mj_prepared := Some (r, b, c)\<rparr>" mj_prepared
  by unfold_locales auto

text \<open>A view agrees with its table: what is cached is what loading the table gives.\<close>

definition view_ok :: "sql_height_view \<Rightarrow> bool" where
  "view_ok v \<longleftrightarrow> load_rows (filter (\<lambda>row. w_height row = sv_height v) (sv_table v)) [] None
     = Inr (sv_votes v, sv_prepared v)"

lemma load_rows_append:
  "load_rows (xs @ ys) votes prep = bindr (load_rows xs votes prep) (\<lambda>(vs, pr). load_rows ys vs pr)"
  by (induction xs votes prep rule: load_rows.induct) (auto simp: bindr_def split: sum.splits)

lemma view_ok_open: "open_view table h = Inr v \<Longrightarrow> view_ok v \<and> sv_table v = table \<and> sv_height v = h"
  by (auto simp: open_view_def view_ok_def bindr_Inr_iff)

lemma view_ok_vote: "view_ok v \<Longrightarrow> view_ok (sql_record_vote v r p h)"
  by (simp add: view_ok_def sql_record_vote_def load_rows_append)

lemma prepared_payload_load:
  "bindr (get_item (prepared_payload b cert) ''block'') block_from_dict = Inr b"
  "bindr (bindr (get_item (prepared_payload b cert) ''cert'') as_list) (mapr message_from_dict) = Inr cert"
  by (simp_all add: prepared_payload_def block_from_dict_to_dict mapr_map_Inr message_from_dict_to_dict)

lemma view_ok_prepared: "view_ok v \<Longrightarrow> view_ok (sql_record_prepared C v r b cert)"
  by (simp add: view_ok_def sql_record_prepared_def load_rows_append prepared_payload_load)

definition reopen_view :: "sql_height_view \<Rightarrow> sql_height_view result" where
  \<comment> \<open>a restarted process opens the same height on the same table\<close>
  "reopen_view v = open_view (sv_table v) (sv_height v)"

lemma reopen_view_ok: "view_ok v \<Longrightarrow> reopen_view v = Inr v"
  by (simp add: reopen_view_def open_view_def view_ok_def)

interpretation sql_log: durable_log view_ok "\<lambda>v. voted_hash (SqlHeightView v)" sql_record_vote
  "sql_record_prepared C" sv_prepared reopen_view for C
  by unfold_locales
    (auto simp: view_ok_vote view_ok_prepared reopen_view_ok, auto simp: sql_record_vote_def sql_record_prepared_def)


section \<open>The journal the engine holds\<close>

fun journal_ok :: "vote_journal \<Rightarrow> bool" where
  "journal_ok NullVoteJournal = False"
| "journal_ok (InMemoryVoteJournal j) = True"
| "journal_ok (SqlHeightView v) = view_ok v"

interpretation jlog: vote_log journal_ok voted_hash record_vote "record_prepared C" prepared_lock for C
proof
  fix j r p h b c r' p'
  assume ok: "journal_ok j"
  show "journal_ok (record_vote j r p h)" using ok by (cases j) (simp_all add: view_ok_vote)
  show "journal_ok (record_prepared C j r b c)" using ok by (cases j) (simp_all add: view_ok_prepared)
  show "voted_hash (record_vote j r p h) r' p' = (if r' = r \<and> p' = p then Some h else voted_hash j r' p')"
    using ok by (cases j) (simp_all add: sql_record_vote_def)
  show "voted_hash (record_prepared C j r b c) r' p' = voted_hash j r' p'"
    using ok by (cases j) (simp_all add: sql_record_prepared_def)
  show "prepared_lock (record_prepared C j r b c) = Some (r, b, c)"
    using ok by (cases j) (simp_all add: sql_record_prepared_def)
  show "prepared_lock (record_vote j r p h) = prepared_lock j"
    using ok by (cases j) (simp_all add: sql_record_vote_def)
qed

lemmas journal_laws [simp] = jlog.voted_vote jlog.voted_lock jlog.locked_lock jlog.locked_vote
  jlog.wf_vote jlog.wf_lock

lemma prune_below_view:
  "h \<le> h' \<Longrightarrow> store_view (prune_below s h) h' = bindr (store_view s h') (\<lambda>j. Inr (case j of
     SqlHeightView v \<Rightarrow> SqlHeightView (v\<lparr>sv_table := filter (\<lambda>row. \<not> w_height row < h) (sv_table v)\<rparr>) | _ \<Rightarrow> j))"
proof (cases s)
  case (SqlConsensusJournalStore table)
  assume "h \<le> h'"
  then have "filter (\<lambda>row. w_height row = h') (filter (\<lambda>row. \<not> w_height row < h) table)
      = filter (\<lambda>row. w_height row = h') table"
    by (auto intro: filter_cong)
  then show ?thesis using SqlConsensusJournalStore by (auto simp: open_view_def bindr_def split: sum.splits)
qed simp

section \<open>Properties\<close>

datatype journal_write = WriteVote int string string | WritePrepared int block "consensus_message list"

fun sql_write :: "crypto \<Rightarrow> sql_height_view \<Rightarrow> journal_write \<Rightarrow> sql_height_view" where
  "sql_write C v (WriteVote r p h) = sql_record_vote v r p h"
| "sql_write C v (WritePrepared r b cert) = sql_record_prepared C v r b cert"

lemma view_ok_writes: "view_ok v \<Longrightarrow> view_ok (foldl (sql_write C) v ws)"
proof (induction ws arbitrary: v)
  case (Cons w ws)
  then show ?case by (cases w) (simp_all add: view_ok_vote view_ok_prepared)
qed simp

text \<open>C34: votes and locks survive a crash. After any sequence of journal writes on a view
  opened from the table, opening the same height again on the table as it is then succeeds
  and gives a view with the same votes and the same lock.\<close>

theorem journal_survives_crash:
  assumes "open_view table height = Inr v" "v' = foldl (sql_write C) v ws"
  shows "open_view (sv_table v') (sv_height v') = Inr v'"
  using view_ok_writes [of v C ws] view_ok_open [OF assms(1)] reopen_view_ok [of v'] assms(2)
  by (simp add: reopen_view_def)

theorem journal_survives_crash_witness:
  "open_view (sv_table (sql_record_vote \<lparr>sv_table = [], sv_height = 4, sv_votes = [], sv_prepared = None\<rparr> 0 J_PREPARE ''h''))
     (sv_height (sql_record_vote \<lparr>sv_table = [], sv_height = 4, sv_votes = [], sv_prepared = None\<rparr> 0 J_PREPARE ''h''))
   = Inr (sql_record_vote \<lparr>sv_table = [], sv_height = 4, sv_votes = [], sv_prepared = None\<rparr> 0 J_PREPARE ''h'')"
  by (rule journal_survives_crash [of "[]" 4 "\<lparr>sv_table = [], sv_height = 4, sv_votes = [], sv_prepared = None\<rparr>"
        _ demo_crypto "[WriteVote 0 J_PREPARE ''h'']"])
    (simp_all add: open_view_def)

text \<open>Pruning the journal below a height keeps the answers of every view at that height
  or above, and removes every row below it.\<close>

theorem prune_keeps_live_heights:
  assumes "h \<le> h'" "store_view s h' = Inr j"
  shows "\<exists>j'. store_view (prune_below s h) h' = Inr j' \<and> voted_hash j' = voted_hash j \<and>
    prepared_lock j' = prepared_lock j \<and>
    (\<forall>table row. prune_below s h = SqlConsensusJournalStore table \<longrightarrow> row \<in> set table \<longrightarrow> h \<le> w_height row)"
proof -
  have "voted_hash (SqlHeightView (v\<lparr>sv_table := t\<rparr>)) = voted_hash (SqlHeightView v)" for v t
    by (simp add: fun_eq_iff)
  then show ?thesis
    using prune_below_view [OF assms(1), of s] assms(2)
    by (cases s; cases j) (auto split: vote_journal.splits)
qed

theorem prune_keeps_live_heights_witness:
  "\<exists>j'. store_view (prune_below (SqlConsensusJournalStore
        [\<lparr>w_height = 2, w_kind = ''vote'', w_round = 0, w_phase = J_COMMIT, w_block_hash = ''x'', w_payload = JStr []\<rparr>,
         \<lparr>w_height = 5, w_kind = ''vote'', w_round = 0, w_phase = J_COMMIT, w_block_hash = ''y'', w_payload = JStr []\<rparr>]) 3) 5
     = Inr j' \<and> voted_hash j' 0 J_COMMIT = Some ''y''"
  using prune_keeps_live_heights [of 3 5 "SqlConsensusJournalStore
        [\<lparr>w_height = 2, w_kind = ''vote'', w_round = 0, w_phase = J_COMMIT, w_block_hash = ''x'', w_payload = JStr []\<rparr>,
         \<lparr>w_height = 5, w_kind = ''vote'', w_round = 0, w_phase = J_COMMIT, w_block_hash = ''y'', w_payload = JStr []\<rparr>]"]
  by (fastforce simp: open_view_def)

end
