(* ===== verification/Engine.thy ===== *)
theory Engine
  imports Journal
begin

text \<open>
  \<open>consensus/engine.py\<close>: the consensus state machine of one height. A method of
  \<open>ConsensusEngine\<close> that mutates \<open>self\<close> and appends to the \<open>StepResult\<close> it is given is
  a function on pairs of an engine state and a step result. \<open>self._now_ms()\<close> reads the
  next value of a stream of clock readings.

  Two conventions. The block a round finalizes is one mutable object in Python, shared by
  \<open>proposal\<close> and \<open>prepared_block\<close>; \<open>try_commit\<close> updates both fields. And
  \<open>_finalize\<close> would raise on an entry of \<open>_commits\<close> that is not hexadecimal; the
  model leaves the block as it is at that entry, and the invariant of the theory
  \<open>Engine_Invariant\<close> shows that no such entry is ever recorded.
\<close>

section \<open>State\<close>

datatype phase = NEW_ROUND | PRE_PREPARED | PREPARED | COMMITTED

record step_result =
  broadcast :: "consensus_message list"
  committed_block :: "block option"

definition empty_result :: step_result where
  "empty_result = \<lparr>broadcast = [], committed_block = None\<rparr>"

definition result_extend :: "step_result \<Rightarrow> step_result \<Rightarrow> step_result" where
  "result_extend a b =
     a\<lparr>broadcast := broadcast a @ broadcast b,
       committed_block := (if committed_block b \<noteq> None then committed_block b else committed_block a)\<rparr>"

record engine =
  e_validators :: validator_set
  e_private_key :: private_key
  e_height :: int
  e_previous_hash :: string
  e_now_ms :: "nat \<Rightarrow> int"
  e_clock_reads :: nat
  e_journal :: vote_journal
  e_pending :: "integrity_record list"
  e_pending_changes :: "validator_change list"
  e_prepared_round :: "int option"
  e_prepared_block :: "block option"
  e_prepared_cert :: "consensus_message list"
  e_round_changes :: "(int, (string, consensus_message) dict) dict"
  e_rc_sent :: "int list"
  e_buffer :: "consensus_message list"
  e_round :: int
  e_phase :: phase
  e_proposal :: "block option"
  e_prepares :: "(string, (string, consensus_message) dict) dict"
  e_commits :: "(string, (string, string) dict) dict"

type_synonym step_state = "engine \<times> step_result"

definition e_me :: "crypto \<Rightarrow> engine \<Rightarrow> public_key" where
  "e_me C e = private_public C (e_private_key e)"

definition emit :: "consensus_message \<Rightarrow> step_state \<Rightarrow> step_state" where
  \<comment> \<open>\<open>result.broadcast.append(m)\<close>\<close>
  "emit m st = (fst st, (snd st)\<lparr>broadcast := broadcast (snd st) @ [m]\<rparr>)"

section \<open>Round lifecycle\<close>

definition start_round :: "int \<Rightarrow> engine \<Rightarrow> engine" where
  "start_round r e =
     e\<lparr>e_round := r, e_phase := NEW_ROUND, e_proposal := None, e_prepares := [], e_commits := []\<rparr>"

definition make_engine ::
    "crypto \<Rightarrow> validator_set \<Rightarrow> private_key \<Rightarrow> int \<Rightarrow> string \<Rightarrow> (nat \<Rightarrow> int) \<Rightarrow> nat \<Rightarrow> vote_journal
     \<Rightarrow> engine result" where
  \<comment> \<open>\<open>ConsensusEngine.__init__\<close>\<close>
  "make_engine C validators key height prev now reads journal =
     (if \<not> contains validators (private_public C key) then Inl ValueError
      else let lck = prepared_lock journal in
        Inr (start_round 0
          \<lparr>e_validators = validators, e_private_key = key, e_height = height, e_previous_hash = prev,
           e_now_ms = now, e_clock_reads = reads, e_journal = journal,
           e_pending = [], e_pending_changes = [],
           e_prepared_round = map_option fst lck,
           e_prepared_block = map_option (fst \<circ> snd) lck,
           e_prepared_cert = (case lck of None \<Rightarrow> [] | Some l \<Rightarrow> snd (snd l)),
           e_round_changes = [], e_rc_sent = [], e_buffer = [],
           e_round = 0, e_phase = NEW_ROUND, e_proposal = None, e_prepares = [], e_commits = []\<rparr>))"

definition engine_proposer :: "engine \<Rightarrow> public_key" where
  "engine_proposer e = proposer (e_validators e) (e_height e) (e_round e)"

definition is_proposer :: "crypto \<Rightarrow> engine \<Rightarrow> bool" where
  "is_proposer C e = public_eq (e_me C e) (engine_proposer e)"

definition committed :: "engine \<Rightarrow> bool" where
  "committed e = (e_phase e = COMMITTED)"


section \<open>Authentication and certificates\<close>

definition authentic :: "crypto \<Rightarrow> validator_set \<Rightarrow> consensus_message \<Rightarrow> bool" where
  "authentic C S m =
     (case public_from_hex C (m_sender m) of
        Inl _ \<Rightarrow> False
      | Inr sender \<Rightarrow> contains S sender \<and> verify_signature C m)"

definition valid_commit_seal :: "crypto \<Rightarrow> consensus_message \<Rightarrow> bool" where
  "valid_commit_seal C m =
     (case m_commit_seal m of
        None \<Rightarrow> False
      | Some s \<Rightarrow>
          if s = [] then False
          else case public_from_hex C (m_sender m) of
              Inl _ \<Rightarrow> False
            | Inr sender \<Rightarrow> (case bytes_fromhex s of
                  Inl _ \<Rightarrow> False
                | Inr seal \<Rightarrow> public_verify C sender seal (m_block_hash m)))"

definition verify_prepares ::
    "crypto \<Rightarrow> validator_set \<Rightarrow> int \<Rightarrow> consensus_message list \<Rightarrow> int \<Rightarrow> string \<Rightarrow> bool" where
  "verify_prepares C S height cert rnd bh =
     (let senders = remdups (map m_sender (filter (\<lambda>m.
            m_type m = PREPARE \<and> m_height m = height \<and> m_round m = rnd \<and> m_block_hash m = bh
            \<and> authentic C S m) cert))
      in int (length senders) \<ge> quorum S)"

definition valid_round_change :: "crypto \<Rightarrow> validator_set \<Rightarrow> int \<Rightarrow> consensus_message \<Rightarrow> bool" where
  "valid_round_change C S height m =
     (case m_prepared_round m of
        None \<Rightarrow> True
      | Some r \<Rightarrow> verify_prepares C S height (m_prepared_cert m) r (m_block_hash m))"

fun collect_valid ::
    "crypto \<Rightarrow> validator_set \<Rightarrow> int \<Rightarrow> int \<Rightarrow> (string, consensus_message) dict \<Rightarrow> consensus_message list
     \<Rightarrow> (string, consensus_message) dict" where
  "collect_valid C S height target valid [] = valid"
| "collect_valid C S height target valid (m # ms) =
     collect_valid C S height target
       (if m_type m = ROUND_CHANGE \<and> m_height m = height \<and> m_round m = target
           \<and> authentic C S m \<and> valid_round_change C S height m
        then dict_set (m_sender m) m valid else valid) ms"

fun pick_justified :: "int \<Rightarrow> string option \<Rightarrow> consensus_message list \<Rightarrow> string option" where
  "pick_justified best just [] = just"
| "pick_justified best just (m # ms) =
     (case m_prepared_round m of
        Some r \<Rightarrow> if r > best then pick_justified r (Some (m_block_hash m)) ms
                  else pick_justified best just ms
      | None \<Rightarrow> pick_justified best just ms)"

definition verify_round_change_cert ::
    "crypto \<Rightarrow> validator_set \<Rightarrow> int \<Rightarrow> consensus_message list \<Rightarrow> int \<Rightarrow> bool \<times> string option" where
  "verify_round_change_cert C S height cert target =
     (let valid = collect_valid C S height target [] cert in
      if int (length valid) < quorum S then (False, None)
      else (True, pick_justified (-1) None (dict_values valid)))"

definition structurally_valid :: "crypto \<Rightarrow> engine \<Rightarrow> block \<Rightarrow> bool" where
  "structurally_valid C e b \<longleftrightarrow> block_index b = e_height e \<and>
     previous_hash (header b) = e_previous_hash e \<and> has_consistent_merkle_root C b"

definition proposal_justified :: "crypto \<Rightarrow> engine \<Rightarrow> consensus_message \<Rightarrow> bool" where
  "proposal_justified C e m =
     (case verify_round_change_cert C (e_validators e) (e_height e) (m_round_change_cert m) (m_round m) of
        (ok, justified) \<Rightarrow>
          if \<not> ok then False
          else case justified of
              Some h \<Rightarrow> (case m_block m of None \<Rightarrow> False | Some b \<Rightarrow> block_hash C b = h)
            | None \<Rightarrow> True)"

definition locked_block_from_cert :: "crypto \<Rightarrow> consensus_message list \<Rightarrow> string \<Rightarrow> block option" where
  "locked_block_from_cert C cert bh =
     Option.bind (find (\<lambda>m. case m_block m of None \<Rightarrow> False | Some b \<Rightarrow> block_hash C b = bh) cert) m_block"


section \<open>Voting\<close>

definition record_prepare :: "consensus_message \<Rightarrow> engine \<Rightarrow> engine" where
  "record_prepare m e = e\<lparr>e_prepares := dict_set2 (m_block_hash m) (m_sender m) m (e_prepares e)\<rparr>"

fun finalize :: "crypto \<Rightarrow> block \<Rightarrow> (string, string) dict \<Rightarrow> block" where
  "finalize C b [] = b"
| "finalize C b ((sender_hex, seal_hex) # rest) =
     (case (public_from_hex C sender_hex, bytes_fromhex seal_hex) of
        (Inr key, Inr seal) \<Rightarrow> finalize C (add_commit_signature b key seal) rest
      | _ \<Rightarrow> b)"

definition try_prepare :: "crypto \<Rightarrow> block \<Rightarrow> step_state \<Rightarrow> step_state" where
  \<comment> \<open>first half of \<open>_maybe_advance\<close>: a quorum of PREPAREs locks the proposal \<open>p\<close>\<close>
  "try_prepare C p st =
     (let e = fst st; h = block_hash C p; ps = dict_get_list (e_prepares e) h in
      if e_phase e = PRE_PREPARED \<and> int (length ps) \<ge> quorum (e_validators e) then
        (let prior = voted_hash (e_journal e) (e_round e) J_COMMIT in
         if prior \<noteq> None \<and> prior \<noteq> Some h then st
         else
           let cert = dict_values ps;
               commit = message_create C COMMIT (e_height e) (e_round e) h (e_private_key e) None None [] []
           in emit commit
             (e\<lparr>e_phase := PREPARED, e_prepared_round := Some (e_round e), e_prepared_block := Some p,
                e_prepared_cert := cert,
                e_journal := record_vote (record_prepared C (e_journal e) (e_round e) p cert)
                               (e_round e) J_COMMIT h,
                e_commits := dict_set2 h (public_to_hex (e_me C e)) (the (m_commit_seal commit)) (e_commits e)\<rparr>,
              snd st))
      else st)"

definition try_commit :: "crypto \<Rightarrow> block \<Rightarrow> step_state \<Rightarrow> step_state" where
  \<comment> \<open>second half of \<open>_maybe_advance\<close>: a quorum of COMMITs finalizes the proposal \<open>p\<close>\<close>
  "try_commit C p st =
     (let e = fst st; cs = dict_get_list (e_commits e) (block_hash C p) in
      if e_phase e = PREPARED \<and> int (length cs) \<ge> quorum (e_validators e) then
        (let b = finalize C p cs in
         (e\<lparr>e_phase := COMMITTED, e_proposal := Some b, e_prepared_block := Some b\<rparr>,
          (snd st)\<lparr>committed_block := Some b\<rparr>))
      else st)"

definition maybe_advance :: "crypto \<Rightarrow> step_state \<Rightarrow> step_state" where
  "maybe_advance C st =
     (case e_proposal (fst st) of
        None \<Rightarrow> st
      | Some p \<Rightarrow> try_commit C p (try_prepare C p st))"

definition cast_prepare :: "crypto \<Rightarrow> block \<Rightarrow> step_state \<Rightarrow> step_state" where
  \<comment> \<open>\<open>_accept_proposal\<close> after its guard: journal, record and broadcast our PREPARE\<close>
  "cast_prepare C b st =
     (let e = fst st; h = block_hash C b;
          e' = e\<lparr>e_proposal := Some b, e_phase := PRE_PREPARED,
                 e_journal := record_vote (e_journal e) (e_round e) J_PREPARE h\<rparr>;
          prepare = message_create C PREPARE (e_height e) (e_round e) h (e_private_key e) None None [] []
      in emit prepare (record_prepare prepare e', snd st))"

definition accept_proposal :: "crypto \<Rightarrow> block \<Rightarrow> step_state \<Rightarrow> step_state" where
  "accept_proposal C b st =
     (let e = fst st; prior = voted_hash (e_journal e) (e_round e) J_PREPARE in
      if prior \<noteq> None \<and> prior \<noteq> Some (block_hash C b) then st
      else maybe_advance C (cast_prepare C b st))"

definition handle_prepare :: "crypto \<Rightarrow> consensus_message \<Rightarrow> step_state \<Rightarrow> step_state" where
  "handle_prepare C m st = maybe_advance C (record_prepare m (fst st), snd st)"

definition handle_commit :: "crypto \<Rightarrow> consensus_message \<Rightarrow> step_state \<Rightarrow> step_state" where
  "handle_commit C m st =
     (if \<not> valid_commit_seal C m then st
      else let e = fst st in
        maybe_advance C
          (e\<lparr>e_commits := dict_set2 (m_block_hash m) (m_sender m) (the (m_commit_seal m)) (e_commits e)\<rparr>, snd st))"

definition handle_vote ::
    "(consensus_message \<Rightarrow> step_state \<Rightarrow> step_state) \<Rightarrow> consensus_message \<Rightarrow> step_state \<Rightarrow> step_state" where
  "handle_vote handler m st =
     (let e = fst st in
      if m_round m = e_round e then handler m st
      else if m_round m > e_round e then (e\<lparr>e_buffer := e_buffer e @ [m]\<rparr>, snd st)
      else st)"


section \<open>Proposing\<close>

definition build_block :: "crypto \<Rightarrow> engine \<Rightarrow> engine \<times> block" where
  "build_block C e =
     (e\<lparr>e_clock_reads := Suc (e_clock_reads e)\<rparr>,
      block_create C (e_height e) (e_previous_hash e) (e_now_ms e (e_clock_reads e))
        (public_to_hex (e_me C e)) (e_pending e) (e_pending_changes e))"

definition emit_pre_prepare ::
    "crypto \<Rightarrow> block \<Rightarrow> consensus_message list \<Rightarrow> step_state \<Rightarrow> step_state" where
  "emit_pre_prepare C b cert st =
     (let e = fst st;
          pre_prepare = message_create C PRE_PREPARE (e_height e) (e_round e) (block_hash C b)
                          (e_private_key e) (Some b) None [] cert
      in accept_proposal C b (emit pre_prepare st))"

definition maybe_propose_round0 :: "crypto \<Rightarrow> step_state \<Rightarrow> step_state" where
  "maybe_propose_round0 C st =
     (let e = fst st in
      if e_round e = 0 \<and> e_phase e = NEW_ROUND \<and> is_proposer C e
         \<and> (e_pending e \<noteq> [] \<or> e_pending_changes e \<noteq> [])
      then (case build_block C e of (e', b) \<Rightarrow> emit_pre_prepare C b [] (e', snd st))
      else st)"

definition set_pending ::
    "crypto \<Rightarrow> integrity_record list \<Rightarrow> validator_change list \<Rightarrow> engine \<Rightarrow> step_state" where
  "set_pending C rs cs e =
     maybe_propose_round0 C (e\<lparr>e_pending := rs, e_pending_changes := cs\<rparr>, empty_result)"

definition propose :: "crypto \<Rightarrow> integrity_record list \<Rightarrow> engine \<Rightarrow> step_state" where
  "propose C rs e = set_pending C rs [] e"


section \<open>Round change\<close>

definition send_round_change :: "crypto \<Rightarrow> int \<Rightarrow> step_state \<Rightarrow> step_state" where
  "send_round_change C target st =
     (let e = fst st in
      if target \<in> set (e_rc_sent e) then st
      else
        let (bh, blk, cert) = (case e_prepared_block e of
               Some b \<Rightarrow> (block_hash C b, Some b, e_prepared_cert e)
             | None \<Rightarrow> (ZERO_HASH, None, []));
            msg = message_create C ROUND_CHANGE (e_height e) target bh (e_private_key e) blk
                    (e_prepared_round e) cert []
        in emit msg
             (e\<lparr>e_rc_sent := target # e_rc_sent e,
                e_round_changes := dict_set2 target (public_to_hex (e_me C e)) msg (e_round_changes e)\<rparr>,
              snd st))"

fun replay_votes :: "crypto \<Rightarrow> consensus_message list \<Rightarrow> step_state \<Rightarrow> step_state" where
  "replay_votes C [] st = st"
| "replay_votes C (m # ms) st =
     replay_votes C ms
       (case m_type m of PREPARE \<Rightarrow> handle_prepare C m st | COMMIT \<Rightarrow> handle_commit C m st | _ \<Rightarrow> st)"

definition adopt_round :: "crypto \<Rightarrow> int \<Rightarrow> step_state \<Rightarrow> step_state" where
  "adopt_round C target st =
     (let e = fst st in
      if target \<le> e_round e then st
      else
        let replay = filter (\<lambda>m. m_round m = target) (e_buffer e);
            e' = (start_round target e)\<lparr>e_buffer := filter (\<lambda>m. m_round m > target) (e_buffer e)\<rparr>
        in replay_votes C replay (e', snd st))"

definition propose_for_round_change :: "crypto \<Rightarrow> int \<Rightarrow> step_state \<Rightarrow> step_state" where
  "propose_for_round_change C target st =
     (let e = fst st in
      if e_round e \<noteq> target \<or> e_phase e \<noteq> NEW_ROUND then st
      else if \<not> is_proposer C e then st
      else
        let cert = dict_values (dict_get_list (e_round_changes e) target);
            justified = snd (verify_round_change_cert C (e_validators e) (e_height e) cert target)
        in case justified of
             Some h \<Rightarrow> (case locked_block_from_cert C cert h of
                 None \<Rightarrow> st
               | Some b \<Rightarrow> emit_pre_prepare C b cert st)
           | None \<Rightarrow> (case build_block C e of (e', b) \<Rightarrow> emit_pre_prepare C b cert (e', snd st)))"

fun accelerate :: "crypto \<Rightarrow> int list \<Rightarrow> step_state \<Rightarrow> step_state \<times> bool" where
  \<comment> \<open>the loop over \<open>sorted(self._round_changes)\<close>; the flag is \<open>changed\<close>\<close>
  "accelerate C [] st = (st, False)"
| "accelerate C (t # ts) st =
     (let e = fst st in
      if t > e_round e \<and> t \<notin> set (e_rc_sent e)
         \<and> int (length (dict_get_list (e_round_changes e) t)) \<ge> max_faulty (e_validators e) + 1
      then (fst (accelerate C ts (send_round_change C t st)), True)
      else accelerate C ts st)"

definition best_target :: "engine \<Rightarrow> int option" where
  "best_target e =
     (let ts = filter (\<lambda>t. t > e_round e \<and>
                 int (length (dict_get_list (e_round_changes e) t)) \<ge> quorum (e_validators e))
               (dict_keys (e_round_changes e))
      in if ts = [] then None else Some (Max (set ts)))"

fun process_loop :: "nat \<Rightarrow> crypto \<Rightarrow> step_state \<Rightarrow> step_state" where
  \<comment> \<open>the bounded fixpoint of \<open>_process_round_changes\<close>\<close>
  "process_loop 0 C st = st"
| "process_loop (Suc n) C st =
     (let (st1, changed) = accelerate C (sort (dict_keys (e_round_changes (fst st)))) st in
      case best_target (fst st1) of
        Some best \<Rightarrow> process_loop n C (propose_for_round_change C best (adopt_round C best st1))
      | None \<Rightarrow> if changed then process_loop n C st1 else st1)"

definition process_round_changes :: "crypto \<Rightarrow> step_state \<Rightarrow> step_state" where
  "process_round_changes C st = process_loop (nat (vs_size (e_validators (fst st)) + 1)) C st"

definition handle_round_change :: "crypto \<Rightarrow> consensus_message \<Rightarrow> step_state \<Rightarrow> step_state" where
  "handle_round_change C m st =
     (let e = fst st in
      if m_round m \<le> e_round e then st
      else if \<not> valid_round_change C (e_validators e) (e_height e) m then st
      else process_round_changes C
             (e\<lparr>e_round_changes := dict_set2 (m_round m) (m_sender m) m (e_round_changes e)\<rparr>, snd st))"

fun ingest_round_change_cert :: "crypto \<Rightarrow> consensus_message list \<Rightarrow> engine \<Rightarrow> engine" where
  "ingest_round_change_cert C [] e = e"
| "ingest_round_change_cert C (m # ms) e =
     ingest_round_change_cert C ms
       (if authentic C (e_validators e) m \<and> valid_round_change C (e_validators e) (e_height e) m
        then e\<lparr>e_round_changes := dict_set2 (m_round m) (m_sender m) m (e_round_changes e)\<rparr> else e)"


section \<open>Message handling\<close>

definition handle_pre_prepare_current :: "crypto \<Rightarrow> consensus_message \<Rightarrow> step_state \<Rightarrow> step_state" where
  \<comment> \<open>\<open>_handle_pre_prepare\<close> from \<open>if msg.round != self.round\<close> on\<close>
  "handle_pre_prepare_current C m st =
     (let e = fst st in
      if m_round m \<noteq> e_round e \<or> e_phase e \<noteq> NEW_ROUND then st
      else if public_from_hex C (m_sender m) \<noteq> Inr (engine_proposer e) then st
      else case m_block m of
          None \<Rightarrow> st
        | Some b \<Rightarrow>
            if block_hash C b \<noteq> m_block_hash m then st
            else if \<not> structurally_valid C e b then st
            else if e_round e > 0 \<and> \<not> proposal_justified C e m then st
            else accept_proposal C b st)"

definition handle_pre_prepare :: "crypto \<Rightarrow> consensus_message \<Rightarrow> step_state \<Rightarrow> step_state" where
  "handle_pre_prepare C m st =
     (let e = fst st in
      if m_round m > e_round e then
        if \<not> fst (verify_round_change_cert C (e_validators e) (e_height e) (m_round_change_cert m) (m_round m))
        then st
        else handle_pre_prepare_current C m
               (adopt_round C (m_round m) (ingest_round_change_cert C (m_round_change_cert m) e, snd st))
      else handle_pre_prepare_current C m st)"

definition handle :: "crypto \<Rightarrow> consensus_message \<Rightarrow> engine \<Rightarrow> step_state" where
  "handle C m e =
     (let st = (e, empty_result) in
      if m_height m \<noteq> e_height e then st
      else if \<not> authentic C (e_validators e) m then st
      else case m_type m of
          ROUND_CHANGE \<Rightarrow> handle_round_change C m st
        | PRE_PREPARE \<Rightarrow> handle_pre_prepare C m st
        | PREPARE \<Rightarrow> handle_vote (handle_prepare C) m st
        | COMMIT \<Rightarrow> handle_vote (handle_commit C) m st)"

function next_target :: "int list \<Rightarrow> int \<Rightarrow> int" where
  "next_target sent t = (if t \<in> set sent then next_target sent (t + 1) else t)"
  by pat_completeness auto
termination
proof (relation "measure (\<lambda>(sent, t). card {x \<in> set sent. t \<le> x})")
  fix sent :: "int list" and t
  assume t: "t \<in> set sent"
  have "{x \<in> set sent. t + 1 \<le> x} \<subset> {x \<in> set sent. t \<le> x}" using t by force
  then show "((sent, t + 1), (sent, t)) \<in> measure (\<lambda>(sent, t). card {x \<in> set sent. t \<le> x})"
    by (simp add: psubset_card_mono)
qed simp

declare next_target.simps [simp del]

definition on_timeout :: "crypto \<Rightarrow> engine \<Rightarrow> step_state" where
  "on_timeout C e =
     (let st = (e, empty_result) in
      if committed e then st
      else process_round_changes C (send_round_change C (next_target (e_rc_sent e) (e_round e + 1)) st))"


section \<open>Finality\<close>

definition valid_seal :: "crypto \<Rightarrow> validator_set \<Rightarrow> string \<Rightarrow> string \<times> string \<Rightarrow> bool" where
  \<comment> \<open>the body of the loop of \<open>verify_finality\<close> counts this entry\<close>
  "valid_seal C S bh p =
     (case (public_from_hex C (fst p), bytes_fromhex (snd p)) of
        (Inr key, Inr seal) \<Rightarrow> contains S key \<and> public_verify C key seal bh
      | _ \<Rightarrow> False)"

definition verify_finality :: "crypto \<Rightarrow> block \<Rightarrow> validator_set \<Rightarrow> bool" where
  "verify_finality C b S =
     (int (length (filter (valid_seal C S (block_hash C b)) (commit_signatures b))) \<ge> quorum S)"

end
