(* ===== verification/Engine_Steps.thy ===== *)
theory Engine_Steps
  imports Engine
begin

text \<open>
  The structure shared by all proofs about the consensus engine. A handler is composed of a
  dozen primitive state changes, each made under guards the handler has checked. The locale
  \<open>engine_steps\<close> states, for a reflexive and transitive relation on step states, what each
  primitive change has to satisfy under its guards, and proves that then every entry point
  (\<open>set_pending\<close>, \<open>handle\<close>, \<open>on_timeout\<close>) satisfies it. Invariants, monotonicity and
  the facts about broadcast messages are interpretations of this locale.
\<close>

section \<open>Frame\<close>

definition static :: "engine \<Rightarrow> validator_set \<times> private_key \<times> int \<times> string" where
  \<comment> \<open>what no method of the engine changes\<close>
  "static e = (e_validators e, e_private_key e, e_height e, e_previous_hash e)"

definition position :: "engine \<Rightarrow> int \<times> consensus_message list \<times> (int, (string, consensus_message) dict) dict \<times> int list" where
  \<comment> \<open>what voting does not change\<close>
  "position e = (e_round e, e_buffer e, e_round_changes e, e_rc_sent e)"

named_theorems frame \<open>which parts of the state an operation leaves alone\<close>

lemma emit_frame [frame]: "fst (emit m st) = fst st"
  by (simp add: emit_def)

lemma record_prepare_frame [frame]:
  "static (record_prepare m e) = static e" "position (record_prepare m e) = position e"
  by (simp_all add: record_prepare_def static_def position_def)

lemma try_prepare_frame [frame]:
  "static (fst (try_prepare C p st)) = static (fst st)"
  "position (fst (try_prepare C p st)) = position (fst st)"
  "e_proposal (fst (try_prepare C p st)) = e_proposal (fst st)"
  by (simp_all add: try_prepare_def Let_def static_def position_def emit_def)

lemma try_commit_frame [frame]:
  "static (fst (try_commit C p st)) = static (fst st)"
  "position (fst (try_commit C p st)) = position (fst st)"
  by (simp_all add: try_commit_def Let_def static_def position_def)

lemma maybe_advance_frame [frame]:
  "static (fst (maybe_advance C st)) = static (fst st)"
  "position (fst (maybe_advance C st)) = position (fst st)"
  by (simp_all add: maybe_advance_def frame split: option.splits)

lemma cast_prepare_frame [frame]:
  "static (fst (cast_prepare C b st)) = static (fst st)"
  "position (fst (cast_prepare C b st)) = position (fst st)"
  by (simp_all add: cast_prepare_def Let_def frame) (simp_all add: static_def position_def)

lemma accept_proposal_frame [frame]:
  "static (fst (accept_proposal C b st)) = static (fst st)"
  "position (fst (accept_proposal C b st)) = position (fst st)"
  by (simp_all add: accept_proposal_def Let_def frame)

lemma handle_prepare_frame [frame]:
  "static (fst (handle_prepare C m st)) = static (fst st)"
  "position (fst (handle_prepare C m st)) = position (fst st)"
  by (simp_all add: handle_prepare_def frame)

lemma handle_commit_frame [frame]:
  "static (fst (handle_commit C m st)) = static (fst st)"
  "position (fst (handle_commit C m st)) = position (fst st)"
  by (simp_all add: handle_commit_def frame Let_def) (simp_all add: static_def position_def)

lemma emit_pre_prepare_frame [frame]:
  "static (fst (emit_pre_prepare C b cert st)) = static (fst st)"
  "position (fst (emit_pre_prepare C b cert st)) = position (fst st)"
  by (simp_all add: emit_pre_prepare_def Let_def frame)

lemma replay_votes_frame [frame]:
  "static (fst (replay_votes C ms st)) = static (fst st)"
  "position (fst (replay_votes C ms st)) = position (fst st)"
  by (induction C ms st rule: replay_votes.induct) (simp_all add: frame split: message_type.splits)

lemma adopt_round_static [frame]: "static (fst (adopt_round C t st)) = static (fst st)"
  by (simp add: adopt_round_def Let_def frame) (simp add: static_def start_round_def)

lemma send_round_change_static [frame]: "static (fst (send_round_change C t st)) = static (fst st)"
  by (simp add: send_round_change_def Let_def frame split: option.splits) (simp add: static_def)

lemma send_round_change_round [frame]: "e_round (fst (send_round_change C t st)) = e_round (fst st)"
  "e_buffer (fst (send_round_change C t st)) = e_buffer (fst st)"
  by (simp_all add: send_round_change_def Let_def frame split: option.splits)

lemma propose_for_round_change_frame [frame]:
  "static (fst (propose_for_round_change C t st)) = static (fst st)"
  "position (fst (propose_for_round_change C t st)) = position (fst st)"
  by (simp_all add: propose_for_round_change_def build_block_def Let_def frame split: option.splits)
    (simp_all add: static_def position_def)

lemma ingest_static [frame]:
  "static (ingest_round_change_cert C ms e) = static e"
  "e_round (ingest_round_change_cert C ms e) = e_round e"
  "e_buffer (ingest_round_change_cert C ms e) = e_buffer e"
  by (induction C ms e rule: ingest_round_change_cert.induct) (simp_all, simp_all add: static_def)

lemma staticD:
  assumes "static a = static b"
  shows "e_validators a = e_validators b" "e_private_key a = e_private_key b"
    "e_height a = e_height b" "e_previous_hash a = e_previous_hash b" "e_me C a = e_me C b"
  using assms by (simp_all add: static_def e_me_def)

lemma positionD:
  assumes "position a = position b"
  shows "e_round a = e_round b" "e_buffer a = e_buffer b" "e_round_changes a = e_round_changes b"
    "e_rc_sent a = e_rc_sent b"
  using assms by (simp_all add: position_def)


section \<open>Vetted messages\<close>

definition vetted :: "crypto \<Rightarrow> engine \<Rightarrow> consensus_message \<Rightarrow> bool" where
  \<comment> \<open>what \<open>handle\<close> has checked of every message it passes on\<close>
  "vetted C e m \<longleftrightarrow> m_height m = e_height e \<and> authentic C (e_validators e) m"

definition buffer_ok :: "crypto \<Rightarrow> (consensus_message \<Rightarrow> bool) \<Rightarrow> engine \<Rightarrow> bool" where
  \<comment> \<open>what was checked before a vote was buffered\<close>
  "buffer_ok C ok e \<longleftrightarrow> (\<forall>m \<in> set (e_buffer e).
     vetted C e m \<and> ok m \<and> m_type m \<in> {PREPARE, COMMIT} \<and> m_round m > e_round e)"

definition deliverable :: "(consensus_message \<Rightarrow> bool) \<Rightarrow> consensus_message \<Rightarrow> bool" where
  \<comment> \<open>a proposal itself is not recorded, the round changes it carries are\<close>
  "deliverable ok m \<longleftrightarrow> (m_type m \<noteq> PRE_PREPARE \<longrightarrow> ok m) \<and> (\<forall>x \<in> set (m_round_change_cert m). ok x)"

lemma vetted_static: "static a = static b \<Longrightarrow> vetted C a m = vetted C b m"
  by (simp add: vetted_def staticD(1,3) [of a b])

lemma buffer_ok_frame:
  "static a = static b \<Longrightarrow> e_buffer a = e_buffer b \<Longrightarrow> e_round a = e_round b \<Longrightarrow> buffer_ok C ok a = buffer_ok C ok b"
  using vetted_static [of a b C] by (simp add: buffer_ok_def)

text \<open>Where an accepted proposal comes from: it was checked, or it is the block of a proved lock.\<close>

definition relocked :: "crypto \<Rightarrow> engine \<Rightarrow> block \<Rightarrow> bool" where
  "relocked C e b \<longleftrightarrow>
     (let cert = dict_values (dict_get_list (e_round_changes e) (e_round e)) in
      \<exists>h. snd (verify_round_change_cert C (e_validators e) (e_height e) cert (e_round e)) = Some h \<and>
          locked_block_from_cert C cert h = Some b)"

definition sourced :: "crypto \<Rightarrow> engine \<Rightarrow> block \<Rightarrow> bool" where
  "sourced C e b \<longleftrightarrow> structurally_valid C e b \<or> relocked C e b"

lemma built_valid: "structurally_valid C (fst (build_block C e)) (snd (build_block C e))"
  by (simp add: structurally_valid_def build_block_def block_create_consistent)
    (simp add: block_create_def block_index_def)

section \<open>The buffer\<close>

lemma buffer_ok_adopted:
  assumes "buffer_ok C ok (fst st)"
  shows "buffer_ok C ok (fst (adopt_round C t st))"
proof (cases "t \<le> e_round (fst st)")
  case False
  let ?e = "(start_round t (fst st))\<lparr>e_buffer := filter (\<lambda>m. m_round m > t) (e_buffer (fst st))\<rparr>"
  have "static ?e = static (fst st)" by (simp add: static_def start_round_def)
  then have "vetted C ?e m = vetted C (fst st) m" for m by (rule vetted_static)
  then have "buffer_ok C ok ?e" using assms by (simp add: buffer_ok_def) (simp add: start_round_def)
  then show ?thesis
    using False by (simp add: adopt_round_def Let_def buffer_ok_frame [OF replay_votes_frame(1)]
        positionD [OF replay_votes_frame(2)])
qed (use assms in \<open>simp add: adopt_round_def\<close>)


section \<open>Steps\<close>

locale engine_steps =
  fixes C :: crypto and ok :: "consensus_message \<Rightarrow> bool" and R :: "step_state \<Rightarrow> step_state \<Rightarrow> bool"
  assumes refl: "R st st"
    and trans: "R s1 s2 \<Longrightarrow> R s2 s3 \<Longrightarrow> R s1 s3"
    and pending: "R (e, r) (e\<lparr>e_pending := rs, e_pending_changes := cs\<rparr>, r)"
    and clock: "R (e, r) (e\<lparr>e_clock_reads := Suc (e_clock_reads e)\<rparr>, r)"
    and prepare: "m_type m = PREPARE \<Longrightarrow> vetted C e m \<Longrightarrow> ok m \<Longrightarrow> m_round m = e_round e \<Longrightarrow>
      R (e, r) (record_prepare m e, r)"
    and commit: "m_type m = COMMIT \<Longrightarrow> vetted C e m \<Longrightarrow> ok m \<Longrightarrow> m_round m = e_round e \<Longrightarrow>
      valid_commit_seal C m \<Longrightarrow>
      R (e, r) (e\<lparr>e_commits := dict_set2 (m_block_hash m) (m_sender m) (the (m_commit_seal m)) (e_commits e)\<rparr>, r)"
    and lock: "e_proposal (fst st) = Some p \<Longrightarrow> R st (try_prepare C p st)"
    and final: "e_proposal (fst st) = Some p \<Longrightarrow> R st (try_commit C p st)"
    and cast: "e_phase (fst st) = NEW_ROUND \<Longrightarrow> sourced C (fst st) b \<Longrightarrow>
      voted_hash (e_journal (fst st)) (e_round (fst st)) J_PREPARE \<in> {None, Some (block_hash C b)} \<Longrightarrow>
      R st (cast_prepare C b st)"
    and pre_prepare: "e_phase e = NEW_ROUND \<Longrightarrow> is_proposer C e \<Longrightarrow>
      R (e, r) (emit (message_create C PRE_PREPARE (e_height e) (e_round e) (block_hash C b)
        (e_private_key e) (Some b) None [] cert) (e, r))"
    and round_change: "t > e_round (fst st) \<Longrightarrow> R st (send_round_change C t st)"
    and adopt: "t > e_round e \<Longrightarrow>
      R (e, r) ((start_round t e)\<lparr>e_buffer := filter (\<lambda>m. m_round m > t) (e_buffer e)\<rparr>, r)"
    and store: "authentic C (e_validators e) m \<Longrightarrow> ok m \<Longrightarrow> valid_round_change C (e_validators e) (e_height e) m \<Longrightarrow>
      R (e, r) (e\<lparr>e_round_changes := dict_set2 (m_round m) (m_sender m) m (e_round_changes e)\<rparr>, r)"
    and buffer: "m_type m \<in> {PREPARE, COMMIT} \<Longrightarrow> vetted C e m \<Longrightarrow> ok m \<Longrightarrow> m_round m > e_round e \<Longrightarrow>
      R (e, r) (e\<lparr>e_buffer := e_buffer e @ [m]\<rparr>, r)"
begin

lemma advance: "R st (maybe_advance C st)"
proof (cases "e_proposal (fst st)")
  case (Some p)
  then have "R st (try_prepare C p st)" "R (try_prepare C p st) (try_commit C p (try_prepare C p st))"
    by (auto intro: lock final simp: frame)
  with Some show ?thesis by (simp add: maybe_advance_def) (rule trans)
qed (simp add: maybe_advance_def refl)

lemma accept: "e_phase (fst st) = NEW_ROUND \<Longrightarrow> sourced C (fst st) b \<Longrightarrow> R st (accept_proposal C b st)"
  using cast [of st b] advance [of "cast_prepare C b st"]
  by (auto simp: accept_proposal_def Let_def refl intro: trans)

lemma prepared_vote:
  "m_type m = PREPARE \<Longrightarrow> vetted C (fst st) m \<Longrightarrow> ok m \<Longrightarrow> m_round m = e_round (fst st) \<Longrightarrow> R st (handle_prepare C m st)"
  using prepare [of m "fst st" "snd st"] advance [of "(record_prepare m (fst st), snd st)"]
  by (simp add: handle_prepare_def) (rule trans)

lemma commit_vote:
  "m_type m = COMMIT \<Longrightarrow> vetted C (fst st) m \<Longrightarrow> ok m \<Longrightarrow> m_round m = e_round (fst st) \<Longrightarrow> R st (handle_commit C m st)"
  using commit [of m "fst st" "snd st"]
    advance [of "(fst st\<lparr>e_commits := dict_set2 (m_block_hash m) (m_sender m) (the (m_commit_seal m)) (e_commits (fst st))\<rparr>, snd st)"]
  by (cases "valid_commit_seal C m") (auto simp: handle_commit_def refl Let_def intro: trans)

lemma replay:
  "\<forall>m \<in> set ms. vetted C (fst st) m \<and> ok m \<and> m_round m = e_round (fst st) \<Longrightarrow> R st (replay_votes C ms st)"
proof (induction ms arbitrary: st)
  case (Cons m ms)
  let ?st = "case m_type m of PREPARE \<Rightarrow> handle_prepare C m st | COMMIT \<Rightarrow> handle_commit C m st | _ \<Rightarrow> st"
  have step: "R st ?st"
    using Cons.prems prepared_vote [of m st] commit_vote [of m st] by (cases "m_type m") (simp_all add: refl)
  have f: "static (fst ?st) = static (fst st)" "position (fst ?st) = position (fst st)"
    by (simp_all add: frame split: message_type.splits)
  have "R ?st (replay_votes C ms ?st)"
    by (rule Cons.IH) (use Cons.prems vetted_static [OF f(1)] positionD [OF f(2)] in auto)
  with step have "R st (replay_votes C ms ?st)" by (rule trans)
  then show ?case by simp
qed (simp add: refl)

lemma adopted:
  assumes "buffer_ok C ok (fst st)"
  shows "R st (adopt_round C t st)"
proof (cases "t \<le> e_round (fst st)")
  case False
  let ?e = "(start_round t (fst st))\<lparr>e_buffer := filter (\<lambda>m. m_round m > t) (e_buffer (fst st))\<rparr>"
  have s: "static ?e = static (fst st)" by (simp add: static_def start_round_def)
  have "R st (?e, snd st)" using adopt [of "fst st" t "snd st"] False by simp
  moreover have "R (?e, snd st) (replay_votes C (filter (\<lambda>m. m_round m = t) (e_buffer (fst st))) (?e, snd st))"
  proof (rule replay, intro ballI)
    fix m assume m: "m \<in> set (filter (\<lambda>m. m_round m = t) (e_buffer (fst st)))"
    have "e_round ?e = t" by (simp add: start_round_def)
    moreover have "vetted C (fst st) m" "ok m" "m_round m = t" using m assms by (auto simp: buffer_ok_def)
    ultimately show "vetted C (fst (?e, snd st)) m \<and> ok m \<and> m_round m = e_round (fst (?e, snd st))"
      using vetted_static [OF s, of C m] by simp
  qed
  ultimately have "R st (replay_votes C (filter (\<lambda>m. m_round m = t) (e_buffer (fst st))) (?e, snd st))"
    by (rule trans)
  then show ?thesis using False by (simp add: adopt_round_def Let_def)
qed (simp add: adopt_round_def refl)

lemma proposed:
  assumes "e_phase (fst st) = NEW_ROUND" "is_proposer C (fst st)" "sourced C (fst st) b"
  shows "R st (emit_pre_prepare C b cert st)"
  using pre_prepare [OF assms(1,2), of "snd st" b cert] accept [of "emit _ st" b] assms
  by (auto simp: emit_pre_prepare_def Let_def frame intro: trans)

lemma built:
  assumes "e_phase (fst st) = NEW_ROUND" "is_proposer C (fst st)"
  shows "R st (case build_block C (fst st) of (e', b) \<Rightarrow> emit_pre_prepare C b cert (e', snd st))"
proof -
  let ?e = "fst st\<lparr>e_clock_reads := Suc (e_clock_reads (fst st))\<rparr>"
  have "is_proposer C ?e" using assms by (simp add: is_proposer_def e_me_def engine_proposer_def)
  then have "R (fst (build_block C (fst st)), snd st)
      (emit_pre_prepare C (snd (build_block C (fst st))) cert (fst (build_block C (fst st)), snd st))"
    using assms built_valid [of C "fst st"] by (intro proposed) (simp_all add: build_block_def sourced_def)
  then show ?thesis using clock [of "fst st" "snd st"] by (auto simp: build_block_def intro: trans)
qed

lemma proposed_round0: "R st (maybe_propose_round0 C st)"
  using built by (auto simp: maybe_propose_round0_def Let_def refl)

lemma proposed_round_change: "R st (propose_for_round_change C t st)"
  using proposed [of st] built [of st]
  by (auto simp: propose_for_round_change_def Let_def refl sourced_def relocked_def split: option.splits)

lemma accelerated: "R st (fst (accelerate C ts st)) \<and> static (fst (fst (accelerate C ts st))) = static (fst st) \<and>
    e_round (fst (fst (accelerate C ts st))) = e_round (fst st) \<and> e_buffer (fst (fst (accelerate C ts st))) = e_buffer (fst st)"
proof (induction ts arbitrary: st)
  case (Cons t ts)
  show ?case
    using Cons.IH [of st] Cons.IH [of "send_round_change C t st"] trans [OF round_change [of st t]]
    by (simp add: Let_def frame)
qed (simp add: refl)

lemma looped: "buffer_ok C ok (fst st) \<Longrightarrow> R st (process_loop n C st)"
proof (induction n arbitrary: st)
  case (Suc n)
  let ?a = "accelerate C (sort (dict_keys (e_round_changes (fst st)))) st"
  have a: "R st (fst ?a)" "buffer_ok C ok (fst (fst ?a))"
    using accelerated [of st] Suc.prems buffer_ok_frame [of "fst (fst ?a)" "fst st" C ok] by auto
  have "R (fst ?a) (process_loop n C (propose_for_round_change C best (adopt_round C best (fst ?a))))" for best
  proof -
    let ?b = "adopt_round C best (fst ?a)"
    have b: "R (fst ?a) ?b" "buffer_ok C ok (fst ?b)" using adopted buffer_ok_adopted a by blast+
    then have "buffer_ok C ok (fst (propose_for_round_change C best ?b))"
      by (simp add: buffer_ok_frame [OF propose_for_round_change_frame(1)]
          positionD [OF propose_for_round_change_frame(2)])
    from Suc.IH [OF this] show ?thesis by (rule trans [OF trans [OF b(1) proposed_round_change]])
  qed
  then have "R st (process_loop n C (propose_for_round_change C best (adopt_round C best (fst ?a))))" for best
    using a(1) by (rule trans [rotated])
  moreover have "R st (process_loop n C (fst ?a))" using trans [OF a(1) Suc.IH [OF a(2)]] .
  ultimately show ?case
    using a(1) by (simp add: Let_def case_prod_beta split: option.splits)
qed (simp add: refl)

lemma processed: "buffer_ok C ok (fst st) \<Longrightarrow> R st (process_round_changes C st)"
  by (simp add: process_round_changes_def looped)

lemma ingested:
  "\<forall>m \<in> set ms. ok m \<Longrightarrow> R (e, r) (ingest_round_change_cert C ms e, r)"
proof (induction ms arbitrary: e)
  case (Cons m ms)
  then show ?case using store [of e m r] by (auto intro: trans)
qed (simp add: refl)

lemma pre_prepared_current: "R st (handle_pre_prepare_current C m st)"
  using accept [of st] by (auto simp: handle_pre_prepare_current_def Let_def refl sourced_def split: option.splits)

lemma pre_prepared:
  assumes "buffer_ok C ok (fst st)" "deliverable ok m"
  shows "R st (handle_pre_prepare C m st)"
proof -
  let ?e = "ingest_round_change_cert C (m_round_change_cert m) (fst st)"
  have "R st (?e, snd st)"
    using ingested [of "m_round_change_cert m" "fst st" "snd st"] assms(2) by (simp add: deliverable_def)
  moreover have "R (?e, snd st) (adopt_round C (m_round m) (?e, snd st))"
    by (rule adopted) (use assms(1) buffer_ok_frame [of ?e "fst st" C ok] in \<open>simp add: frame\<close>)
  ultimately have "R st (handle_pre_prepare_current C m (adopt_round C (m_round m) (?e, snd st)))"
    by (meson pre_prepared_current trans)
  then show ?thesis by (simp add: handle_pre_prepare_def Let_def refl pre_prepared_current)
qed

theorem handled:
  assumes "buffer_ok C ok e" "deliverable ok m"
  shows "R (e, empty_result) (handle C m e)"
proof -
  have ok: "m_type m \<noteq> PRE_PREPARE \<Longrightarrow> ok m" using assms(2) by (simp add: deliverable_def)
  have rc: "R (e, empty_result) (handle_round_change C m (e, empty_result))" if "authentic C (e_validators e) m" "m_type m = ROUND_CHANGE"
  proof -
    let ?e = "e\<lparr>e_round_changes := dict_set2 (m_round m) (m_sender m) m (e_round_changes e)\<rparr>"
    have "buffer_ok C ok ?e" using assms(1) by (simp add: buffer_ok_def vetted_def)
    then show ?thesis
      using store [OF that(1) ok, of empty_result] that(2) processed [of "(?e, empty_result)"]
      by (auto simp: handle_round_change_def Let_def refl intro: trans)
  qed
  show ?thesis
  proof (cases "m_height m = e_height e \<and> authentic C (e_validators e) m")
    case True
    then have v: "vetted C e m" by (simp add: vetted_def)
    have "R (e, empty_result) (handle_vote (handle_prepare C) m (e, empty_result))" if "m_type m = PREPARE"
      using that v ok prepared_vote [of m "(e, empty_result)"] buffer [of m e empty_result]
      by (simp add: handle_vote_def Let_def refl)
    moreover have "R (e, empty_result) (handle_vote (handle_commit C) m (e, empty_result))" if "m_type m = COMMIT"
      using that v ok commit_vote [of m "(e, empty_result)"] buffer [of m e empty_result]
      by (simp add: handle_vote_def Let_def refl)
    moreover have "R (e, empty_result) (handle_pre_prepare C m (e, empty_result))"
      using pre_prepared [of "(e, empty_result)" m] assms by simp
    ultimately show ?thesis using True rc by (cases "m_type m") (simp_all add: handle_def)
  qed (auto simp: handle_def Let_def refl)
qed

lemma next_target_bound: "t \<le> next_target sent t"
  by (induction sent t rule: next_target.induct) (subst next_target.simps, force)

theorem timed_out: "buffer_ok C ok e \<Longrightarrow> R (e, empty_result) (on_timeout C e)"
proof -
  assume b: "buffer_ok C ok e"
  let ?t = "next_target (e_rc_sent e) (e_round e + 1)"
  let ?st = "send_round_change C ?t (e, empty_result)"
  have "R (e, empty_result) ?st"
    using round_change [of "(e, empty_result)" ?t] next_target_bound [of "e_round e + 1" "e_rc_sent e"] by simp
  moreover have "R ?st (process_round_changes C ?st)"
    by (rule processed) (use b buffer_ok_frame [of "fst ?st" e C ok] in \<open>simp add: frame\<close>)
  ultimately show ?thesis by (auto simp: on_timeout_def Let_def refl intro: trans)
qed

theorem submitted: "R (e, empty_result) (set_pending C rs cs e)"
  using trans [OF pending proposed_round0] by (simp add: set_pending_def)

end

end
