(* ===== verification/Engine_Invariant.thy ===== *)
theory Engine_Invariant
  imports Engine_Steps
begin

text \<open>
  The invariant of the consensus engine, and what its steps guarantee. The invariant says
  what is known of every recorded vote, seal and certificate; \<open>evolves\<close> says what a step
  does to the parts others rely on: constants stay, rounds never decrease, journaled votes
  are never overwritten, every broadcast vote is journaled, and a finalized block carries its
  quorums. Both are established for all entry points by one interpretation of
  \<open>engine_steps\<close>.

  The predicate \<open>ok\<close> on received messages is a parameter: what is assumed of the messages
  delivered is known of the recorded ones.
\<close>

section \<open>Definitions\<close>

fun phase_name :: "message_type \<Rightarrow> string" where
  \<comment> \<open>under which phase the journal files a vote\<close>
  "phase_name PREPARE = J_PREPARE"
| "phase_name COMMIT = J_COMMIT"
| "phase_name _ = []"

definition own_vote :: "crypto \<Rightarrow> engine \<Rightarrow> consensus_message \<Rightarrow> bool" where
  "own_vote C e m \<longleftrightarrow> m_sender m = public_to_hex (e_me C e) \<and> (journal_ok (e_journal e) \<longrightarrow>
     voted_hash (e_journal e) (m_round m) (phase_name (m_type m)) = Some (m_block_hash m))"

definition vote_for :: "crypto \<Rightarrow> (consensus_message \<Rightarrow> bool) \<Rightarrow> engine \<Rightarrow> message_type \<Rightarrow> int \<Rightarrow> string
    \<Rightarrow> consensus_message \<Rightarrow> bool" where
  "vote_for C ok e t r h m \<longleftrightarrow> m_type m = t \<and> vetted C e m \<and> m_round m = r \<and> m_block_hash m = h \<and>
     (ok m \<or> own_vote C e m)"

definition prepares_ok :: "crypto \<Rightarrow> (consensus_message \<Rightarrow> bool) \<Rightarrow> engine \<Rightarrow> bool" where
  "prepares_ok C ok e \<longleftrightarrow> (\<forall>h. dict_ok (dict_get_list (e_prepares e) h) \<and>
     (\<forall>(s, m) \<in> set (dict_get_list (e_prepares e) h). m_sender m = s \<and> vote_for C ok e PREPARE (e_round e) h m))"

definition seal_ok :: "crypto \<Rightarrow> (consensus_message \<Rightarrow> bool) \<Rightarrow> engine \<Rightarrow> int \<Rightarrow> string \<Rightarrow> string \<times> string \<Rightarrow> bool" where
  "seal_ok C ok e r h p \<longleftrightarrow> (\<exists>m. m_sender m = fst p \<and> m_commit_seal m = Some (snd p) \<and>
     valid_commit_seal C m \<and> vote_for C ok e COMMIT r h m)"

definition seals_ok :: "crypto \<Rightarrow> (consensus_message \<Rightarrow> bool) \<Rightarrow> engine \<Rightarrow> int \<Rightarrow> string \<Rightarrow> (string, string) dict \<Rightarrow> bool" where
  "seals_ok C ok e r h d \<longleftrightarrow> dict_ok d \<and> (\<forall>p \<in> set d. seal_ok C ok e r h p)"

definition cert_ok :: "crypto \<Rightarrow> (consensus_message \<Rightarrow> bool) \<Rightarrow> engine \<Rightarrow> int \<Rightarrow> string
    \<Rightarrow> consensus_message list \<Rightarrow> bool" where
  "cert_ok C ok e r h cert \<longleftrightarrow> distinct (map m_sender cert) \<and>
     quorum (e_validators e) \<le> int (length cert) \<and> (\<forall>m \<in> set cert. vote_for C ok e PREPARE r h m)"

definition journal_wf :: "vote_journal \<Rightarrow> bool" where
  "journal_wf j \<longleftrightarrow> j = NullVoteJournal \<or> journal_ok j"

definition lock_ok :: "crypto \<Rightarrow> (consensus_message \<Rightarrow> bool) \<Rightarrow> engine \<Rightarrow> bool" where
  "lock_ok C ok e \<longleftrightarrow> (case e_prepared_round e of
     None \<Rightarrow> e_prepared_block e = None
   | Some r \<Rightarrow> (\<exists>b. e_prepared_block e = Some b \<and> cert_ok C ok e r (block_hash C b) (e_prepared_cert e)))"

definition lock_journaled :: "crypto \<Rightarrow> engine \<Rightarrow> bool" where
  \<comment> \<open>the journal holds the lock, up to the commit signatures of the block\<close>
  "lock_journaled C e \<longleftrightarrow> (case prepared_lock (e_journal e) of
     None \<Rightarrow> e_prepared_round e = None
   | Some (r, b, cert) \<Rightarrow> e_prepared_round e = Some r \<and> e_prepared_cert e = cert \<and>
       map_option (block_hash C) (e_prepared_block e) = Some (block_hash C b))"

definition setup_ok :: "crypto \<Rightarrow> engine \<Rightarrow> bool" where
  "setup_ok C e \<longleftrightarrow> ed25519_correct C \<and> private_ok (e_private_key e) \<and> vs_ok (e_validators e) \<and>
     contains (e_validators e) (e_me C e)"

definition phase_ok :: "engine \<Rightarrow> bool" where
  "phase_ok e \<longleftrightarrow> (e_phase e = NEW_ROUND) = (e_proposal e = None) \<and>
     (e_phase e \<in> {PREPARED, COMMITTED} \<longrightarrow>
        e_prepared_round e = Some (e_round e) \<and> e_prepared_block e = e_proposal e)"

definition engine_ok :: "crypto \<Rightarrow> (consensus_message \<Rightarrow> bool) \<Rightarrow> engine \<Rightarrow> bool" where
  "engine_ok C ok e \<longleftrightarrow> setup_ok C e \<and> 0 \<le> e_round e \<and> phase_ok e \<and> buffer_ok C ok e \<and>
     prepares_ok C ok e \<and> (\<forall>h. seals_ok C ok e (e_round e) h (dict_get_list (e_commits e) h)) \<and>
     lock_ok C ok e \<and> journal_wf (e_journal e) \<and> (journal_ok (e_journal e) \<longrightarrow> lock_journaled C e)"

text \<open>What a step guarantees.\<close>

definition grows :: "engine \<Rightarrow> engine \<Rightarrow> bool" where
  "grows e e' \<longleftrightarrow> static e' = static e \<and> journal_ok (e_journal e') = journal_ok (e_journal e) \<and>
     (\<forall>r p h. voted_hash (e_journal e) r p = Some h \<longrightarrow> voted_hash (e_journal e') r p = Some h)"

definition sent_ok :: "crypto \<Rightarrow> (consensus_message \<Rightarrow> bool) \<Rightarrow> engine \<Rightarrow> consensus_message \<Rightarrow> bool" where
  \<comment> \<open>signed with the engine's key for its height; a vote is journaled; a COMMIT has a quorum of
    PREPAREs behind it; a round change proves its lock\<close>
  "sent_ok C ok e m \<longleftrightarrow>
     (\<exists>t r h blk pr pc rcc. m = message_create C t (e_height e) r h (e_private_key e) blk pr pc rcc) \<and>
     (m_type m \<in> {PREPARE, COMMIT} \<longrightarrow> own_vote C e m) \<and>
     (m_type m = COMMIT \<longrightarrow> (\<exists>cert. cert_ok C ok e (m_round m) (m_block_hash m) cert)) \<and>
     (m_type m = ROUND_CHANGE \<longrightarrow> valid_round_change C (e_validators e) (e_height e) m)"

definition decided :: "crypto \<Rightarrow> (consensus_message \<Rightarrow> bool) \<Rightarrow> engine \<Rightarrow> block \<Rightarrow> bool" where
  \<comment> \<open>a finalized block with the quorums of PREPAREs and COMMITs of one round behind it\<close>
  "decided C ok e b \<longleftrightarrow> (\<exists>r p cs cert. b = finalize C p cs \<and> seals_ok C ok e r (block_hash C p) cs \<and>
     quorum (e_validators e) \<le> int (length cs) \<and> cert_ok C ok e r (block_hash C p) cert)"

definition evolves :: "crypto \<Rightarrow> (consensus_message \<Rightarrow> bool) \<Rightarrow> step_state \<Rightarrow> step_state \<Rightarrow> bool" where
  "evolves C ok a b \<longleftrightarrow> grows (fst a) (fst b) \<and> e_round (fst a) \<le> e_round (fst b) \<and>
     (\<exists>new. broadcast (snd b) = broadcast (snd a) @ new \<and> (\<forall>m \<in> set new. sent_ok C ok (fst b) m)) \<and>
     (committed_block (snd b) = committed_block (snd a) \<or>
       (\<exists>blk. committed_block (snd b) = Some blk \<and> decided C ok (fst b) blk))"

definition step_ok :: "crypto \<Rightarrow> (consensus_message \<Rightarrow> bool) \<Rightarrow> step_state \<Rightarrow> step_state \<Rightarrow> bool" where
  "step_ok C ok a b \<longleftrightarrow> (engine_ok C ok (fst a) \<longrightarrow> engine_ok C ok (fst b) \<and> evolves C ok a b)"


section \<open>Growth\<close>

lemma grows_refl [simp]: "grows e e"
  by (simp add: grows_def)

lemma grows_trans: "grows a b \<Longrightarrow> grows b c \<Longrightarrow> grows a c"
  by (simp add: grows_def)

lemma growsD:
  assumes "grows e e'"
  shows "static e' = static e" "e_validators e' = e_validators e" "e_height e' = e_height e"
    "e_private_key e' = e_private_key e" "e_me C e' = e_me C e" "vetted C e' m = vetted C e m"
  using assms staticD [of e' e] vetted_static [of e' e C m] by (simp_all add: grows_def)

lemma own_vote_grows: "grows e e' \<Longrightarrow> own_vote C e m \<Longrightarrow> own_vote C e' m"
  using growsD(5) [of e e' C] by (auto simp: own_vote_def grows_def)

lemma vote_for_grows: "grows e e' \<Longrightarrow> vote_for C ok e t r h m \<Longrightarrow> vote_for C ok e' t r h m"
  using growsD(6) [of e e' C m] own_vote_grows [of e e' C m] by (auto simp: vote_for_def)

lemma seals_ok_grows: "grows e e' \<Longrightarrow> seals_ok C ok e r h d \<Longrightarrow> seals_ok C ok e' r h d"
  using vote_for_grows [of e e' C ok] by (force simp: seals_ok_def seal_ok_def)

lemma cert_ok_grows: "grows e e' \<Longrightarrow> cert_ok C ok e r h cert \<Longrightarrow> cert_ok C ok e' r h cert"
  using vote_for_grows [of e e' C ok] growsD(2) [of e e'] by (auto simp: cert_ok_def)

lemma sent_ok_grows: "grows e e' \<Longrightarrow> sent_ok C ok e m \<Longrightarrow> sent_ok C ok e' m"
  using own_vote_grows [of e e' C m] cert_ok_grows [of e e' C ok] growsD [of e e']
  unfolding sent_ok_def by (metis (no_types))

lemma decided_grows: "grows e e' \<Longrightarrow> decided C ok e b \<Longrightarrow> decided C ok e' b"
  using seals_ok_grows [of e e' C ok] cert_ok_grows [of e e' C ok] growsD(2) [of e e']
  unfolding decided_def by (metis (no_types))

lemma evolves_refl: "evolves C ok a a"
  by (simp add: evolves_def)

lemma evolves_trans:
  assumes "evolves C ok a b" "evolves C ok b c"
  shows "evolves C ok a c"
proof -
  have g: "grows (fst a) (fst b)" "grows (fst b) (fst c)" using assms by (simp_all add: evolves_def)
  obtain n1 n2 where n: "broadcast (snd b) = broadcast (snd a) @ n1" "\<forall>m \<in> set n1. sent_ok C ok (fst b) m"
    "broadcast (snd c) = broadcast (snd b) @ n2" "\<forall>m \<in> set n2. sent_ok C ok (fst c) m"
    using assms by (auto simp: evolves_def)
  have "\<forall>m \<in> set (n1 @ n2). sent_ok C ok (fst c) m" using n sent_ok_grows [OF g(2)] by auto
  moreover have "committed_block (snd c) = committed_block (snd a) \<or>
      (\<exists>blk. committed_block (snd c) = Some blk \<and> decided C ok (fst c) blk)"
    using assms decided_grows [OF g(2)] by (auto simp: evolves_def)
  ultimately show ?thesis using assms grows_trans [OF g] n by (auto simp: evolves_def)
qed

lemma step_ok_refl: "step_ok C ok a a"
  by (simp add: step_ok_def evolves_refl)

lemma step_ok_trans: "step_ok C ok a b \<Longrightarrow> step_ok C ok b c \<Longrightarrow> step_ok C ok a c"
  using evolves_trans [of C ok a b c] by (auto simp: step_ok_def)

section \<open>Changes that the invariant does not see\<close>

definition core :: "engine \<Rightarrow> _" where
  \<comment> \<open>the fields the invariant is about\<close>
  "core e = ((static e, e_round e, e_phase e, e_proposal e, e_prepares e, e_commits e),
     (e_prepared_round e, e_prepared_block e, e_prepared_cert e, e_journal e, e_buffer e))"

lemma core_grows: "core a = core b \<Longrightarrow> grows a b"
  by (simp add: core_def grows_def)

lemma engine_ok_core:
  assumes "core a = core b" "engine_ok C ok a"
  shows "engine_ok C ok b"
proof -
  note g = core_grows [OF assms(1)]
  have f: "e_round b = e_round a" "e_prepares b = e_prepares a" "e_commits b = e_commits a"
    "e_prepared_round b = e_prepared_round a" "e_prepared_block b = e_prepared_block a"
    "e_prepared_cert b = e_prepared_cert a" "e_journal b = e_journal a" "e_phase b = e_phase a"
    "e_proposal b = e_proposal a" "e_buffer b = e_buffer a"
    using assms(1) by (simp_all add: core_def)
  have "setup_ok C b" using assms(2) growsD [OF g] by (simp add: engine_ok_def setup_ok_def)
  moreover have "phase_ok b" using assms(2) by (simp add: engine_ok_def phase_ok_def f)
  moreover have "lock_journaled C b = lock_journaled C a" by (simp only: lock_journaled_def f)
  moreover have "buffer_ok C ok b"
    using assms(2) buffer_ok_frame [OF growsD(1) [OF g], of C ok] by (simp add: engine_ok_def f)
  moreover have "prepares_ok C ok b"
    using assms(2) vote_for_grows [OF g] by (fastforce simp: engine_ok_def prepares_ok_def f)
  moreover have "lock_ok C ok b"
    using assms(2) cert_ok_grows [OF g] by (auto simp: engine_ok_def lock_ok_def f split: option.splits)
  ultimately show ?thesis
    using assms(2) seals_ok_grows [OF g] by (simp add: engine_ok_def f)
qed

lemma core_step: "core e' = core e \<Longrightarrow> step_ok C ok (e, r) (e', r)"
  using engine_ok_core [of e e' C ok] core_grows [of e e'] by (simp add: step_ok_def evolves_def core_def)

lemma emit_step:
  assumes "engine_ok C ok e \<Longrightarrow> sent_ok C ok e m"
  shows "step_ok C ok (e, r) (emit m (e, r))"
  using assms by (simp add: step_ok_def evolves_def emit_def)


section \<open>Votes\<close>

lemma own_authentic:
  assumes "setup_ok C e"
  shows "authentic C (e_validators e) (message_create C t h r bh (e_private_key e) blk pr pc rcc)"
  using assms verify_signature_create [of C "e_private_key e"]
  by (simp add: setup_ok_def authentic_def private_public_from_hex e_me_def)

lemma own_seal:
  assumes "setup_ok C e"
  shows "valid_commit_seal C (message_create C COMMIT h r bh (e_private_key e) blk pr pc rcc)"
  using assms private_nonempty [of C "e_private_key e"]
  by (simp add: setup_ok_def valid_commit_seal_def private_public_from_hex public_verify_sign)

lemma journal_wf_simps [simp]:
  "journal_wf j \<Longrightarrow> journal_wf (record_vote j r p h)"
  "journal_wf j \<Longrightarrow> journal_wf (record_prepared C j r b c)"
  by (auto simp: journal_wf_def)

lemma grows_vote:
  assumes "static e' = static e" "journal_wf (e_journal e)"
    and "e_journal e' = record_vote (e_journal e) r p h"
    and "voted_hash (e_journal e) r p \<in> {None, Some h}"
  shows "grows e e'"
  using assms by (auto simp: grows_def journal_wf_def)

lemma grows_lock:
  assumes "static e' = static e" "journal_wf (e_journal e)"
    and "e_journal e' = record_vote (record_prepared C (e_journal e) r b c) r p h"
    and "voted_hash (e_journal e) r p \<in> {None, Some h}"
  shows "grows e e'"
  using assms by (auto simp: grows_def journal_wf_def)

lemma voted_own:
  assumes "setup_ok C e" "journal_ok (e_journal e) \<longrightarrow> voted_hash (e_journal e) r (phase_name t) = Some h"
  shows "vote_for C ok e t r h (message_create C t (e_height e) r h (e_private_key e) blk pr pc rcc)"
  using assms own_authentic [OF assms(1)] by (simp add: vote_for_def vetted_def own_vote_def e_me_def)

lemma prepares_ok_set:
  assumes "prepares_ok C ok e" "vote_for C ok e PREPARE (e_round e) (m_block_hash m) m"
  shows "prepares_ok C ok (record_prepare m e)"
proof -
  have g: "grows e (record_prepare m e)" by (simp add: grows_def frame) (simp add: record_prepare_def)
  have r: "e_round (record_prepare m e) = e_round e" by (simp add: record_prepare_def)
  show ?thesis
    unfolding prepares_ok_def r
  proof (intro allI conjI)
    fix h
    show "dict_ok (dict_get_list (e_prepares (record_prepare m e)) h)"
      using assms(1) by (simp add: record_prepare_def prepares_ok_def dict_ok_set)
    have "(s, x) \<in> set (dict_get_list (e_prepares e) h) \<or> s = m_sender m \<and> x = m \<and> h = m_block_hash m"
      if "(s, x) \<in> set (dict_get_list (e_prepares (record_prepare m e)) h)" for s x
      using that by (auto simp: record_prepare_def split: if_splits dest: subsetD [OF set_dict_set_subset])
    then show "\<forall>(s, x) \<in> set (dict_get_list (e_prepares (record_prepare m e)) h).
        m_sender x = s \<and> vote_for C ok (record_prepare m e) PREPARE (e_round e) h x"
      using assms vote_for_grows [OF g] unfolding prepares_ok_def by blast
  qed
qed

lemma seals_ok_set:
  assumes "seals_ok C ok e r h d" "seal_ok C ok e r h (s, x)"
  shows "seals_ok C ok e r h (dict_set s x d)"
  using assms set_dict_set_subset [of s x d] by (auto simp: seals_ok_def dict_ok_set)

section \<open>The primitive changes\<close>

text \<open>
  A change that keeps the round, the lock and the journal up to growth is judged by what it
  does to the proposal, the votes and the buffer.
\<close>

lemma engine_okI:
  assumes "engine_ok C ok e" "grows e e'" "journal_wf (e_journal e')" "0 \<le> e_round e'" "phase_ok e'"
    and "buffer_ok C ok e'" "prepares_ok C ok e'" "\<forall>h. seals_ok C ok e' (e_round e') h (dict_get_list (e_commits e') h)"
    and "lock_ok C ok e'" "journal_ok (e_journal e') \<longrightarrow> lock_journaled C e'"
  shows "engine_ok C ok e'"
  using assms growsD [OF assms(2)] by (simp add: engine_ok_def setup_ok_def)

lemma lock_ok_grows:
  assumes "lock_ok C ok e" "grows e e'" "e_prepared_round e' = e_prepared_round e"
    and "e_prepared_block e' = e_prepared_block e" "e_prepared_cert e' = e_prepared_cert e"
  shows "lock_ok C ok e'"
  using assms cert_ok_grows [OF assms(2)] by (auto simp: lock_ok_def split: option.splits)

lemma prepares_ok_grows:
  assumes "prepares_ok C ok e" "grows e e'" "e_prepares e' = e_prepares e" "e_round e' = e_round e"
  shows "prepares_ok C ok e'"
  unfolding prepares_ok_def assms(3,4)
  using assms(1) vote_for_grows [OF assms(2)] unfolding prepares_ok_def by blast

lemma lock_journaled_cong:
  assumes "lock_journaled C e" "prepared_lock (e_journal e') = prepared_lock (e_journal e)"
    and "e_prepared_round e' = e_prepared_round e" "e_prepared_cert e' = e_prepared_cert e"
    and "map_option (block_hash C) (e_prepared_block e') = map_option (block_hash C) (e_prepared_block e)"
  shows "lock_journaled C e'"
  using assms by (simp only: lock_journaled_def)

lemma record_prepare_engine_ok:
  assumes ok: "engine_ok C ok e" and vote: "vote_for C ok e PREPARE (e_round e) (m_block_hash m) m"
  shows "engine_ok C ok (record_prepare m e) \<and> grows e (record_prepare m e)"
proof -
  let ?e = "record_prepare m e"
  have g: "grows e ?e" by (simp add: grows_def frame) (simp add: record_prepare_def)
  have f: "e_round ?e = e_round e" "e_journal ?e = e_journal e" "e_commits ?e = e_commits e"
    "e_buffer ?e = e_buffer e" "e_prepared_round ?e = e_prepared_round e"
    "e_prepared_block ?e = e_prepared_block e" "e_prepared_cert ?e = e_prepared_cert e"
    by (simp_all add: record_prepare_def)
  have "engine_ok C ok ?e"
  proof (rule engine_okI [OF ok g])
    show "prepares_ok C ok ?e" using ok vote by (intro prepares_ok_set) (simp_all add: engine_ok_def)
    show "phase_ok ?e" using ok by (simp add: engine_ok_def phase_ok_def record_prepare_def)
    show "buffer_ok C ok ?e"
      using ok buffer_ok_frame [OF growsD(1) [OF g], of C ok] by (simp add: engine_ok_def f)
    show "lock_ok C ok ?e" using lock_ok_grows [OF _ g, of C ok] ok by (simp add: engine_ok_def f)
    show "journal_ok (e_journal ?e) \<longrightarrow> lock_journaled C ?e"
      using lock_journaled_cong [of C e ?e] ok by (simp add: engine_ok_def f)
  qed (use ok seals_ok_grows [OF g] in \<open>simp_all add: engine_ok_def f\<close>)
  with g show ?thesis by simp
qed

lemma record_commit_engine_ok:
  assumes ok: "engine_ok C ok e" and seal: "seal_ok C ok e (e_round e) bh (s, x)"
  shows "engine_ok C ok (e\<lparr>e_commits := dict_set2 bh s x (e_commits e)\<rparr>) \<and>
    grows e (e\<lparr>e_commits := dict_set2 bh s x (e_commits e)\<rparr>)" (is "engine_ok C ok ?e \<and> _")
proof -
  have g: "grows e ?e" by (simp add: grows_def static_def)
  have "engine_ok C ok ?e"
  proof (rule engine_okI [OF ok g])
    have "seals_ok C ok e (e_round e) h (dict_get_list (e_commits ?e) h)" for h
      using ok seal seals_ok_set by (simp add: engine_ok_def)
    then show "\<forall>h. seals_ok C ok ?e (e_round ?e) h (dict_get_list (e_commits ?e) h)"
      using seals_ok_grows [OF g] by simp
    show "phase_ok ?e" using ok by (simp add: engine_ok_def phase_ok_def)
    show "buffer_ok C ok ?e"
      using ok buffer_ok_frame [OF growsD(1) [OF g], of C ok] by (simp add: engine_ok_def)
    show "prepares_ok C ok ?e" using prepares_ok_grows [OF _ g, of C ok] ok by (simp add: engine_ok_def)
    show "lock_ok C ok ?e" using lock_ok_grows [OF _ g, of C ok] ok by (simp add: engine_ok_def)
    show "journal_ok (e_journal ?e) \<longrightarrow> lock_journaled C ?e"
      using lock_journaled_cong [of C e ?e] ok by (simp add: engine_ok_def)
  qed (use ok in \<open>simp_all add: engine_ok_def\<close>)
  with g show ?thesis by simp
qed

lemma prepare_step:
  assumes "m_type m = PREPARE" "vetted C e m" "ok m" "m_round m = e_round e"
  shows "step_ok C ok (e, r) (record_prepare m e, r)"
proof -
  have "vote_for C ok e PREPARE (e_round e) (m_block_hash m) m" using assms by (simp add: vote_for_def)
  then show ?thesis
    using record_prepare_engine_ok [of C ok e m] positionD(1) [OF record_prepare_frame(2) [of m e]]
    by (auto simp: step_ok_def evolves_def)
qed

lemma commit_step:
  assumes "m_type m = COMMIT" "vetted C e m" "ok m" "m_round m = e_round e" "valid_commit_seal C m"
  shows "step_ok C ok (e, r)
    (e\<lparr>e_commits := dict_set2 (m_block_hash m) (m_sender m) (the (m_commit_seal m)) (e_commits e)\<rparr>, r)"
proof -
  have "seal_ok C ok e (e_round e) (m_block_hash m) (m_sender m, the (m_commit_seal m))"
    unfolding seal_ok_def
    by (rule exI [of _ m]) (use assms in \<open>auto simp: vote_for_def valid_commit_seal_def split: option.splits\<close>)
  then show ?thesis using record_commit_engine_ok [of C ok e] by (auto simp: step_ok_def evolves_def)
qed

lemma buffer_step:
  assumes "m_type m \<in> {PREPARE, COMMIT}" "vetted C e m" "ok m" "m_round m > e_round e"
  shows "step_ok C ok (e, r) (e\<lparr>e_buffer := e_buffer e @ [m]\<rparr>, r)" (is "step_ok C ok _ (?e, r)")
proof -
  have g: "grows e ?e" by (simp add: grows_def static_def)
  have "engine_ok C ok ?e" if ok: "engine_ok C ok e"
  proof (rule engine_okI [OF ok g])
    show "buffer_ok C ok ?e"
      using ok assms growsD(6) [OF g, of C] by (auto simp: engine_ok_def buffer_ok_def)
    show "phase_ok ?e" using ok by (simp add: engine_ok_def phase_ok_def)
    show "prepares_ok C ok ?e" using prepares_ok_grows [OF _ g, of C ok] ok by (simp add: engine_ok_def)
    show "lock_ok C ok ?e" using lock_ok_grows [OF _ g, of C ok] ok by (simp add: engine_ok_def)
    show "journal_ok (e_journal ?e) \<longrightarrow> lock_journaled C ?e"
      using lock_journaled_cong [of C e ?e] ok by (simp add: engine_ok_def)
  qed (use ok seals_ok_grows [OF g] in \<open>simp_all add: engine_ok_def\<close>)
  then show ?thesis using g by (simp add: step_ok_def evolves_def)
qed

lemma adopt_step:
  assumes "t > e_round e"
  shows "step_ok C ok (e, r) ((start_round t e)\<lparr>e_buffer := filter (\<lambda>m. m_round m > t) (e_buffer e)\<rparr>, r)"
    (is "step_ok C ok _ (?e, r)")
proof -
  have g: "grows e ?e" by (simp add: grows_def static_def start_round_def)
  have f: "e_round ?e = t" "e_journal ?e = e_journal e" "e_commits ?e = []" "e_prepares ?e = []"
    "e_prepared_round ?e = e_prepared_round e"
    "e_prepared_block ?e = e_prepared_block e" "e_prepared_cert ?e = e_prepared_cert e"
    by (simp_all add: start_round_def)
  have "engine_ok C ok ?e" if ok: "engine_ok C ok e"
  proof (rule engine_okI [OF ok g])
    show "buffer_ok C ok ?e"
      using ok growsD(6) [OF g, of C] f(1) by (auto simp: engine_ok_def buffer_ok_def)
    show "phase_ok ?e" by (simp add: phase_ok_def start_round_def)
    show "lock_ok C ok ?e" using lock_ok_grows [OF _ g, of C ok] ok by (simp add: engine_ok_def f)
    show "journal_ok (e_journal ?e) \<longrightarrow> lock_journaled C ?e"
      using lock_journaled_cong [of C e ?e] ok by (simp add: engine_ok_def f)
  qed (use ok assms in \<open>simp_all add: engine_ok_def f prepares_ok_def seals_ok_def\<close>)
  then show ?thesis using g assms by (simp add: step_ok_def evolves_def f)
qed

lemma cast_engine_ok:
  fixes e e1 h
  assumes ok: "engine_ok C ok e"
    and v: "voted_hash (e_journal e) (e_round e) J_PREPARE \<in> {None, Some (block_hash C b)}"
    and e1: "e1 = e\<lparr>e_proposal := Some b, e_phase := PRE_PREPARED,
      e_journal := record_vote (e_journal e) (e_round e) J_PREPARE (block_hash C b)\<rparr>"
  shows "engine_ok C ok e1 \<and> grows e e1"
proof -
  have j: "journal_wf (e_journal e)" using ok by (simp add: engine_ok_def)
  have g: "grows e e1" by (rule grows_vote [OF _ j _ v]) (simp_all add: e1 static_def)
  have "engine_ok C ok e1"
  proof (rule engine_okI [OF ok g])
    show "phase_ok e1" by (simp add: phase_ok_def e1)
    show "buffer_ok C ok e1"
      using ok buffer_ok_frame [OF growsD(1) [OF g], of C ok] by (simp add: engine_ok_def e1)
    show "prepares_ok C ok e1" using prepares_ok_grows [OF _ g, of C ok] ok by (simp add: engine_ok_def e1)
    show "lock_ok C ok e1" using lock_ok_grows [OF _ g, of C ok] ok by (simp add: engine_ok_def e1)
    show "journal_ok (e_journal e1) \<longrightarrow> lock_journaled C e1"
    proof
      assume "journal_ok (e_journal e1)"
      then have jo: "journal_ok (e_journal e)" using g by (simp add: grows_def)
      then show "lock_journaled C e1"
        using lock_journaled_cong [of C e e1] ok by (simp add: engine_ok_def e1)
    qed
  qed (use ok j seals_ok_grows [OF g] in \<open>simp_all add: engine_ok_def e1\<close>)
  with g show ?thesis by simp
qed

lemma sent_ok_create:
  assumes "t \<in> {PREPARE, COMMIT} \<Longrightarrow>
      own_vote C e (message_create C t (e_height e) r h (e_private_key e) blk pr pc rcc)"
    and "t = COMMIT \<Longrightarrow> \<exists>cert. cert_ok C ok e r h cert"
    and "t = ROUND_CHANGE \<Longrightarrow> valid_round_change C (e_validators e) (e_height e)
      (message_create C t (e_height e) r h (e_private_key e) blk pr pc rcc)"
  shows "sent_ok C ok e (message_create C t (e_height e) r h (e_private_key e) blk pr pc rcc)"
proof -
  let ?m = "message_create C t (e_height e) r h (e_private_key e) blk pr pc rcc"
  have "\<exists>t' r' h' blk' pr' pc' rcc'. ?m = message_create C t' (e_height e) r' h' (e_private_key e) blk' pr' pc' rcc'"
    by (intro exI) (rule refl)
  then show ?thesis unfolding sent_ok_def using assms by auto
qed

lemma cast_step:
  assumes v: "voted_hash (e_journal (fst st)) (e_round (fst st)) J_PREPARE \<in> {None, Some (block_hash C b)}"
  shows "step_ok C ok st (cast_prepare C b st)"
proof -
  obtain e r where st: "st = (e, r)" by (cases st)
  let ?h = "block_hash C b"
  let ?e = "e\<lparr>e_proposal := Some b, e_phase := PRE_PREPARED,
      e_journal := record_vote (e_journal e) (e_round e) J_PREPARE ?h\<rparr>"
  let ?m = "message_create C PREPARE (e_height e) (e_round e) ?h (e_private_key e) None None [] []"
  have eq: "cast_prepare C b st = emit ?m (record_prepare ?m ?e, r)"
    by (simp add: cast_prepare_def st Let_def)
  have "engine_ok C ok (record_prepare ?m ?e) \<and> evolves C ok (e, r) (emit ?m (record_prepare ?m ?e, r))"
    if ok: "engine_ok C ok e"
  proof -
    have e1: "engine_ok C ok ?e" "grows e ?e" using cast_engine_ok [OF ok _ refl] v st by auto
    have s: "setup_ok C ?e" using e1(1) by (simp add: engine_ok_def)
    have jo: "journal_ok (e_journal ?e) \<longrightarrow> voted_hash (e_journal ?e) (e_round e) (phase_name PREPARE) = Some ?h"
      using ok by (auto simp: engine_ok_def journal_wf_def)
    have vote: "vote_for C ok' ?e PREPARE (e_round e) ?h ?m" for ok'
      using voted_own [OF s jo, of ok' None None "[]" "[]"] by simp
    let ?e2 = "record_prepare ?m ?e"
    have e2: "engine_ok C ok ?e2" "grows ?e ?e2"
      using record_prepare_engine_ok [OF e1(1), of ?m] vote by auto
    have "sent_ok C ok ?e ?m"
      using vote [of "\<lambda>_. False"] sent_ok_create [of PREPARE C ?e "e_round e" ?h] by (simp add: vote_for_def)
    then have "sent_ok C ok ?e2 ?m" by (rule sent_ok_grows [OF e2(2)])
    then show ?thesis
      using e2(1) grows_trans [OF e1(2) e2(2)] by (simp add: evolves_def emit_def) (simp add: record_prepare_def)
  qed
  then show ?thesis by (simp add: step_ok_def st eq [unfolded st] frame)
qed

lemma verify_prepares_cert_ok: "cert_ok C ok e r h cert \<Longrightarrow> verify_prepares C (e_validators e) (e_height e) cert r h"
proof -
  assume c: "cert_ok C ok e r h cert"
  then have "filter (\<lambda>m. m_type m = PREPARE \<and> m_height m = e_height e \<and> m_round m = r \<and> m_block_hash m = h
      \<and> authentic C (e_validators e) m) cert = cert"
    by (auto simp: cert_ok_def vote_for_def vetted_def intro: filter_True)
  then show ?thesis using c by (simp add: verify_prepares_def cert_ok_def distinct_remdups_id)
qed

lemma cert_ok_prepares:
  assumes "prepares_ok C ok e" "quorum (e_validators e) \<le> int (length (dict_get_list (e_prepares e) h))"
  shows "cert_ok C ok e (e_round e) h (dict_values (dict_get_list (e_prepares e) h))"
proof -
  let ?d = "dict_get_list (e_prepares e) h"
  have a: "\<forall>(s, m) \<in> set ?d. m_sender m = s \<and> vote_for C ok e PREPARE (e_round e) h m" "dict_ok ?d"
    using assms(1) by (auto simp: prepares_ok_def)
  have "map m_sender (dict_values ?d) = map fst ?d" using a(1) by (auto simp: dict_values_def)
  then have "distinct (map m_sender (dict_values ?d))" using a(2) by (simp add: dict_ok_def)
  then show ?thesis using a(1) assms(2) by (auto simp: cert_ok_def dict_values_def)
qed

lemma finalize_header [simp]:
  "block_hash C (finalize C b cs) = block_hash C b" "header (finalize C b cs) = header b"
  "records (finalize C b cs) = records b" "validator_changes (finalize C b cs) = validator_changes b"
  by (induction C b cs rule: finalize.induct) (auto split: sum.splits)

lemma lock_engine_ok:
  fixes e e1 h
  assumes ok: "engine_ok C ok e" and p: "e_proposal e = Some p"
    and q: "quorum (e_validators e) \<le> int (length (dict_get_list (e_prepares e) (block_hash C p)))"
    and v: "voted_hash (e_journal e) (e_round e) J_COMMIT \<in> {None, Some (block_hash C p)}"
    and e1: "e1 = e\<lparr>e_phase := PREPARED, e_prepared_round := Some (e_round e), e_prepared_block := Some p,
      e_prepared_cert := dict_values (dict_get_list (e_prepares e) (block_hash C p)),
      e_journal := record_vote (record_prepared C (e_journal e) (e_round e) p
        (dict_values (dict_get_list (e_prepares e) (block_hash C p)))) (e_round e) J_COMMIT (block_hash C p)\<rparr>"
  shows "engine_ok C ok e1 \<and> grows e e1 \<and>
    (journal_ok (e_journal e1) \<longrightarrow> voted_hash (e_journal e1) (e_round e) J_COMMIT = Some (block_hash C p))"
proof -
  have j: "journal_wf (e_journal e)" using ok by (simp add: engine_ok_def)
  have g: "grows e e1" by (rule grows_lock [OF _ j _ v]) (simp_all add: e1 static_def)
  have jo: "journal_ok (e_journal e1) \<longleftrightarrow> journal_ok (e_journal e)" using g by (simp add: grows_def)
  have "engine_ok C ok e1"
  proof (rule engine_okI [OF ok g])
    show "phase_ok e1" by (simp add: phase_ok_def e1 p)
    show "buffer_ok C ok e1"
      using ok buffer_ok_frame [OF growsD(1) [OF g], of C ok] by (simp add: engine_ok_def e1)
    show "prepares_ok C ok e1" using prepares_ok_grows [OF _ g, of C ok] ok by (simp add: engine_ok_def e1)
    show "lock_ok C ok e1"
      using cert_ok_grows [OF g cert_ok_prepares [OF _ q, of C ok]] ok by (simp add: lock_ok_def e1 engine_ok_def)
    show "journal_ok (e_journal e1) \<longrightarrow> lock_journaled C e1"
      using jo by (auto simp: lock_journaled_def e1)
  qed (use ok j seals_ok_grows [OF g] in \<open>simp_all add: engine_ok_def e1\<close>)
  moreover have "journal_ok (e_journal e1) \<longrightarrow> voted_hash (e_journal e1) (e_round e) J_COMMIT = Some (block_hash C p)"
    using jo by (simp add: e1)
  ultimately show ?thesis using g by simp
qed

lemma lock_step:
  assumes p: "e_proposal (fst st) = Some p"
  shows "step_ok C ok st (try_prepare C p st)"
proof -
  obtain e r where st: "st = (e, r)" by (cases st)
  let ?h = "block_hash C p"
  let ?ps = "dict_get_list (e_prepares e) ?h"
  let ?guard = "e_phase e = PRE_PREPARED \<and> int (length ?ps) \<ge> quorum (e_validators e)
    \<and> voted_hash (e_journal e) (e_round e) J_COMMIT \<in> {None, Some ?h}"
  let ?e = "e\<lparr>e_phase := PREPARED, e_prepared_round := Some (e_round e), e_prepared_block := Some p,
      e_prepared_cert := dict_values ?ps,
      e_journal := record_vote (record_prepared C (e_journal e) (e_round e) p (dict_values ?ps)) (e_round e) J_COMMIT ?h\<rparr>"
  let ?m = "message_create C COMMIT (e_height e) (e_round e) ?h (e_private_key e) None None [] []"
  let ?e2 = "?e\<lparr>e_commits := dict_set2 ?h (public_to_hex (e_me C e)) (the (m_commit_seal ?m)) (e_commits e)\<rparr>"
  have eq: "try_prepare C p st = (if ?guard then emit ?m (?e2, r) else st)"
    by (auto simp: try_prepare_def st Let_def)
  have "engine_ok C ok ?e2 \<and> evolves C ok (e, r) (emit ?m (?e2, r))" if ok: "engine_ok C ok e" and gd: ?guard
  proof -
    have e1: "engine_ok C ok ?e" "grows e ?e"
      "journal_ok (e_journal ?e) \<longrightarrow> voted_hash (e_journal ?e) (e_round e) (phase_name COMMIT) = Some ?h"
      using lock_engine_ok [OF ok _ _ _ refl, of p] gd p st by auto
    have s: "setup_ok C ?e" and cert: "\<exists>cert. cert_ok C ok ?e (e_round e) ?h cert"
      using e1(1) by (auto simp: engine_ok_def lock_ok_def)
    have vote: "vote_for C ok' ?e COMMIT (e_round e) ?h ?m" for ok'
      using voted_own [OF s e1(3), of ok' None None "[]" "[]"] by simp
    have "seal_ok C ok ?e (e_round e) ?h (public_to_hex (e_me C e), the (m_commit_seal ?m))"
      unfolding seal_ok_def using vote own_seal [OF s, of "e_height e" "e_round e" ?h None None "[]" "[]"]
      by (intro exI [of _ ?m]) (simp add: e_me_def)
    then have e2: "engine_ok C ok ?e2" "grows ?e ?e2"
      using record_commit_engine_ok [OF e1(1), of ?h] by auto
    have "sent_ok C ok ?e ?m"
      using vote [of "\<lambda>_. False"] sent_ok_create [of COMMIT C ?e "e_round e" ?h None None "[]" "[]" ok] cert
      by (auto simp: vote_for_def)
    then have "sent_ok C ok ?e2 ?m" by (rule sent_ok_grows [OF e2(2)])
    then show ?thesis using e2(1) grows_trans [OF e1(2) e2(2)] by (simp add: evolves_def emit_def)
  qed
  then show ?thesis using step_ok_refl unfolding eq by (simp add: step_ok_def st frame)
qed

lemma final_step:
  assumes p: "e_proposal (fst st) = Some p"
  shows "step_ok C ok st (try_commit C p st)"
proof -
  obtain e r where st: "st = (e, r)" by (cases st)
  let ?cs = "dict_get_list (e_commits e) (block_hash C p)"
  let ?guard = "e_phase e = PREPARED \<and> int (length ?cs) \<ge> quorum (e_validators e)"
  let ?b = "finalize C p ?cs"
  let ?e = "e\<lparr>e_phase := COMMITTED, e_proposal := Some ?b, e_prepared_block := Some ?b\<rparr>"
  have eq: "try_commit C p st = (if ?guard then (?e, r\<lparr>committed_block := Some ?b\<rparr>) else st)"
    by (simp add: try_commit_def st Let_def)
  have "engine_ok C ok ?e \<and> evolves C ok (e, r) (?e, r\<lparr>committed_block := Some ?b\<rparr>)"
    if ok: "engine_ok C ok e" and gd: ?guard
  proof -
    have g: "grows e ?e" by (simp add: grows_def static_def)
    have lk: "e_prepared_round e = Some (e_round e)" "e_prepared_block e = Some p"
      using ok gd p st by (simp_all add: engine_ok_def phase_ok_def)
    then have cert: "cert_ok C ok e (e_round e) (block_hash C p) (e_prepared_cert e)"
      using ok by (simp add: engine_ok_def lock_ok_def)
    have e: "engine_ok C ok ?e"
    proof (rule engine_okI [OF ok g])
      show "phase_ok ?e" by (simp add: phase_ok_def lk)
      show "buffer_ok C ok ?e"
        using ok buffer_ok_frame [OF growsD(1) [OF g], of C ok] by (simp add: engine_ok_def)
      show "prepares_ok C ok ?e" using prepares_ok_grows [OF _ g, of C ok] ok by (simp add: engine_ok_def)
      show "lock_ok C ok ?e" using cert_ok_grows [OF g cert] by (simp add: lock_ok_def lk)
      show "journal_ok (e_journal ?e) \<longrightarrow> lock_journaled C ?e"
        using lock_journaled_cong [of C e ?e] ok by (simp add: engine_ok_def lk)
    qed (use ok seals_ok_grows [OF g] in \<open>simp_all add: engine_ok_def\<close>)
    have "decided C ok e ?b"
      unfolding decided_def using ok gd cert by (auto simp: engine_ok_def)
    then show ?thesis using e g decided_grows [OF g] by (simp add: evolves_def)
  qed
  then show ?thesis using step_ok_refl unfolding eq by (simp add: step_ok_def st)
qed

lemma round_change_step: "step_ok C ok st (send_round_change C t st)"
proof (cases "t \<in> set (e_rc_sent (fst st))")
  case False
  obtain e r where st: "st = (e, r)" by (cases st)
  define x where "x = (case e_prepared_block e of Some b \<Rightarrow> (block_hash C b, Some b, e_prepared_cert e)
    | None \<Rightarrow> (ZERO_HASH, None, []))"
  let ?m = "message_create C ROUND_CHANGE (e_height e) t (fst x) (e_private_key e) (fst (snd x))
    (e_prepared_round e) (snd (snd x)) []"
  let ?e = "e\<lparr>e_rc_sent := t # e_rc_sent e,
     e_round_changes := dict_set2 t (public_to_hex (e_me C e)) ?m (e_round_changes e)\<rparr>"
  have eq: "send_round_change C t st = emit ?m (?e, r)"
    using False by (simp add: send_round_change_def st Let_def x_def split: option.splits)
  have "step_ok C ok (e, r) (?e, r)" by (rule core_step) (simp add: core_def static_def)
  moreover have "step_ok C ok (?e, r) (emit ?m (?e, r))"
  proof (rule emit_step)
    assume "engine_ok C ok ?e"
    then have "lock_ok C ok ?e" by (simp add: engine_ok_def)
    then have "valid_round_change C (e_validators ?e) (e_height ?e) ?m"
      using verify_prepares_cert_ok [of C ok ?e]
      by (auto simp: valid_round_change_def lock_ok_def x_def split: option.splits)
    then show "sent_ok C ok ?e ?m" using sent_ok_create [of ROUND_CHANGE C ?e t] by simp
  qed
  ultimately show ?thesis unfolding eq unfolding st by (rule step_ok_trans)
qed (simp add: send_round_change_def step_ok_refl)

interpretation engine_step: engine_steps C ok "step_ok C ok" for C ok
proof (unfold_locales, goal_cases)
  case 1 show ?case by (rule step_ok_refl)
next
  case (2 s1 s2 s3) then show ?case by (rule step_ok_trans)
next
  case 3 show ?case by (rule core_step) (simp add: core_def static_def)
next
  case 4 show ?case by (rule core_step) (simp add: core_def static_def)
next
  case 5 then show ?case by (rule prepare_step)
next
  case 6 then show ?case by (rule commit_step)
next
  case 7 then show ?case by (rule lock_step)
next
  case 8 then show ?case by (rule final_step)
next
  case 9 from 9(3) show ?case by (rule cast_step)
next
  case 10 show ?case by (rule emit_step, rule sent_ok_create) simp_all
next
  case 11 show ?case by (rule round_change_step)
next
  case 12 then show ?case by (rule adopt_step)
next
  case 13 show ?case by (rule core_step) (simp add: core_def static_def)
next
  case 14 then show ?case by (rule buffer_step)
qed


section \<open>The entry points\<close>

lemma engine_ok_buffer: "engine_ok C ok e \<Longrightarrow> buffer_ok C ok e"
  by (simp add: engine_ok_def)

lemma handle_ok:
  "engine_ok C ok e \<Longrightarrow> deliverable ok m \<Longrightarrow>
     engine_ok C ok (fst (handle C m e)) \<and> evolves C ok (e, empty_result) (handle C m e)"
  using engine_step.handled [of C ok e m] engine_ok_buffer [of C ok e] by (simp add: step_ok_def)

lemma on_timeout_ok:
  "engine_ok C ok e \<Longrightarrow> engine_ok C ok (fst (on_timeout C e)) \<and> evolves C ok (e, empty_result) (on_timeout C e)"
  using engine_step.timed_out [of C ok e] engine_ok_buffer [of C ok e] by (simp add: step_ok_def)

lemma set_pending_ok:
  "engine_ok C ok e \<Longrightarrow> engine_ok C ok (fst (set_pending C rs cs e)) \<and>
     evolves C ok (e, empty_result) (set_pending C rs cs e)"
  using engine_step.submitted [of C ok e rs cs] by (simp add: step_ok_def)

end
