(* ===== verification/Validator_Run.thy ===== *)
theory Validator_Run
  imports Engine_Invariant
begin

text \<open>
  One validator over time: an engine of one height that receives inputs, crashes and is
  restarted on its journal. Proved of every run: the engine invariant, that the validator
  never casts two conflicting votes, across crashes too, that what it broadcasts is accepted
  as authentic by the others, and that a block it finalizes passes \<open>verify_finality\<close>.
\<close>

section \<open>Definitions\<close>

fun reopen_journal :: "vote_journal \<Rightarrow> vote_journal result" where
  \<comment> \<open>what a restarted process gets from the store for the same height\<close>
  "reopen_journal NullVoteJournal = Inr NullVoteJournal"
| "reopen_journal (InMemoryVoteJournal j) = Inr (InMemoryVoteJournal j)"
| "reopen_journal (SqlHeightView v) = bindr (open_view (sv_table v) (sv_height v)) (\<lambda>w. Inr (SqlHeightView w))"

datatype engine_input =
    Submit "integrity_record list" "validator_change list"
  | Receive consensus_message
  | Timeout
  | Restart "nat \<Rightarrow> int" nat

fun engine_step_on :: "crypto \<Rightarrow> engine \<Rightarrow> engine_input \<Rightarrow> step_state result" where
  "engine_step_on C e (Submit rs cs) = Inr (set_pending C rs cs e)"
| "engine_step_on C e (Receive m) = Inr (handle C m e)"
| "engine_step_on C e Timeout = Inr (on_timeout C e)"
| "engine_step_on C e (Restart now reads) =
     bindr (reopen_journal (e_journal e)) (\<lambda>j.
     bindr (make_engine C (e_validators e) (e_private_key e) (e_height e) (e_previous_hash e) now reads j) (\<lambda>e'.
       Inr (e', empty_result)))"

record history =
  sent :: "consensus_message list"
  final :: "block list"

definition record_result :: "history \<Rightarrow> step_result \<Rightarrow> history" where
  "record_result t r = \<lparr>sent = sent t @ broadcast r,
     final = final t @ (case committed_block r of None \<Rightarrow> [] | Some b \<Rightarrow> [b])\<rparr>"

fun run_engine :: "crypto \<Rightarrow> engine \<times> history \<Rightarrow> engine_input list \<Rightarrow> (engine \<times> history) result" where
  "run_engine C (e, t) [] = Inr (e, t)"
| "run_engine C (e, t) (i # is) =
     bindr (engine_step_on C e i) (\<lambda>(e', r). run_engine C (e', record_result t r) is)"

definition empty_history :: history where
  "empty_history = \<lparr>sent = [], final = []\<rparr>"

fun input_ok :: "(consensus_message \<Rightarrow> bool) \<Rightarrow> engine_input \<Rightarrow> bool" where
  "input_ok ok (Receive m) = deliverable ok m"
| "input_ok ok _ = True"

lemma input_ok_trivial: "input_ok (\<lambda>_. True) i"
  by (cases i) (simp_all add: deliverable_def)


section \<open>Starting and restarting\<close>

lemma make_engine_Inr:
  assumes "make_engine C S key height prev now reads j = Inr e"
  shows "static e = (S, key, height, prev)" "contains S (private_public C key)" "e_journal e = j"
    "e_round e = 0" "e_phase e = NEW_ROUND" "e_proposal e = None" "e_prepares e = []" "e_commits e = []"
    "e_buffer e = []" "e_prepared_round e = map_option fst (prepared_lock j)"
    "e_prepared_block e = map_option (fst \<circ> snd) (prepared_lock j)"
    "e_prepared_cert e = (case prepared_lock j of None \<Rightarrow> [] | Some l \<Rightarrow> snd (snd l))"
  using assms by (auto simp: make_engine_def start_round_def static_def Let_def split: if_splits)

lemma make_engine_ok:
  assumes e: "make_engine C S key height prev now reads j = Inr e"
    and "ed25519_correct C" "private_ok key" "vs_ok S" "journal_wf j"
    and lock: "\<And>r b cert. prepared_lock j = Some (r, b, cert) \<Longrightarrow> cert_ok C ok e r (block_hash C b) cert"
  shows "engine_ok C ok e"
proof -
  note f = make_engine_Inr [OF e]
  have st: "e_validators e = S" "e_private_key e = key" using f(1) by (simp_all add: static_def)
  have "lock_ok C ok e"
    using lock by (cases "prepared_lock j") (auto simp: lock_ok_def f)
  moreover have "lock_journaled C e" by (cases "prepared_lock j") (auto simp: lock_journaled_def f)
  ultimately show ?thesis
    using assms(2-5) f by (simp add: engine_ok_def setup_ok_def st e_me_def phase_ok_def buffer_ok_def
        prepares_ok_def seals_ok_def)
qed

lemma reopen_journal_Inr:
  assumes "reopen_journal j = Inr j'" "journal_wf j"
  shows "j' = j"
  using assms
proof (cases j)
  case (SqlHeightView v)
  then have "view_ok v" using assms(2) by (simp add: journal_wf_def)
  then show ?thesis using SqlHeightView assms(1) reopen_view_ok [of v] by (auto simp: reopen_view_def)
qed auto

lemma restart_ok:
  assumes ok: "engine_ok C ok e" and r: "engine_step_on C e (Restart now reads) = Inr (e', r)"
  shows "engine_ok C ok e' \<and> grows e e' \<and> r = empty_result"
proof -
  have wf: "journal_wf (e_journal e)" using ok by (simp add: engine_ok_def)
  obtain j where j: "reopen_journal (e_journal e) = Inr j"
    and e': "make_engine C (e_validators e) (e_private_key e) (e_height e) (e_previous_hash e) now reads j = Inr e'"
    and res: "r = empty_result"
    using r by (auto simp: bindr_Inr_iff)
  have jj: "j = e_journal e" using reopen_journal_Inr [OF j wf] .
  have s: "static e' = static e" using make_engine_Inr(1) [OF e'] by (simp add: static_def)
  have g: "grows e e'" using s make_engine_Inr(3) [OF e'] jj by (simp add: grows_def)
  have "engine_ok C ok e'"
  proof (rule make_engine_ok [OF e'])
    fix rd b cert assume l: "prepared_lock j = Some (rd, b, cert)"
    then have "journal_ok (e_journal e)" using wf jj by (auto simp: journal_wf_def)
    then have "lock_journaled C e" "lock_ok C ok e" using ok by (simp_all add: engine_ok_def)
    then have "cert_ok C ok e rd (block_hash C b) cert"
      using l jj by (auto simp: lock_journaled_def lock_ok_def)
    then show "cert_ok C ok e' rd (block_hash C b) cert" by (rule cert_ok_grows [OF g])
  qed (use ok wf jj in \<open>simp_all add: engine_ok_def setup_ok_def\<close>)
  then show ?thesis using g res by simp
qed


section \<open>Runs\<close>

lemma engine_step_on_ok:
  assumes "engine_ok C ok e" "input_ok ok i" "engine_step_on C e i = Inr (e', r)"
  shows "engine_ok C ok e' \<and> grows e e' \<and> (\<forall>m \<in> set (broadcast r). sent_ok C ok e' m) \<and>
    (\<forall>b. committed_block r = Some b \<longrightarrow> decided C ok e' b)"
proof (cases i)
  case (Restart now reads)
  then show ?thesis using restart_ok [of C ok e now reads e' r] assms by (simp add: empty_result_def)
next
  case (Submit rs cs)
  then show ?thesis using set_pending_ok [OF assms(1), of rs cs] assms(3) by (auto simp: evolves_def empty_result_def)
next
  case (Receive m)
  then show ?thesis using handle_ok [OF assms(1), of m] assms(2,3) by (auto simp: evolves_def empty_result_def)
next
  case Timeout
  then show ?thesis using on_timeout_ok [OF assms(1)] assms(3) by (auto simp: evolves_def empty_result_def)
qed

lemma run_engine_ok:
  assumes "run_engine C (e, t) is = Inr (e', t')" "engine_ok C ok e" "list_all (input_ok ok) is"
    and "\<forall>m \<in> set (sent t). sent_ok C ok e m" "\<forall>b \<in> set (final t). decided C ok e b"
  shows "engine_ok C ok e' \<and> grows e e' \<and> (\<forall>m \<in> set (sent t'). sent_ok C ok e' m) \<and>
    (\<forall>b \<in> set (final t'). decided C ok e' b)"
  using assms
proof (induction "is" arbitrary: e t)
  case (Cons i "is")
  obtain e1 r where s: "engine_step_on C e i = Inr (e1, r)"
    and run: "run_engine C (e1, record_result t r) is = Inr (e', t')"
    using Cons.prems(1) by (auto simp: bindr_Inr_iff)
  have st: "engine_ok C ok e1" "grows e e1" "\<forall>m \<in> set (broadcast r). sent_ok C ok e1 m"
    "\<forall>b. committed_block r = Some b \<longrightarrow> decided C ok e1 b"
    using engine_step_on_ok [OF Cons.prems(2) _ s] Cons.prems(3) by auto
  have "\<forall>m \<in> set (sent (record_result t r)). sent_ok C ok e1 m"
    "\<forall>b \<in> set (final (record_result t r)). decided C ok e1 b"
    using Cons.prems(4,5) st sent_ok_grows [OF st(2)] decided_grows [OF st(2)]
    by (auto simp: record_result_def split: option.splits)
  then show ?case using Cons.IH [OF run st(1)] Cons.prems(3) grows_trans [OF st(2)] by auto
qed auto

lemma start_run_ok:
  assumes "make_engine C S key height prev now reads j = Inr e" "run_engine C (e, empty_history) is = Inr (e', t)"
    and "ed25519_correct C" "private_ok key" "vs_ok S" "journal_wf j" "prepared_lock j = None" "list_all (input_ok ok) is"
  shows "engine_ok C ok e' \<and> static e' = (S, key, height, prev) \<and> journal_ok (e_journal e') = journal_ok j \<and>
    (\<forall>m \<in> set (sent t). sent_ok C ok e' m) \<and> (\<forall>b \<in> set (final t). decided C ok e' b)"
proof -
  have "engine_ok C ok e" using make_engine_ok [OF assms(1,3-6)] assms(7) by simp
  then show ?thesis
    using run_engine_ok [OF assms(2) _ assms(8)] make_engine_Inr(1,3) [OF assms(1)]
    by (simp add: empty_history_def grows_def)
qed

lemma engine_step_total:
  assumes "engine_ok C ok e"
  shows "\<exists>e' r. engine_step_on C e i = Inr (e', r)"
proof (cases i)
  case (Restart now reads)
  have wf: "journal_wf (e_journal e)" and me: "contains (e_validators e) (private_public C (e_private_key e))"
    using assms by (simp_all add: engine_ok_def setup_ok_def e_me_def)
  have "\<exists>j. reopen_journal (e_journal e) = Inr j"
    using wf reopen_view_ok by (cases "e_journal e") (auto simp: journal_wf_def reopen_view_def)
  then show ?thesis using me Restart by (auto simp: make_engine_def Let_def)
qed (auto simp: set_pending_def prod_eq_iff)

lemma run_total:
  "engine_ok C ok e \<Longrightarrow> list_all (input_ok ok) is \<Longrightarrow> \<exists>e' t'. run_engine C (e, t) is = Inr (e', t')"
proof (induction "is" arbitrary: e t)
  case (Cons i "is")
  obtain e1 r where s: "engine_step_on C e i = Inr (e1, r)" using engine_step_total [OF Cons.prems(1)] by blast
  then have "engine_ok C ok e1" using engine_step_on_ok [OF Cons.prems(1) _ s] Cons.prems(2) by simp
  then show ?case using Cons.IH [of e1 "record_result t r"] Cons.prems(2) s by simp
qed simp

lemma start_total:
  assumes "make_engine C S key height prev now reads j = Inr e"
    and "ed25519_correct C" "private_ok key" "vs_ok S" "journal_wf j" "prepared_lock j = None" "list_all (input_ok ok) is"
  shows "\<exists>e' t. run_engine C (e, empty_history) is = Inr (e', t)"
  using run_total [OF make_engine_ok [OF assms(1-5)] assms(7)] assms(6) by simp


section \<open>Finality of a finalized block\<close>

lemma set_dict_set_other: "(j, w) \<in> set d \<Longrightarrow> j \<noteq> k \<Longrightarrow> (j, w) \<in> set (dict_set k v d)"
  by (induction d) auto

lemma set_dict_set_this: "(k, v) \<in> set (dict_set k v d)"
  by (induction d) auto

definition sealed_by :: "crypto \<Rightarrow> string \<times> string \<Rightarrow> bool" where
  "sealed_by C p \<longleftrightarrow> (\<exists>k s. public_from_hex C (fst p) = Inr k \<and> bytes_fromhex (snd p) = Inr s \<and> fst p = public_to_hex k)"

lemma finalize_keeps:
  "\<forall>p \<in> set cs. sealed_by C p \<Longrightarrow> s \<notin> fst ` set cs \<Longrightarrow> (s, x) \<in> set (commit_signatures b) \<Longrightarrow>
     (s, x) \<in> set (commit_signatures (finalize C b cs))"
proof (induction C b cs rule: finalize.induct)
  case (2 C b sender_hex seal_hex rest)
  then show ?case
    by (auto simp: sealed_by_def add_commit_signature_def set_dict_set_other split: sum.splits)
qed simp

lemma finalize_seals:
  assumes "\<forall>p \<in> set cs. sealed_by C p" "dict_ok cs" "(s, x) \<in> set cs"
  shows "\<exists>y. (s, y) \<in> set (commit_signatures (finalize C b cs)) \<and> bytes_fromhex y = bytes_fromhex x"
  using assms
proof (induction C b cs rule: finalize.induct)
  case (2 C b sender_hex seal_hex rest)
  obtain k seal where k: "public_from_hex C sender_hex = Inr k" "bytes_fromhex seal_hex = Inr seal"
    "sender_hex = public_to_hex k"
    using "2.prems"(1) by (auto simp: sealed_by_def)
  have rest: "dict_ok rest" "sender_hex \<notin> fst ` set rest" using "2.prems"(2) by (auto simp: dict_ok_def)
  show ?case
  proof (cases "(s, x) = (sender_hex, seal_hex)")
    case True
    have "(sender_hex, hex_of_bytes seal) \<in> set (commit_signatures (finalize C (add_commit_signature b k seal) rest))"
      by (rule finalize_keeps [OF _ rest(2)])
        (use "2.prems"(1) k in \<open>auto simp: add_commit_signature_def set_dict_set_this\<close>)
    then show ?thesis using True k by auto
  next
    case False
    then show ?thesis using "2.IH" [OF refl k(1,2)] "2.prems" rest(1) k(1,2) by auto
  qed
qed simp

lemma seal_ok_valid:
  assumes "seal_ok C (\<lambda>m. canonical_hex (m_sender m)) e r h (s, x)" "setup_ok C e"
  shows "sealed_by C (s, x) \<and> (\<forall>y. bytes_fromhex y = bytes_fromhex x \<longrightarrow> valid_seal C (e_validators e) h (s, y))"
proof -
  obtain m where m: "m_sender m = s" "m_commit_seal m = Some x" "valid_commit_seal C m"
    "vote_for C (\<lambda>m. canonical_hex (m_sender m)) e COMMIT r h m"
    using assms(1) by (auto simp: seal_ok_def)
  obtain k seal where k: "public_from_hex C s = Inr k" "bytes_fromhex x = Inr seal" "public_verify C k seal h"
    using m by (auto simp: valid_commit_seal_def vote_for_def split: option.splits if_splits sum.splits)
  have "contains (e_validators e) k" using m k by (simp add: vote_for_def vetted_def authentic_def)
  moreover have "s = public_to_hex k"
    using m(1,4) k(1) public_from_hex_canonical [OF k(1)]
      private_public_from_hex [of C "e_private_key e"] assms(2)
    by (auto simp: vote_for_def own_vote_def setup_ok_def e_me_def)
  ultimately show ?thesis using k by (auto simp: sealed_by_def valid_seal_def)
qed

lemma decided_final:
  assumes "decided C (\<lambda>m. canonical_hex (m_sender m)) e b" "setup_ok C e"
  shows "verify_finality C b (e_validators e)"
proof -
  let ?ok = "\<lambda>m. canonical_hex (m_sender m)"
  obtain r p cs where b: "b = finalize C p cs" "seals_ok C ?ok e r (block_hash C p) cs"
    "quorum (e_validators e) \<le> int (length cs)"
    using assms(1) by (auto simp: decided_def)
  have s: "sealed_by C q" if "q \<in> set cs" for q
    using b(2) that seal_ok_valid [OF _ assms(2)] by (cases q) (auto simp: seals_ok_def)
  let ?v = "filter (valid_seal C (e_validators e) (block_hash C b)) (commit_signatures b)"
  have "fst ` set cs \<subseteq> fst ` set ?v"
  proof
    fix x assume "x \<in> fst ` set cs"
    then obtain y where xy: "(x, y) \<in> set cs" by force
    then obtain z where "(x, z) \<in> set (commit_signatures b)" "bytes_fromhex z = bytes_fromhex y"
      using finalize_seals [of cs C x y p] s b by (auto simp: seals_ok_def)
    moreover have "seal_ok C ?ok e r (block_hash C p) (x, y)" using b(2) xy by (simp add: seals_ok_def)
    ultimately show "x \<in> fst ` set ?v" using seal_ok_valid [OF _ assms(2)] b(1) by force
  qed
  then have "card (fst ` set cs) \<le> card (fst ` set ?v)" by (intro card_mono) auto
  also have "\<dots> \<le> length ?v" by (metis card_length length_map set_map)
  finally have "length cs \<le> length ?v" using length_distinct_fst [of cs] b(2) by (simp add: seals_ok_def)
  then show ?thesis using b(3) by (simp add: verify_finality_def)
qed

section \<open>Properties\<close>

text \<open>A concrete validator set and engine for the instances below.\<close>

definition demo_set :: validator_set where
  "demo_set = \<lparr>vs_validators = [private_public padded_crypto (demo_key (CHR ''a''))]\<rparr>"

lemma demo_set_made: "make_validator_set [private_public padded_crypto (demo_key (CHR ''a''))] = Inr demo_set"
  by (simp add: make_validator_set_eq demo_set_def)

lemma demo_engine_made:
  "\<exists>e. make_engine padded_crypto demo_set (demo_key (CHR ''a'')) 1 ZERO_HASH (\<lambda>_. 7) 0
     (InMemoryVoteJournal empty_memory_journal) = Inr e"
  by (simp add: make_engine_def Let_def contains_def demo_set_def)

lemma demo_journal:
  "journal_ok (InMemoryVoteJournal empty_memory_journal)" "journal_wf (InMemoryVoteJournal empty_memory_journal)"
  "prepared_lock (InMemoryVoteJournal empty_memory_journal) = None"
  by (simp_all add: journal_wf_def empty_memory_journal_def)

text \<open>C2: a validator never equivocates. Whatever an engine is given, in any order, and
  however often it crashes and is restarted on its journal, the run does not fail, and no two
  PREPAREs and no two COMMITs it ever broadcasts for the same round name different blocks.\<close>

theorem never_equivocates:
  assumes "make_validator_set vs = Inr S" "ed25519_correct C" "private_ok key"
    and "make_engine C S key height prev now reads j = Inr e" "journal_ok j" "prepared_lock j = None"
  shows "\<exists>e' t. run_engine C (e, empty_history) inputs = Inr (e', t) \<and>
    (\<forall>m \<in> set (sent t). \<forall>m' \<in> set (sent t). m_type m = m_type m' \<and> m_type m \<in> {PREPARE, COMMIT} \<and>
       m_round m = m_round m' \<longrightarrow> m_block_hash m = m_block_hash m')"
proof -
  have S: "vs_ok S" using make_validator_set_ok [OF assms(1)] by simp
  have wf: "journal_wf j" using assms(5) by (simp add: journal_wf_def)
  have all: "list_all (input_ok (\<lambda>_. True)) inputs" by (simp add: list_all_iff input_ok_trivial)
  obtain e' t where run: "run_engine C (e, empty_history) inputs = Inr (e', t)"
    using start_total [OF assms(4,2,3) S wf assms(6) all] by blast
  note r = start_run_ok [OF assms(4) run assms(2,3) S wf assms(6) all]
  have "m_block_hash m = m_block_hash m'"
    if "m \<in> set (sent t)" "m' \<in> set (sent t)" "m_type m = m_type m' \<and> m_type m \<in> {PREPARE, COMMIT} \<and>
       m_round m = m_round m'" for m m'
  proof -
    have "own_vote C e' m" "own_vote C e' m'" using r that by (auto simp: sent_ok_def)
    then show ?thesis using r that(3) assms(5) by (simp add: own_vote_def)
  qed
  with run show ?thesis by blast
qed

theorem never_equivocates_witness:
  "\<exists>e e' t. make_engine padded_crypto demo_set (demo_key (CHR ''a'')) 1 ZERO_HASH (\<lambda>_. 7) 0
      (InMemoryVoteJournal empty_memory_journal) = Inr e \<and>
    run_engine padded_crypto (e, empty_history)
      [Submit [demo_record] [], Restart (\<lambda>_. 8) 0, Submit [demo_record] [], Timeout] = Inr (e', t) \<and>
    (\<forall>m \<in> set (sent t). \<forall>m' \<in> set (sent t). m_type m = m_type m' \<and> m_type m \<in> {PREPARE, COMMIT} \<and>
       m_round m = m_round m' \<longrightarrow> m_block_hash m = m_block_hash m')"
proof -
  obtain e where e: "make_engine padded_crypto demo_set (demo_key (CHR ''a'')) 1 ZERO_HASH (\<lambda>_. 7) 0
      (InMemoryVoteJournal empty_memory_journal) = Inr e" using demo_engine_made by blast
  show ?thesis
    using e never_equivocates [OF demo_set_made padded_crypto_correct demo_key_ok e demo_journal(1,3)] by blast
qed

text \<open>C8: what a validator broadcasts is accepted by the others. Every message it sends is
  for its height and passes the authentication of every engine with the same validator set,
  and every ROUND\_CHANGE carries a valid certificate for the lock it claims, also when the
  lock was restored from the journal.\<close>

theorem broadcasts_accepted:
  assumes "make_validator_set vs = Inr S" "ed25519_correct C" "private_ok key"
    and "make_engine C S key height prev now reads j = Inr e" "journal_wf j" "prepared_lock j = None"
  shows "\<exists>e' t. run_engine C (e, empty_history) inputs = Inr (e', t) \<and>
    (\<forall>m \<in> set (sent t). m_height m = height \<and> authentic C S m \<and>
       (m_type m = ROUND_CHANGE \<longrightarrow> valid_round_change C S height m))"
proof -
  have S: "vs_ok S" using make_validator_set_ok [OF assms(1)] by simp
  have all: "list_all (input_ok (\<lambda>_. True)) inputs" by (simp add: list_all_iff input_ok_trivial)
  obtain e' t where run: "run_engine C (e, empty_history) inputs = Inr (e', t)"
    using start_total [OF assms(4,2,3) S assms(5,6) all] by blast
  note r = start_run_ok [OF assms(4) run assms(2,3) S assms(5,6) all]
  have f: "e_validators e' = S" "e_height e' = height" "setup_ok C e'"
    using r by (simp_all add: static_def engine_ok_def)
  have "m_height m = height \<and> authentic C S m \<and> (m_type m = ROUND_CHANGE \<longrightarrow> valid_round_change C S height m)"
    if "m \<in> set (sent t)" for m
  proof -
    have s: "sent_ok C (\<lambda>_. True) e' m" using r that by blast
    then obtain ty rd h blk pr pc rcc
      where "m = message_create C ty (e_height e') rd h (e_private_key e') blk pr pc rcc"
      unfolding sent_ok_def by blast
    then have "m_height m = height" "authentic C S m"
      using own_authentic [OF f(3), of ty "e_height e'" rd h blk pr pc rcc] f(1,2) by simp_all
    then show ?thesis using s f(1,2) by (simp add: sent_ok_def)
  qed
  with run show ?thesis by blast
qed

theorem broadcasts_accepted_witness:
  "\<exists>e e' t. make_engine padded_crypto demo_set (demo_key (CHR ''a'')) 1 ZERO_HASH (\<lambda>_. 7) 0
      (InMemoryVoteJournal empty_memory_journal) = Inr e \<and>
    run_engine padded_crypto (e, empty_history) [Submit [demo_record] [], Timeout] = Inr (e', t) \<and>
    (\<forall>m \<in> set (sent t). m_height m = 1 \<and> authentic padded_crypto demo_set m \<and>
       (m_type m = ROUND_CHANGE \<longrightarrow> valid_round_change padded_crypto demo_set 1 m))"
proof -
  obtain e where e: "make_engine padded_crypto demo_set (demo_key (CHR ''a'')) 1 ZERO_HASH (\<lambda>_. 7) 0
      (InMemoryVoteJournal empty_memory_journal) = Inr e" using demo_engine_made by blast
  show ?thesis
    using e broadcasts_accepted [OF demo_set_made padded_crypto_correct demo_key_ok e demo_journal(2,3)] by blast
qed

text \<open>C7: a finalized block carries its proof of finality. If the messages an engine receives
  spell their senders canonically, every block it finalizes passes \<open>verify_finality\<close> for the
  validator set.\<close>

theorem finalized_blocks_verify:
  assumes "make_validator_set vs = Inr S" "ed25519_correct C" "private_ok key"
    and "make_engine C S key height prev now reads j = Inr e" "journal_wf j" "prepared_lock j = None"
    and "list_all (input_ok (\<lambda>m. canonical_hex (m_sender m))) inputs"
  shows "\<exists>e' t. run_engine C (e, empty_history) inputs = Inr (e', t) \<and>
    (\<forall>b \<in> set (final t). verify_finality C b S)"
proof -
  have S: "vs_ok S" using make_validator_set_ok [OF assms(1)] by simp
  obtain e' t where run: "run_engine C (e, empty_history) inputs = Inr (e', t)"
    using start_total [OF assms(4,2,3) S assms(5-7)] by blast
  note r = start_run_ok [OF assms(4) run assms(2,3) S assms(5-7)]
  have f: "e_validators e' = S" "setup_ok C e'" using r by (simp_all add: static_def engine_ok_def)
  show ?thesis using run r f decided_final [OF _ f(2)] by auto
qed

definition demo_final :: "engine result \<Rightarrow> nat" where
  \<comment> \<open>how many blocks the run of the instance finalizes\<close>
  "demo_final r = (case bindr r (\<lambda>e. run_engine padded_crypto (e, empty_history) [Submit [demo_record] [], Timeout])
     of Inl _ \<Rightarrow> 0 | Inr (_, t) \<Rightarrow> length (final t))"

lemma demo_final_one:
  "demo_final (make_engine padded_crypto demo_set (demo_key (CHR ''a'')) 1 ZERO_HASH (\<lambda>_. 7) 0
     (InMemoryVoteJournal empty_memory_journal)) = 1"
  by code_simp

theorem finalized_blocks_verify_witness:
  "\<exists>e e' t b. make_engine padded_crypto demo_set (demo_key (CHR ''a'')) 1 ZERO_HASH (\<lambda>_. 7) 0
      (InMemoryVoteJournal empty_memory_journal) = Inr e \<and>
    run_engine padded_crypto (e, empty_history) [Submit [demo_record] [], Timeout] = Inr (e', t) \<and>
    final t = [b] \<and> verify_finality padded_crypto b demo_set"
proof -
  obtain e where e: "make_engine padded_crypto demo_set (demo_key (CHR ''a'')) 1 ZERO_HASH (\<lambda>_. 7) 0
      (InMemoryVoteJournal empty_memory_journal) = Inr e" using demo_engine_made by blast
  obtain e' t where t: "run_engine padded_crypto (e, empty_history) [Submit [demo_record] [], Timeout] = Inr (e', t)"
    "\<forall>b \<in> set (final t). verify_finality padded_crypto b demo_set"
    using finalized_blocks_verify [OF demo_set_made padded_crypto_correct demo_key_ok e demo_journal(2,3),
        of "[Submit [demo_record] [], Timeout]"] by (auto simp del: run_engine.simps)
  then have "length (final t) = 1" using demo_final_one e by (simp add: demo_final_def del: run_engine.simps)
  then show ?thesis using e t by (cases "final t") (auto simp del: run_engine.simps)
qed

end
