(* ===== verification/Agreement.thy ===== *)
theory Agreement
  imports Validator_Run
begin

text \<open>
  Several validators of one height. A state is the list of the correct validators, each with
  what it has sent and finalized; any of them may take a step at any time, and messages are
  delivered in any order, repeatedly, or not at all. Everyone else is unconstrained: any
  message may be received, except that a vote that verifies under the key of a correct
  validator is one that this validator signed (the signatures are not forged).

  Proved: within one round correct validators never COMMIT different blocks. Across rounds
  the code does not preserve agreement: a concrete run, with all validators correct, finalizes
  two blocks at one height.
\<close>

section \<open>Definitions\<close>

type_synonym cluster = "(engine \<times> history) list"

definition genuine :: "crypto \<Rightarrow> cluster \<Rightarrow> consensus_message \<Rightarrow> bool" where
  \<comment> \<open>the sender is spelled canonically, and a vote signed by a correct validator was sent by it\<close>
  "genuine C ns m \<longleftrightarrow> canonical_hex (m_sender m) \<and>
     (\<forall>(e, t) \<in> set ns. m_type m \<in> {PREPARE, COMMIT} \<and> public_from_hex C (m_sender m) = Inr (e_me C e) \<and>
        verify_signature C m \<longrightarrow> (\<exists>x \<in> set (sent t). signing_payload x = signing_payload m))"

definition fresh_node :: "crypto \<Rightarrow> validator_set \<Rightarrow> int \<Rightarrow> engine \<times> history \<Rightarrow> bool" where
  "fresh_node C S height n \<longleftrightarrow> snd n = empty_history \<and>
     (\<exists>key prev now reads j. private_ok key \<and> journal_ok j \<and> prepared_lock j = None \<and>
        make_engine C S key height prev now reads j = Inr (fst n))"

lemma fresh_nodeI:
  "private_ok key \<Longrightarrow> journal_ok j \<Longrightarrow> prepared_lock j = None \<Longrightarrow>
     make_engine C S key height prev now reads j = Inr e \<Longrightarrow> fresh_node C S height (e, empty_history)"
  unfolding fresh_node_def by (simp, blast)

inductive reach :: "crypto \<Rightarrow> validator_set \<Rightarrow> int \<Rightarrow> cluster \<Rightarrow> bool"
  for C S height where
  start: "list_all (fresh_node C S height) ns \<Longrightarrow> distinct (map (\<lambda>n. e_me C (fst n)) ns) \<Longrightarrow> reach C S height ns"
| step: "reach C S height ns \<Longrightarrow> i < length ns \<Longrightarrow> ns ! i = (e, t) \<Longrightarrow> input_ok (genuine C ns) inp \<Longrightarrow>
    engine_step_on C e inp = Inr (e', r) \<Longrightarrow> reach C S height (ns[i := (e', record_result t r)])"

definition node_ok :: "crypto \<Rightarrow> validator_set \<Rightarrow> int \<Rightarrow> (consensus_message \<Rightarrow> bool) \<Rightarrow> engine \<times> history \<Rightarrow> bool" where
  "node_ok C S height ok n \<longleftrightarrow> engine_ok C ok (fst n) \<and> e_validators (fst n) = S \<and> e_height (fst n) = height \<and>
     journal_ok (e_journal (fst n)) \<and> (\<forall>m \<in> set (sent (snd n)). sent_ok C ok (fst n) m)"


section \<open>What is known stays known\<close>

lemma vote_for_mono: "(\<And>m. ok m \<Longrightarrow> ok' m) \<Longrightarrow> vote_for C ok e t r h m \<Longrightarrow> vote_for C ok' e t r h m"
  by (auto simp: vote_for_def)

lemma cert_ok_mono: "(\<And>m. ok m \<Longrightarrow> ok' m) \<Longrightarrow> cert_ok C ok e r h cert \<Longrightarrow> cert_ok C ok' e r h cert"
  using vote_for_mono [of ok ok'] by (auto simp: cert_ok_def)

lemma engine_ok_mono:
  assumes mono: "\<And>m. ok m \<Longrightarrow> ok' m" and ok: "engine_ok C ok e"
  shows "engine_ok C ok' e"
proof -
  have v: "vote_for C ok e t r h m \<Longrightarrow> vote_for C ok' e t r h m" for t r h m
    using mono by (auto simp: vote_for_def)
  have "buffer_ok C ok' e" using ok mono by (auto simp: engine_ok_def buffer_ok_def)
  moreover have "prepares_ok C ok' e" using ok v unfolding engine_ok_def prepares_ok_def by blast
  moreover have "\<forall>h. seals_ok C ok' e (e_round e) h (dict_get_list (e_commits e) h)"
    using ok v unfolding engine_ok_def seals_ok_def seal_ok_def by blast
  moreover have "lock_ok C ok' e"
    using ok cert_ok_mono [of ok ok'] mono by (auto simp: engine_ok_def lock_ok_def split: option.splits)
  ultimately show ?thesis using ok by (simp add: engine_ok_def)
qed

lemma sent_ok_mono: "(\<And>m. ok m \<Longrightarrow> ok' m) \<Longrightarrow> sent_ok C ok e m \<Longrightarrow> sent_ok C ok' e m"
  using cert_ok_mono [of ok ok'] unfolding sent_ok_def by blast

lemma node_ok_mono: "(\<And>m. ok m \<Longrightarrow> ok' m) \<Longrightarrow> node_ok C S height ok n \<Longrightarrow> node_ok C S height ok' n"
  using engine_ok_mono [of ok ok'] sent_ok_mono [of ok ok'] by (auto simp: node_ok_def)

lemma genuine_step:
  assumes "i < length ns" "ns ! i = (e, t)" "e_me C e' = e_me C e" "set (sent t) \<subseteq> set (sent t')" "genuine C ns m"
  shows "genuine C (ns[i := (e', t')]) m"
  unfolding genuine_def
proof (intro conjI ballI, goal_cases)
  case (2 n)
  then consider "n \<in> set ns" | "n = (e', t')" using set_update_subset_insert by fastforce
  then show ?case
  proof cases
    case 1 with assms(5) show ?thesis by (auto simp: genuine_def)
  next
    case 2
    have "(e, t) \<in> set ns" using assms(1,2) by (metis nth_mem)
    with 2 assms(3-5) show ?thesis by (fastforce simp: genuine_def)
  qed
qed (use assms(5) in \<open>simp add: genuine_def\<close>)


section \<open>The invariant of the cluster\<close>

lemma fresh_node_ok:
  assumes "fresh_node C S height n" "ed25519_correct C" "vs_ok S"
  shows "node_ok C S height ok n"
proof -
  obtain key prev now reads j where k: "private_ok key" "journal_ok j" "prepared_lock j = None"
    "make_engine C S key height prev now reads j = Inr (fst n)" "snd n = empty_history"
    using assms(1) by (auto simp: fresh_node_def)
  have "engine_ok C ok (fst n)"
    using make_engine_ok [OF k(4) assms(2) k(1) assms(3)] k(2,3) by (simp add: journal_wf_def)
  then show ?thesis
    using make_engine_Inr(1,3) [OF k(4)] k(2,5) by (simp add: node_ok_def static_def empty_history_def)
qed

lemma reach_ok:
  assumes "reach C S height ns" "ed25519_correct C" "vs_ok S"
  shows "(\<forall>n \<in> set ns. node_ok C S height (genuine C ns) n) \<and> distinct (map (\<lambda>n. e_me C (fst n)) ns)"
  using assms(1)
proof (induction rule: reach.induct)
  case (start ns)
  then show ?case using fresh_node_ok assms(2,3) by (auto simp: list_all_iff)
next
  case (step ns i e t inp e' r)
  let ?t = "record_result t r" and ?ns = "ns[i := (e', record_result t r)]"
  have n: "node_ok C S height (genuine C ns) (e, t)" using step.IH step.hyps(2,3) by (metis nth_mem)
  have e': "engine_ok C (genuine C ns) e'" "grows e e'" "\<forall>m \<in> set (broadcast r). sent_ok C (genuine C ns) e' m"
    using engine_step_on_ok [OF _ step.hyps(4,5)] n by (auto simp: node_ok_def)
  have me: "e_me C e' = e_me C e" using growsD(5) [OF e'(2)] .
  have sub: "set (sent t) \<subseteq> set (sent ?t)" by (simp add: record_result_def)
  have mono: "genuine C ns m \<Longrightarrow> genuine C ?ns m" for m
    using genuine_step [OF step.hyps(2,3) me sub] .
  have "node_ok C S height (genuine C ns) (e', ?t)"
    using n e' growsD [OF e'(2)] sent_ok_grows [OF e'(2)]
    by (auto simp: node_ok_def grows_def record_result_def)
  then have new: "node_ok C S height (genuine C ?ns) (e', ?t)" by (rule node_ok_mono [rotated]) (rule mono)
  have "node_ok C S height (genuine C ?ns) n'" if "n' \<in> set ?ns" for n'
  proof (cases "n' = (e', ?t)")
    case False
    with that have "n' \<in> set ns" using set_update_subset_insert [of ns i] by fast
    then have "node_ok C S height (genuine C ns) n'" using step.IH by simp
    then show ?thesis by (rule node_ok_mono [rotated]) (rule mono)
  qed (use new in simp)
  moreover have "map (\<lambda>n. e_me C (fst n)) ?ns = map (\<lambda>n. e_me C (fst n)) ns"
    using me step.hyps(2,3) by (simp add: map_update list_update_same_conv)
  ultimately show ?case using step.IH by simp
qed


section \<open>Agreement within a round\<close>

definition signers :: "crypto \<Rightarrow> consensus_message list \<Rightarrow> public_key set" where
  "signers C cert = {k. \<exists>m \<in> set cert. public_from_hex C (m_sender m) = Inr k}"

lemma vote_canonical:
  assumes "vote_for C (genuine C ns) e t r h m" "setup_ok C e"
  shows "\<exists>k. public_from_hex C (m_sender m) = Inr k \<and> m_sender m = public_to_hex k \<and> k \<in> members (e_validators e)"
proof -
  obtain k where k: "public_from_hex C (m_sender m) = Inr k" "contains (e_validators e) k"
    using assms(1) by (auto simp: vote_for_def vetted_def authentic_def split: sum.splits)
  moreover have "canonical_hex (m_sender m)"
    using assms(1) by (auto simp: vote_for_def genuine_def own_vote_def public_to_hex_def)
  ultimately show ?thesis using public_from_hex_canonical [OF k(1)] by (simp add: contains_iff)
qed

lemma signers_quorum:
  assumes "cert_ok C (genuine C ns) e r h cert" "setup_ok C e"
  shows "signers C cert \<subseteq> members (e_validators e) \<and> quorum (e_validators e) \<le> int (card (signers C cert))"
proof -
  have v: "\<exists>k. public_from_hex C (m_sender m) = Inr k \<and> m_sender m = public_to_hex k \<and> k \<in> members (e_validators e)"
    if "m \<in> set cert" for m
    using vote_canonical [OF _ assms(2)] assms(1) that by (auto simp: cert_ok_def)
  have sub: "signers C cert \<subseteq> members (e_validators e)" using v by (fastforce simp: signers_def)
  have "m_sender ` set cert \<subseteq> public_to_hex ` signers C cert" using v by (fastforce simp: signers_def)
  then have "card (m_sender ` set cert) \<le> card (public_to_hex ` signers C cert)"
    using finite_subset [OF sub] by (intro card_mono) auto
  also have "\<dots> \<le> card (signers C cert)" using finite_subset [OF sub] by (intro card_image_le) auto
  finally have "length cert \<le> card (signers C cert)"
    using assms(1) distinct_card [of "map m_sender cert"] by (simp add: cert_ok_def)
  then show ?thesis using sub assms(1) by (simp add: cert_ok_def)
qed

lemma honest_prepare_journaled:
  assumes ok: "\<forall>n \<in> set ns. node_ok C S height (genuine C ns) n" "distinct (map (\<lambda>n. e_me C (fst n)) ns)"
    and e: "(e, t) \<in> set ns" and cert: "cert_ok C (genuine C ns) e r h cert"
    and k: "k \<in> signers C cert" and e': "(e', t') \<in> set ns" "k = e_me C e'"
  shows "voted_hash (e_journal e') r J_PREPARE = Some h"
proof -
  obtain m where m: "m \<in> set cert" "public_from_hex C (m_sender m) = Inr k" using k by (auto simp: signers_def)
  have v: "vote_for C (genuine C ns) e PREPARE r h m" using cert m(1) by (simp add: cert_ok_def)
  have s: "setup_ok C e" "journal_ok (e_journal e)" "node_ok C S height (genuine C ns) (e', t')"
    using ok(1) e e'(1) by (auto simp: node_ok_def engine_ok_def)
  show ?thesis
  proof (cases "own_vote C e m")
    case True
    then have "k = e_me C e"
      using m(2) private_public_from_hex [of C "e_private_key e"] s(1)
      by (simp add: own_vote_def setup_ok_def e_me_def)
    moreover have "inj_on (\<lambda>n. e_me C (fst n)) (set ns)" using ok(2) by (simp add: distinct_map)
    ultimately have "(e', t') = (e, t)" using e e' by (intro inj_onD [of "\<lambda>n. e_me C (fst n)" "set ns"]) auto
    then show ?thesis using True v s(2) by (simp add: own_vote_def vote_for_def)
  next
    case False
    then have g: "genuine C ns m" using v by (simp add: vote_for_def)
    have "verify_signature C m" using v m(2) by (simp add: vote_for_def vetted_def authentic_def)
    then obtain x where x: "x \<in> set (sent t')" "signing_payload x = signing_payload m"
      using g e' m(2) v by (fastforce simp: genuine_def vote_for_def)
    then have "m_type x = PREPARE" "m_round x = r" "m_block_hash x = h"
      using v by (simp_all add: signing_payload_eq_iff vote_for_def)
    moreover from this x(1) have "own_vote C e' x" using s(3) by (simp add: node_ok_def sent_ok_def)
    ultimately show ?thesis using s(3) by (simp add: own_vote_def node_ok_def)
  qed
qed

lemma commits_agree:
  assumes ok: "\<forall>n \<in> set ns. node_ok C S height (genuine C ns) n" "distinct (map (\<lambda>n. e_me C (fst n)) ns)"
    and S: "vs_ok S" and byz: "int (card (members S - {e_me C e | e t. (e, t) \<in> set ns})) \<le> max_faulty S"
    and m: "(e, t) \<in> set ns" "m \<in> set (sent t)" "m_type m = COMMIT"
    and m': "(e', t') \<in> set ns" "m' \<in> set (sent t')" "m_type m' = COMMIT" and r: "m_round m = m_round m'"
  shows "m_block_hash m = m_block_hash m'"
proof -
  have n: "node_ok C S height (genuine C ns) (e, t)" "node_ok C S height (genuine C ns) (e', t')"
    using ok(1) m(1) m'(1) by auto
  obtain c c' where c: "cert_ok C (genuine C ns) e (m_round m) (m_block_hash m) c"
    and c': "cert_ok C (genuine C ns) e' (m_round m') (m_block_hash m') c'"
  proof -
    have "sent_ok C (genuine C ns) e m" "sent_ok C (genuine C ns) e' m'"
      using n m(2) m'(2) by (simp_all add: node_ok_def)
    then show ?thesis using that m(3) m'(3) unfolding sent_ok_def by blast
  qed
  have q: "signers C c \<subseteq> members S" "quorum S \<le> int (card (signers C c))"
    "signers C c' \<subseteq> members S" "quorum S \<le> int (card (signers C c'))"
    using signers_quorum [OF c] signers_quorum [OF c'] n by (auto simp: node_ok_def engine_ok_def)
  obtain k where k: "k \<in> signers C c \<inter> signers C c'" "k \<notin> members S - {e_me C e | e t. (e, t) \<in> set ns}"
    using vq.honest_in_both [OF S q(1,3,2,4) byz] by auto
  then obtain f u where f: "(f, u) \<in> set ns" "k = e_me C f" using q(1) by auto
  have "voted_hash (e_journal f) (m_round m) J_PREPARE = Some (m_block_hash m)"
    using honest_prepare_journaled [OF ok m(1) c _ f] k(1) by simp
  moreover have "voted_hash (e_journal f) (m_round m') J_PREPARE = Some (m_block_hash m')"
    using honest_prepare_journaled [OF ok m'(1) c' _ f] k(1) by simp
  ultimately show ?thesis using r by simp
qed


section \<open>Properties\<close>

text \<open>C3: agreement within a round, for canonically spelled senders. Consider the reachable states
  of a cluster whose other members are at most \<open>max_faulty\<close>. The correct validators may crash and
  restart; a vote under a correct validator's key is one it sent; and every delivered message and
  every message in the round-change certificate of a delivered proposal, also of a faulty member,
  spells its sender the way \<open>to_hex()\<close> prints it. For the rest the faulty
  members send what they like. Then two COMMITs that correct validators sent for the same round
  name the same block. The engine does not enforce the spelling, and without it the property
  fails: theory \<open>Agreement_Failure\<close>, \<open>spellings_break_agreement\<close>.\<close>

theorem same_round_agreement:
  assumes "make_validator_set vs = Inr S" "ed25519_correct C" "reach C S height ns"
    and "int (card (members S - {e_me C e | e t. (e, t) \<in> set ns})) \<le> max_faulty S"
    and "(e, t) \<in> set ns" "m \<in> set (sent t)" "m_type m = COMMIT"
    and "(e', t') \<in> set ns" "m' \<in> set (sent t')" "m_type m' = COMMIT" "m_round m = m_round m'"
  shows "m_block_hash m = m_block_hash m'"
proof -
  have S: "vs_ok S" using make_validator_set_ok [OF assms(1)] by simp
  show ?thesis using commits_agree [OF _ _ S assms(4-11)] reach_ok [OF assms(3,2) S] by blast
qed

text \<open>A single validator that proposes, crashes and proposes again is such a cluster.\<close>

lemma run_reach:
  assumes "run_engine C (e, t) is = Inr (e', t')" "reach C S height [(e, t)]" "\<forall>i \<in> set is. \<forall>m. i \<noteq> Receive m"
  shows "reach C S height [(e', t')]"
  using assms
proof (induction "is" arbitrary: e t)
  case (Cons i "is")
  obtain e1 r where s: "engine_step_on C e i = Inr (e1, r)" "run_engine C (e1, record_result t r) is = Inr (e', t')"
    using Cons.prems(1) by (auto simp: bindr_Inr_iff)
  have "input_ok (genuine C [(e, t)]) i" using Cons.prems(3) by (cases i) auto
  then have "reach C S height [(e1, record_result t r)]"
    using reach.step [OF Cons.prems(2), of 0 e t i e1 r] s(1) by simp
  then show ?case using Cons.IH [OF s(2)] Cons.prems(3) by simp
qed simp

definition demo_inputs :: "engine_input list" where
  "demo_inputs = [Submit [demo_record] [], Restart (\<lambda>_. 7) 0, Submit [demo_record] [], Timeout]"

definition demo_commits :: "engine result \<Rightarrow> nat" where
  "demo_commits r = (case bindr r (\<lambda>e. run_engine padded_crypto (e, empty_history) demo_inputs)
     of Inl _ \<Rightarrow> 0 | Inr (_, t) \<Rightarrow> length (filter (\<lambda>m. m_type m = COMMIT) (sent t)))"

lemma demo_commits_two:
  "demo_commits (make_engine padded_crypto demo_set (demo_key (CHR ''a'')) 1 ZERO_HASH (\<lambda>_. 7) 0
     (InMemoryVoteJournal empty_memory_journal)) = 2"
  by code_simp

theorem same_round_agreement_witness:
  "\<exists>ns e t m m'. reach padded_crypto demo_set 1 ns \<and> (e, t) \<in> set ns \<and>
     filter (\<lambda>m. m_type m = COMMIT) (sent t) = [m, m'] \<and>
     (m_round m = m_round m' \<longrightarrow> m_block_hash m = m_block_hash m')"
proof -
  obtain e where e: "make_engine padded_crypto demo_set (demo_key (CHR ''a'')) 1 ZERO_HASH (\<lambda>_. 7) 0
      (InMemoryVoteJournal empty_memory_journal) = Inr e" using demo_engine_made by blast
  have "fresh_node padded_crypto demo_set 1 (e, empty_history)"
    by (rule fresh_nodeI [OF demo_key_ok demo_journal(1,3) e])
  then have start: "reach padded_crypto demo_set 1 [(e, empty_history)]" by (intro reach.start) auto
  obtain e' t where run: "run_engine padded_crypto (e, empty_history) demo_inputs = Inr (e', t)"
    and two: "length (filter (\<lambda>m. m_type m = COMMIT) (sent t)) = 2"
    using demo_commits_two e by (auto simp: demo_commits_def split: sum.splits)
  have r: "reach padded_crypto demo_set 1 [(e', t)]"
    by (rule run_reach [OF run start]) (simp add: demo_inputs_def)
  obtain m m' where m: "filter (\<lambda>m. m_type m = COMMIT) (sent t) = [m, m']"
    using two by (auto simp: length_Suc_conv numeral_2_eq_2)
  then have "m \<in> set (filter (\<lambda>m. m_type m = COMMIT) (sent t))" "m' \<in> set (filter (\<lambda>m. m_type m = COMMIT) (sent t))"
    by simp_all
  then have mem: "m \<in> set (sent t)" "m_type m = COMMIT" "m' \<in> set (sent t)" "m_type m' = COMMIT" by auto
  have "node_ok padded_crypto demo_set 1 (genuine padded_crypto [(e', t)]) (e', t)"
    using reach_ok [OF r padded_crypto_correct] make_validator_set_ok [OF demo_set_made] by simp
  then have "members demo_set - {e_me padded_crypto x | x u. (x, u) \<in> set [(e', t)]} = {}"
    by (auto simp: node_ok_def engine_ok_def setup_ok_def contains_iff members_def demo_set_def)
  then have "int (card (members demo_set - {e_me padded_crypto x | x u. (x, u) \<in> set [(e', t)]})) \<le> max_faulty demo_set"
    by (simp add: max_faulty_def vs_size_def demo_set_def)
  then have "m_round m = m_round m' \<Longrightarrow> m_block_hash m = m_block_hash m'"
    using same_round_agreement [OF demo_set_made padded_crypto_correct r _ _ mem(1,2) _ mem(3,4), of e' e'] by simp
  then show ?thesis using r m by fastforce
qed

end
