(* ===== verification/Agreement_Failure.thy ===== *)
theory Agreement_Failure
  imports Agreement
begin

text \<open>
  Agreement across rounds fails. A script of inputs and deliveries is played on four correct
  validators; playing it stays within the reachable states of the cluster, and it ends with
  two different finalized blocks at one height. The cause: after a validator has sent its
  ROUND\_CHANGE for round 1 without a lock, it still prepares and commits in round 0; the
  lock-free ROUND\_CHANGEs later justify a fresh block in round 1.
\<close>

section \<open>Playing a script\<close>

datatype action =
    Local nat engine_input
  | Deliver nat nat nat   \<comment> \<open>to a validator, from a validator, the number of its message\<close>

definition take_step :: "crypto \<Rightarrow> cluster \<Rightarrow> nat \<Rightarrow> engine_input \<Rightarrow> cluster" where
  "take_step C ns i inp = (case engine_step_on C (fst (ns ! i)) inp of
     Inl _ \<Rightarrow> ns | Inr (e, r) \<Rightarrow> ns[i := (e, record_result (snd (ns ! i)) r)])"

fun is_receive :: "engine_input \<Rightarrow> bool" where
  "is_receive (Receive m) = True"
| "is_receive _ = False"

definition cert_plain :: "consensus_message \<Rightarrow> bool" where
  "cert_plain m = list_all (\<lambda>x. m_type x = ROUND_CHANGE \<and> canonical_hex (m_sender x)) (m_round_change_cert m)"

fun play :: "crypto \<Rightarrow> cluster \<Rightarrow> action \<Rightarrow> cluster" where
  "play C ns (Local i inp) = (if i < length ns \<and> \<not> is_receive inp then take_step C ns i inp else ns)"
| "play C ns (Deliver i j k) =
     (if i < length ns \<and> j < length ns \<and> k < length (sent (snd (ns ! j)))
         \<and> cert_plain (sent (snd (ns ! j)) ! k)
      then take_step C ns i (Receive (sent (snd (ns ! j)) ! k)) else ns)"

lemma take_step_reach:
  assumes "reach C S height ns" "i < length ns" "input_ok (genuine C ns) inp"
  shows "reach C S height (take_step C ns i inp)"
proof (cases "engine_step_on C (fst (ns ! i)) inp")
  case (Inr p)
  obtain e r where p: "p = (e, r)" by (cases p)
  show ?thesis
    using reach.step [OF assms(1,2) _ assms(3), of "fst (ns ! i)" "snd (ns ! i)" e r] Inr p
    by (simp add: take_step_def)
qed (use assms(1) in \<open>simp add: take_step_def\<close>)

lemma sent_genuine:
  assumes ok: "\<forall>n \<in> set ns. node_ok C S height (genuine C ns) n" "distinct (map (\<lambda>n. e_me C (fst n)) ns)"
    and m: "(e, t) \<in> set ns" "m \<in> set (sent t)"
  shows "genuine C ns m"
proof -
  have n: "node_ok C S height (genuine C ns) (e, t)" using ok(1) m(1) by blast
  then have s: "m_sender m = public_to_hex (e_me C e)"
    using m(2) by (fastforce simp: node_ok_def sent_ok_def e_me_def)
  then have k: "public_from_hex C (m_sender m) = Inr (e_me C e)"
    using n private_public_from_hex by (simp add: node_ok_def engine_ok_def setup_ok_def e_me_def)
  have "(e', t') = (e, t)" if "(e', t') \<in> set ns" "e_me C e' = e_me C e" for e' t'
    using that m(1) ok(2) by (intro inj_onD [of "\<lambda>n. e_me C (fst n)" "set ns"]) (auto simp: distinct_map)
  then show ?thesis using m(2) k s by (fastforce simp: genuine_def public_to_hex_def)
qed

lemma play_reach:
  assumes "reach C S height ns" "ed25519_correct C" "vs_ok S"
  shows "reach C S height (play C ns a)"
proof (cases a)
  case (Local i inp)
  have "input_ok (genuine C ns) inp" if "\<not> is_receive inp" using that by (cases inp) auto
  then show ?thesis using Local assms(1) take_step_reach [OF assms(1), of i inp] by simp
next
  case (Deliver i j k)
  let ?m = "sent (snd (ns ! j)) ! k"
  have "genuine C ns ?m" if "j < length ns" "k < length (sent (snd (ns ! j)))"
    using sent_genuine [of ns C S height "fst (ns ! j)" "snd (ns ! j)" ?m] reach_ok [OF assms] that by simp
  moreover have "genuine C ns x" if "cert_plain ?m" "x \<in> set (m_round_change_cert ?m)" for x
    using that by (auto simp: cert_plain_def list_all_iff genuine_def)
  ultimately have "input_ok (genuine C ns) (Receive ?m)"
    if "j < length ns" "k < length (sent (snd (ns ! j)))" "cert_plain ?m"
    using that by (simp add: deliverable_def)
  then show ?thesis using Deliver assms(1) take_step_reach [OF assms(1), of i "Receive ?m"] by simp
qed

lemma foldl_play_reach:
  "reach C S height ns \<Longrightarrow> ed25519_correct C \<Longrightarrow> vs_ok S \<Longrightarrow> reach C S height (foldl (play C) ns as)"
  by (induction "as" arbitrary: ns) (simp_all add: play_reach)

lemma length_play [simp]: "length (play C ns a) = length ns"
  by (cases a) (simp_all add: take_step_def split: sum.splits prod.splits)

lemma length_foldl_play [simp]: "length (foldl (play C) ns as) = length ns"
  by (induction "as" arbitrary: ns) simp_all

text \<open>When there are as many correct validators as members, every member is correct.\<close>

lemma all_correct:
  assumes "reach C S height ns" "ed25519_correct C" "vs_ok S" "int (length ns) = vs_size S"
  shows "{e_me C e | e t. (e, t) \<in> set ns} = members S"
proof -
  let ?K = "(\<lambda>n. e_me C (fst n)) ` set ns"
  have r: "\<forall>n \<in> set ns. node_ok C S height (genuine C ns) n" "distinct (map (\<lambda>n. e_me C (fst n)) ns)"
    using reach_ok [OF assms(1-3)] by auto
  have "?K \<subseteq> members S" using r(1) by (auto simp: node_ok_def engine_ok_def setup_ok_def contains_iff)
  moreover have "card ?K = card (members S)"
    using r(2) assms(3,4) vs_size_card [OF assms(3)] distinct_card [OF r(2)] by simp
  ultimately have "?K = members S" by (intro card_subset_eq) auto
  then show ?thesis by force
qed


section \<open>The run\<close>

definition four_set :: validator_set where
  "four_set = \<lparr>vs_validators = map (\<lambda>c. private_public short_crypto (demo_key c)) [CHR ''a'', CHR ''b'', CHR ''c'', CHR ''d'']\<rparr>"

definition four_engine :: "char \<Rightarrow> int \<Rightarrow> engine result" where
  "four_engine c clock = make_engine short_crypto four_set (demo_key c) 1 ''00'' (\<lambda>_. clock) 0
     (InMemoryVoteJournal empty_memory_journal)"

definition four_start :: cluster where
  "four_start = concat (map (\<lambda>(c, clock). case four_engine c clock of Inl _ \<Rightarrow> [] | Inr e \<Rightarrow> [(e, empty_history)])
     [(CHR ''a'', 5), (CHR ''b'', 6), (CHR ''c'', 7), (CHR ''d'', 8)])"

definition four_script :: "action list" where
  "four_script =
     [Local 1 (Submit [demo_record] []), Deliver 0 1 0, Deliver 2 1 0,
      Local 0 Timeout, Local 2 Timeout, Local 3 Timeout,
      Deliver 1 0 0, Deliver 1 2 0, Deliver 0 1 1, Deliver 0 2 0, Deliver 2 1 1, Deliver 2 0 0,
      Deliver 1 0 2, Deliver 1 2 2,
      Deliver 2 0 1, Deliver 2 3 0, Deliver 0 2 3, Deliver 3 2 3,
      Deliver 0 2 4, Deliver 0 3 1, Deliver 3 2 4, Deliver 3 0 3, Deliver 2 0 3, Deliver 2 3 1,
      Deliver 2 0 4, Deliver 2 3 2]"


definition finals :: "cluster \<Rightarrow> (int \<times> bool \<times> string) list list" where
  "finals ns = map (\<lambda>n. map (\<lambda>b. (block_index b, verify_finality short_crypto b four_set, block_hash short_crypto b))
     (final (snd n))) ns"

lemma four_finals:
  "finals (foldl (play short_crypto) four_start four_script)
     = [[], [(1, True, ''363a2270'')], [(1, True, ''373a2270'')], []]"
  by code_simp

lemma four_set_made:
  "make_validator_set (map (\<lambda>c. private_public short_crypto (demo_key c)) [CHR ''a'', CHR ''b'', CHR ''c'', CHR ''d''])
     = Inr four_set"
  by code_simp

lemma four_engine_made: "c \<in> {CHR ''a'', CHR ''b'', CHR ''c'', CHR ''d''} \<Longrightarrow> \<exists>e. four_engine c clock = Inr e"
  by (auto simp: four_engine_def make_engine_def Let_def four_set_def contains_def)

lemma four_start_reach: "reach short_crypto four_set 1 four_start" "length four_start = 4"
proof -
  obtain a b c d where e: "four_engine (CHR ''a'') 5 = Inr a" "four_engine (CHR ''b'') 6 = Inr b"
    "four_engine (CHR ''c'') 7 = Inr c" "four_engine (CHR ''d'') 8 = Inr d"
    using four_engine_made [of "CHR ''a''" 5] four_engine_made [of "CHR ''b''" 6]
      four_engine_made [of "CHR ''c''" 7] four_engine_made [of "CHR ''d''" 8] by auto
  have ns: "four_start = map (\<lambda>e. (e, empty_history)) [a, b, c, d]" by (simp add: four_start_def e)
  have "e_me short_crypto a = private_public short_crypto (demo_key (CHR ''a''))"
    "e_me short_crypto b = private_public short_crypto (demo_key (CHR ''b''))"
    "e_me short_crypto c = private_public short_crypto (demo_key (CHR ''c''))"
    "e_me short_crypto d = private_public short_crypto (demo_key (CHR ''d''))"
    using e [unfolded four_engine_def, THEN make_engine_Inr(1)] by (simp_all add: e_me_def static_def)
  then have "distinct (map (\<lambda>n. e_me short_crypto (fst n)) four_start)"
    by (simp add: ns private_public_def short_crypto_def demo_key_def)
  moreover have "list_all (fresh_node short_crypto four_set 1) four_start"
    using e [unfolded four_engine_def, THEN fresh_nodeI [OF demo_key_ok demo_journal(1,3)]] by (simp add: ns)
  ultimately show "reach short_crypto four_set 1 four_start" by (rule reach.start [rotated])
  show "length four_start = 4" by (simp add: ns)
qed

text \<open>C6: agreement fails across rounds. There is a reachable state of a cluster of four
  validators, all of them correct and none of their messages forged, in which two validators
  have finalized different blocks at the same height, each with a finality certificate that
  \<open>verify_finality\<close> accepts.\<close>

theorem agreement_fails_across_rounds:
  "\<exists>ns e t b e' t' b'. reach short_crypto four_set 1 ns \<and>
     {e_me short_crypto e | e t. (e, t) \<in> set ns} = members four_set \<and>
     (e, t) \<in> set ns \<and> b \<in> set (final t) \<and> (e', t') \<in> set ns \<and> b' \<in> set (final t') \<and>
     block_index b = block_index b' \<and> block_hash short_crypto b \<noteq> block_hash short_crypto b' \<and>
     verify_finality short_crypto b four_set \<and> verify_finality short_crypto b' four_set"
proof -
  define ns where "ns = foldl (play short_crypto) four_start four_script"
  have S: "vs_ok four_set" using make_validator_set_ok [OF four_set_made] by simp
  have r: "reach short_crypto four_set 1 ns"
    unfolding ns_def by (rule foldl_play_reach [OF four_start_reach(1) short_crypto_correct S])
  have len: "length ns = 4" by (simp add: ns_def four_start_reach(2))
  have all: "{e_me short_crypto e | e t. (e, t) \<in> set ns} = members four_set"
    by (rule all_correct [OF r short_crypto_correct S]) (simp add: len vs_size_def four_set_def)
  have f: "finals ns = [[], [(1, True, ''363a2270'')], [(1, True, ''373a2270'')], []]"
    unfolding ns_def by (rule four_finals)
  have "finals ns ! 1 = [(1, True, ''363a2270'')]" "finals ns ! 2 = [(1, True, ''373a2270'')]"
    by (simp_all add: f)
  then obtain b b' where b: "final (snd (ns ! 1)) = [b]" "block_index b = 1" "verify_finality short_crypto b four_set"
      "block_hash short_crypto b = ''363a2270''"
    and b': "final (snd (ns ! 2)) = [b']" "block_index b' = 1" "verify_finality short_crypto b' four_set"
      "block_hash short_crypto b' = ''373a2270''"
    using len by (auto simp: finals_def)
  have "(fst (ns ! 1), snd (ns ! 1)) \<in> set ns" "(fst (ns ! 2), snd (ns ! 2)) \<in> set ns" using len by auto
  moreover have "block_index b = block_index b'" "block_hash short_crypto b \<noteq> block_hash short_crypto b'"
    using b b' by simp_all
  moreover have "b \<in> set (final (snd (ns ! 1)))" "b' \<in> set (final (snd (ns ! 2)))" using b(1) b'(1) by simp_all
  ultimately show ?thesis using r all b(3) b'(3) by blast
qed

section \<open>Finality from one validator\<close>

lemma fromhex_space: "bytes_fromhex (CHR '' '' # s) = bytes_fromhex s"
  by (cases s) (simp_all add: is_space_def)

lemma fromhex_spaces: "bytes_fromhex (replicate n (CHR '' '') @ s) = bytes_fromhex s"
  by (induction n) (simp_all add: fromhex_space)

definition spelled_seals :: "nat \<Rightarrow> public_key \<Rightarrow> bytes \<Rightarrow> (string, string) dict" where
  \<comment> \<open>one seal under \<open>n\<close> spellings of its validator, with leading spaces\<close>
  "spelled_seals n k seal = map (\<lambda>i. (replicate i (CHR '' '') @ public_to_hex k, hex_of_bytes seal)) [0..<n]"

text \<open>C9: \<open>verify_finality\<close> does not count distinct validators. From the commit seal of a
  single validator anyone can make a certificate that it accepts, by repeating the seal
  under different spellings of the same key; the entries have pairwise different names.\<close>

theorem one_seal_forges_finality:
  assumes "contains S k" "public_bytes_ok C (raw_public k)" "public_verify C k seal (block_hash C b)"
  shows "verify_finality C (b\<lparr>commit_signatures := spelled_seals (nat (quorum S)) k seal\<rparr>) S \<and>
    dict_ok (spelled_seals (nat (quorum S)) k seal) \<and>
    (\<forall>p \<in> set (spelled_seals (nat (quorum S)) k seal). public_from_hex C (fst p) = Inr k)"
proof -
  have key: "public_from_hex C (replicate i (CHR '' '') @ public_to_hex k) = Inr k" for i
    using public_from_hex_to_hex [OF assms(2)] by (simp add: public_from_hex_def fromhex_spaces)
  let ?b = "b\<lparr>commit_signatures := spelled_seals (nat (quorum S)) k seal\<rparr>"
  have "block_hash C ?b = block_hash C b" by (simp add: block_hash_def)
  then have "filter (valid_seal C S (block_hash C ?b)) (commit_signatures ?b) = commit_signatures ?b"
    using assms(1,3) by (auto simp: spelled_seals_def valid_seal_def key intro: filter_True)
  then have "verify_finality C ?b S" by (simp add: verify_finality_def spelled_seals_def)
  moreover have "dict_ok (spelled_seals n k seal)" for n
    by (auto simp: dict_ok_def spelled_seals_def distinct_map inj_on_def comp_def)
  ultimately show ?thesis using key by (auto simp: spelled_seals_def)
qed

theorem one_seal_forges_finality_witness:
  "verify_finality short_crypto ((genesis_block short_crypto None ''p'' 5)\<lparr>commit_signatures :=
      spelled_seals (nat (quorum four_set)) (PublicKey ''a'')
        (private_sign short_crypto (demo_key (CHR ''a'')) (block_hash short_crypto (genesis_block short_crypto None ''p'' 5)))\<rparr>)
     four_set"
proof -
  have k: "PublicKey ''a'' = private_public short_crypto (demo_key (CHR ''a''))"
    by (simp add: private_public_def short_crypto_def demo_key_def)
  have "contains four_set (PublicKey ''a'')" by (simp add: contains_def four_set_def k)
  moreover have "public_bytes_ok short_crypto (raw_public (PublicKey ''a''))" by (simp add: short_crypto_def)
  ultimately show ?thesis
    using one_seal_forges_finality [of four_set "PublicKey ''a''" short_crypto
        "private_sign short_crypto (demo_key (CHR ''a'')) (block_hash short_crypto (genesis_block short_crypto None ''p'' 5))"]
      public_verify_sign [OF short_crypto_correct demo_key_ok, of "CHR ''a''", folded k] by blast
qed

text \<open>
  The engine counts votes by the text of their sender, which the signature does not cover
  either. So one member can vote as often as it likes.
\<close>

definition respelled :: "nat \<Rightarrow> consensus_message \<Rightarrow> consensus_message" where
  "respelled i m = (case m of ConsensusMessage t height rnd bh sender sig blk seal prep_round prep_cert rc_cert \<Rightarrow>
     ConsensusMessage t height rnd bh (replicate i (CHR '' '') @ sender) sig blk seal prep_round prep_cert rc_cert)"

definition spelled_votes :: "message_type \<Rightarrow> int \<Rightarrow> block \<Rightarrow> consensus_message list" where
  \<comment> \<open>three votes of the validator b\<close>
  "spelled_votes t rnd b = map (\<lambda>i. respelled i (message_create short_crypto t 1 rnd (block_hash short_crypto b)
     (demo_key (CHR ''b'')) None None [] [])) [0..<3]"

definition split_attack :: "int \<Rightarrow> block \<times> consensus_message list" where
  \<comment> \<open>the proposer b proposes a block, prepares it and commits it\<close>
  "split_attack clock = (let b = block_create short_crypto 1 ''00'' clock ''b'' [] [] in
     (b, message_create short_crypto PRE_PREPARE 1 0 (block_hash short_crypto b) (demo_key (CHR ''b'')) (Some b) None [] []
         # spelled_votes PREPARE 0 b @ spelled_votes COMMIT 0 b))"

definition unlinked_block :: block where
  "unlinked_block = block_create short_crypto 1 ''ff'' 9 ''b'' [] []"

definition unlinked_attack :: "consensus_message list" where
  \<comment> \<open>b claims a lock on a block of another chain, for the round whose proposer is c\<close>
  "unlinked_attack = map (\<lambda>i. respelled i (message_create short_crypto ROUND_CHANGE 1 1
       (block_hash short_crypto unlinked_block) (demo_key (CHR ''b'')) (Some unlinked_block) (Some 0)
       (spelled_votes PREPARE 0 unlinked_block) [])) [0..<3]
     @ spelled_votes PREPARE 1 unlinked_block @ spelled_votes COMMIT 1 unlinked_block"

definition attacked :: "char \<Rightarrow> consensus_message list \<Rightarrow> (int \<times> string \<times> bool \<times> string) list" where
  \<comment> \<open>what a correct validator finalizes from these messages: index, previous hash, accepted, hash\<close>
  "attacked c ms = (case bindr (four_engine c 5) (\<lambda>e. run_engine short_crypto (e, empty_history) (map Receive ms)) of
     Inl _ \<Rightarrow> []
   | Inr (e, t) \<Rightarrow> map (\<lambda>b. (block_index b, previous_hash (header b), verify_finality short_crypto b four_set,
       block_hash short_crypto b)) (final t))"

definition from_b :: "consensus_message \<Rightarrow> bool" where
  "from_b m = (public_from_hex short_crypto (m_sender m) = Inr (private_public short_crypto (demo_key (CHR ''b''))))"

text \<open>Agreement within a round needs canonically spelled senders. Of four validators one is
  faulty, the proposer of round 0. It sends one block to the validator a and another one to c,
  each with its own votes under three spellings of its key: both commit to their block and report
  it as final, in the same round and without a message from anybody else. In the block the seals
  are filed under the parsed key, so only two are left and \<open>verify_finality\<close> refuses it; the node
  starts the height anew, but has already sent its COMMIT.\<close>

theorem spellings_break_agreement:
  "attacked (CHR ''a'') (snd (split_attack 6)) = [(1, ''00'', False, ''363a2270'')] \<and>
   attacked (CHR ''c'') (snd (split_attack 7)) = [(1, ''00'', False, ''373a2270'')] \<and>
   list_all from_b (snd (split_attack 6) @ snd (split_attack 7))"
proof (intro conjI)
  show "attacked (CHR ''a'') (snd (split_attack 6)) = [(1, ''00'', False, ''363a2270'')]" by code_simp
  show "attacked (CHR ''c'') (snd (split_attack 7)) = [(1, ''00'', False, ''373a2270'')]" by code_simp
  show "list_all from_b (snd (split_attack 6) @ snd (split_attack 7))" by code_simp
qed

text \<open>A block proposed again from a round-change certificate is not checked. The faulty
  validator b alone makes the correct validator c, the proposer of round 1, propose, prepare,
  commit and report as final a block that names another predecessor than the engine's.\<close>

theorem relocked_block_unchecked:
  "attacked (CHR ''c'') unlinked_attack = [(1, ''ff'', False, ''393a2270'')] \<and> list_all from_b unlinked_attack \<and>
   (\<exists>e. four_engine (CHR ''c'') 5 = Inr e \<and> e_previous_hash e = ''00'')"
proof (intro conjI)
  show "attacked (CHR ''c'') unlinked_attack = [(1, ''ff'', False, ''393a2270'')]" by code_simp
  show "list_all from_b unlinked_attack" by code_simp
  show "\<exists>e. four_engine (CHR ''c'') 5 = Inr e \<and> e_previous_hash e = ''00''"
    using four_engine_made [of "CHR ''c''" 5] make_engine_Inr(1) by (fastforce simp: four_engine_def static_def)
qed

end
