(* ===== verification/Engine_Progress.thy ===== *)
theory Engine_Progress
  imports Validator_Run
begin

text \<open>
  Progress of the engine in round 0. A height is decided in its first round if the proposer
  proposes one block and enough votes for it arrive: then every engine finalizes it, in
  whatever order proposal and votes arrive and whatever else is sent besides. From this, a
  cluster in which a quorum of validators with the proposer is correct and exchanges its
  messages finalizes the proposed block in three exchanges, if the other validators have stopped
  and send nothing.
\<close>

section \<open>Definitions\<close>

definition same_contents :: "block \<Rightarrow> block \<Rightarrow> bool" where
  \<comment> \<open>equal up to the commit signatures\<close>
  "same_contents a b \<longleftrightarrow> header a = header b \<and> records a = records b \<and> validator_changes a = validator_changes b"

definition voters :: "crypto \<Rightarrow> validator_set \<Rightarrow> int \<Rightarrow> string \<Rightarrow> message_type \<Rightarrow> consensus_message list \<Rightarrow> string set" where
  \<comment> \<open>the senders of the votes of one kind for a block in round 0 that an engine counts\<close>
  "voters C S h bh ty ms = set (map m_sender (filter (\<lambda>m. m_type m = ty \<and> m_height m = h \<and> m_round m = 0 \<and>
     m_block_hash m = bh \<and> authentic C S m \<and> (ty = COMMIT \<longrightarrow> valid_commit_seal C m)) ms))"

definition proposes :: "crypto \<Rightarrow> validator_set \<Rightarrow> int \<Rightarrow> block \<Rightarrow> consensus_message \<Rightarrow> bool" where
  \<comment> \<open>the proposer's proposal of the block in round 0\<close>
  "proposes C S h b m \<longleftrightarrow> m_type m = PRE_PREPARE \<and> m_height m = h \<and> m_round m = 0 \<and> authentic C S m \<and>
     public_from_hex C (m_sender m) = Inr (proposer S h 0) \<and> m_block m = Some b \<and> m_block_hash m = block_hash C b"

definition undisturbed :: "crypto \<Rightarrow> validator_set \<Rightarrow> int \<Rightarrow> block \<Rightarrow> consensus_message \<Rightarrow> bool" where
  \<comment> \<open>no round change, and no other proposal by the proposer\<close>
  "undisturbed C S h b m \<longleftrightarrow> (m_height m = h \<and> authentic C S m \<longrightarrow> m_type m \<noteq> ROUND_CHANGE \<and>
     (m_type m = PRE_PREPARE \<longrightarrow> m_round m \<le> 0 \<and>
        (m_round m = 0 \<and> public_from_hex C (m_sender m) = Inr (proposer S h 0) \<longrightarrow> m_block m = Some b)))"

definition own_prepare :: "crypto \<Rightarrow> block \<Rightarrow> engine \<Rightarrow> consensus_message" where
  "own_prepare C b e = message_create C PREPARE (e_height e) 0 (block_hash C b) (e_private_key e) None None [] []"

definition own_commit :: "crypto \<Rightarrow> block \<Rightarrow> engine \<Rightarrow> consensus_message" where
  "own_commit C b e = message_create C COMMIT (e_height e) 0 (block_hash C b) (e_private_key e) None None [] []"

definition locked :: "engine \<Rightarrow> bool" where
  "locked e \<longleftrightarrow> e_phase e \<in> {PREPARED, COMMITTED}"

definition round0 ::
    "crypto \<Rightarrow> block \<Rightarrow> bool \<Rightarrow> consensus_message list \<Rightarrow> consensus_message list \<Rightarrow> engine \<Rightarrow> history \<Rightarrow> bool" where
  \<comment> \<open>an engine in round 0 that has received \<open>ms\<close>, has accepted the block if \<open>seen\<close>, and sent
      \<open>pre\<close> before its votes\<close>
  "round0 C b seen ms pre e t \<longleftrightarrow>
     e_round e = 0 \<and> (e_phase e = NEW_ROUND \<longleftrightarrow> \<not> seen) \<and>
     (if seen then \<exists>p. e_proposal e = Some p \<and> same_contents p b \<and> final t = (if e_phase e = COMMITTED then [p] else [])
      else e_proposal e = None \<and> final t = []) \<and>
     dict_ok (dict_get_list (e_prepares e) (block_hash C b)) \<and>
     fst ` set (dict_get_list (e_prepares e) (block_hash C b)) =
       voters C (e_validators e) (e_height e) (block_hash C b) PREPARE ms \<union> (if seen then {public_to_hex (e_me C e)} else {}) \<and>
     dict_ok (dict_get_list (e_commits e) (block_hash C b)) \<and>
     fst ` set (dict_get_list (e_commits e) (block_hash C b)) =
       voters C (e_validators e) (e_height e) (block_hash C b) COMMIT ms \<union> (if locked e then {public_to_hex (e_me C e)} else {}) \<and>
     voted_hash (e_journal e) 0 J_PREPARE \<in> {None, Some (block_hash C b)} \<and>
     voted_hash (e_journal e) 0 J_COMMIT \<in> {None, Some (block_hash C b)} \<and>
     sent t = pre @ (if seen then [own_prepare C b e] else []) @ (if locked e then [own_commit C b e] else [])"

definition waiting :: "crypto \<Rightarrow> block \<Rightarrow> engine \<Rightarrow> bool" where
  \<comment> \<open>no step is due\<close>
  "waiting C b e \<longleftrightarrow>
     (e_phase e = PRE_PREPARED \<longrightarrow> int (length (dict_get_list (e_prepares e) (block_hash C b))) < quorum (e_validators e)) \<and>
     (e_phase e = PREPARED \<longrightarrow> int (length (dict_get_list (e_commits e) (block_hash C b))) < quorum (e_validators e))"


section \<open>Advancing\<close>

lemma same_contents_hash: "same_contents p b \<Longrightarrow> block_hash C p = block_hash C b"
  by (simp add: same_contents_def block_hash_def)

lemma voted_record_vote:
  "voted_hash j r' p' \<in> {None, Some h} \<Longrightarrow> voted_hash (record_vote j r p h) r' p' \<in> {None, Some h}"
  by (cases j) (auto simp: sql_record_vote_def)

lemma voted_record_prepared [simp]: "voted_hash (record_prepared C j r b c) r' p' = voted_hash j r' p'"
  by (cases j) (auto simp: sql_record_prepared_def)

lemma voters_append [simp]: "voters C S h bh ty (xs @ ys) = voters C S h bh ty xs \<union> voters C S h bh ty ys"
  by (simp add: voters_def)

lemma voters_Nil [simp]: "voters C S h bh ty [] = {}"
  by (simp add: voters_def)

lemma voters_mono: "set xs \<subseteq> set ys \<Longrightarrow> voters C S h bh ty xs \<subseteq> voters C S h bh ty ys"
  unfolding voters_def set_map set_filter by (intro image_mono) auto

lemma record_result_simps [simp]:
  "sent (record_result t r) = sent t @ broadcast r"
  "final (record_result t r) = final t @ (case committed_block r of None \<Rightarrow> [] | Some b \<Rightarrow> [b])"
  by (simp_all add: record_result_def)

lemma try_prepare_round0:
  assumes r0: "round0 C b True ms pre e (record_result t r)" and p: "e_proposal e = Some p"
    and st: "try_prepare C p (e, r) = (e', r')"
  shows "round0 C b True ms pre e' (record_result t r') \<and> e_proposal e' = Some p \<and>
    (e_phase e' = PRE_PREPARED \<longrightarrow> int (length (dict_get_list (e_prepares e') (block_hash C b))) < quorum (e_validators e'))"
proof -
  have h: "block_hash C p = block_hash C b" using r0 p by (auto simp: round0_def same_contents_hash)
  show ?thesis
  proof (cases "e_phase e = PRE_PREPARED \<and> int (length (dict_get_list (e_prepares e) (block_hash C b))) \<ge> quorum (e_validators e)")
    case False
    then have "try_prepare C p (e, r) = (e, r)" using h by (auto simp: try_prepare_def Let_def)
    then show ?thesis using False r0 p st by auto
  next
    case True
    let ?j = "record_vote (record_prepared C (e_journal e) 0 p (dict_values (dict_get_list (e_prepares e) (block_hash C b)))) 0 J_COMMIT (block_hash C b)"
    have v: "voted_hash (e_journal e) 0 J_COMMIT \<in> {None, Some (block_hash C b)}" "e_round e = 0"
      and ph: "final t = []" "committed_block r = None"
      using r0 True by (auto simp: round0_def split: option.splits)
    then have st': "e' = e\<lparr>e_phase := PREPARED, e_prepared_round := Some 0, e_prepared_block := Some p,
          e_prepared_cert := dict_values (dict_get_list (e_prepares e) (block_hash C b)), e_journal := ?j,
          e_commits := dict_set2 (block_hash C b) (public_to_hex (e_me C e)) (the (m_commit_seal (own_commit C b e))) (e_commits e)\<rparr>"
      "r' = r\<lparr>broadcast := broadcast r @ [own_commit C b e]\<rparr>"
      using st True h by (auto simp: try_prepare_def Let_def emit_def own_commit_def)
    have j: "voted_hash ?j 0 J_PREPARE \<in> {None, Some (block_hash C b)}" "voted_hash ?j 0 J_COMMIT \<in> {None, Some (block_hash C b)}"
      using r0 by (intro voted_record_vote, simp add: round0_def)+
    show ?thesis
      using r0 True j p ph unfolding st' round0_def locked_def
      by (auto simp: dict_ok_set own_prepare_def own_commit_def e_me_def)
  qed
qed

lemma try_commit_round0:
  assumes r0: "round0 C b True ms pre e (record_result t r)" and p: "e_proposal e = Some p"
    and st: "try_commit C p (e, r) = (e', r')"
    and w: "e_phase e = PRE_PREPARED \<Longrightarrow> int (length (dict_get_list (e_prepares e) (block_hash C b))) < quorum (e_validators e)"
  shows "round0 C b True ms pre e' (record_result t r') \<and> waiting C b e'"
proof -
  have h: "block_hash C p = block_hash C b" using r0 p by (auto simp: round0_def same_contents_hash)
  show ?thesis
  proof (cases "e_phase e = PREPARED \<and> int (length (dict_get_list (e_commits e) (block_hash C b))) \<ge> quorum (e_validators e)")
    case False
    then have "try_commit C p (e, r) = (e, r)" using h by (auto simp: try_commit_def Let_def)
    then show ?thesis using False r0 p st w by (auto simp: waiting_def)
  next
    case True
    have ph: "final t = []" "committed_block r = None" "same_contents p b" using r0 True p by (auto simp: round0_def split: option.splits)
    have st': "e' = e\<lparr>e_phase := COMMITTED, e_proposal := Some (finalize C p (dict_get_list (e_commits e) (block_hash C b))),
         e_prepared_block := Some (finalize C p (dict_get_list (e_commits e) (block_hash C b)))\<rparr>"
      "r' = r\<lparr>committed_block := Some (finalize C p (dict_get_list (e_commits e) (block_hash C b)))\<rparr>"
      using st True h by (auto simp: try_commit_def Let_def)
    show ?thesis
      using r0 True ph unfolding st' round0_def locked_def waiting_def
      by (auto simp: own_prepare_def own_commit_def e_me_def same_contents_def)
  qed
qed

lemma advance_round0:
  assumes r0: "round0 C b seen ms pre e (record_result t r)" and st: "maybe_advance C (e, r) = (e', r')"
  shows "round0 C b seen ms pre e' (record_result t r') \<and> waiting C b e'"
proof (cases seen)
  case False
  then have "e' = e" "r' = r" "e_phase e = NEW_ROUND" using r0 st by (auto simp: round0_def maybe_advance_def)
  then show ?thesis using r0 by (simp add: waiting_def)
next
  case True
  then obtain p where p: "e_proposal e = Some p" using r0 by (auto simp: round0_def)
  obtain e1 r1 where t1: "try_prepare C p (e, r) = (e1, r1)" by fastforce
  have "round0 C b True ms pre e (record_result t r)" using r0 True by simp
  note a = try_prepare_round0 [OF this p t1]
  have "try_commit C p (e1, r1) = (e', r')" using st p t1 by (simp add: maybe_advance_def)
  with try_commit_round0 [of C b ms pre e1 t r1 p e' r'] a True show ?thesis by simp
qed


section \<open>One message\<close>

lemma voters_single:
  "voters C S h bh ty [m] = (if m_type m = ty \<and> m_height m = h \<and> m_round m = 0 \<and> m_block_hash m = bh \<and> authentic C S m \<and>
     (ty = COMMIT \<longrightarrow> valid_commit_seal C m) then {m_sender m} else {})"
  by (simp add: voters_def)

lemma round0_update:
  assumes "round0 C b seen ms pre e t"
    and f: "static e' = static e" "e_round e' = e_round e" "e_phase e' = e_phase e" "e_proposal e' = e_proposal e"
    "e_journal e' = e_journal e"
    and p: "dict_ok (dict_get_list (e_prepares e') (block_hash C b))"
    "fst ` set (dict_get_list (e_prepares e') (block_hash C b)) = fst ` set (dict_get_list (e_prepares e) (block_hash C b)) \<union>
       voters C (e_validators e) (e_height e) (block_hash C b) PREPARE new"
    and c: "dict_ok (dict_get_list (e_commits e') (block_hash C b))"
    "fst ` set (dict_get_list (e_commits e') (block_hash C b)) = fst ` set (dict_get_list (e_commits e) (block_hash C b)) \<union>
       voters C (e_validators e) (e_height e) (block_hash C b) COMMIT new"
  shows "round0 C b seen (ms @ new) pre e' t"
proof -
  have s: "e_validators e' = e_validators e" "e_height e' = e_height e" "e_me C e' = e_me C e"
    "own_prepare C b e' = own_prepare C b e" "own_commit C b e' = own_commit C b e" "locked e' = locked e"
    using staticD [OF f(1)] f(3) by (simp_all add: own_prepare_def own_commit_def locked_def)
  show ?thesis
    using assms(1) p(1) c(1) unfolding round0_def s f p(2) c(2) voters_append by (simp only: Un_ac conj_ac simp_thms) (elim conjE, assumption)
qed

lemma round0_dicts:
  assumes "round0 C b seen ms pre e t"
  shows "dict_ok (dict_get_list (e_prepares e) (block_hash C b))" "dict_ok (dict_get_list (e_commits e) (block_hash C b))"
  using assms by (simp_all add: round0_def)

lemma round0_ignored:
  assumes "round0 C b seen ms pre e t"
    and "voters C (e_validators e) (e_height e) (block_hash C b) PREPARE [m] = {}"
    and "voters C (e_validators e) (e_height e) (block_hash C b) COMMIT [m] = {}"
  shows "round0 C b seen (ms @ [m]) pre e t"
  using assms(2,3) round0_dicts [OF assms(1)] by (intro round0_update [OF assms(1)]) simp_all

lemma round0_cong:
  assumes "static e' = static e" "e_round e' = e_round e" "e_phase e' = e_phase e" "e_proposal e' = e_proposal e"
    "e_prepares e' = e_prepares e" "e_commits e' = e_commits e" "e_journal e' = e_journal e"
    "round0 C b seen ms pre e t"
  shows "round0 C b seen ms pre e' t"
  using round0_update [OF assms(8,1-4,7), of "[]"] assms(5,6) round0_dicts [OF assms(8)] by simp

lemma prepare_round0:
  assumes r0: "round0 C b seen ms pre e t" and m: "m_type m = PREPARE" "m_round m = 0" "vetted C e m"
  shows "round0 C b seen (ms @ [m]) pre (record_prepare m e) t"
proof (rule round0_update [OF r0])
  have "voters C (e_validators e) (e_height e) (block_hash C b) PREPARE [m] = (if m_block_hash m = block_hash C b then {m_sender m} else {})"
    using m by (simp add: voters_single vetted_def)
  then show "fst ` set (dict_get_list (e_prepares (record_prepare m e)) (block_hash C b)) = fst ` set (dict_get_list (e_prepares e) (block_hash C b)) \<union>
       voters C (e_validators e) (e_height e) (block_hash C b) PREPARE [m]"
    by (simp add: record_prepare_def)
qed (use round0_dicts [OF r0] m in \<open>auto simp: record_prepare_def static_def voters_single dict_ok_set\<close>)

lemma commit_round0:
  assumes r0: "round0 C b seen ms pre e t" and m: "m_type m = COMMIT" "m_round m = 0" "vetted C e m" "valid_commit_seal C m"
  shows "round0 C b seen (ms @ [m]) pre
    (e\<lparr>e_commits := dict_set2 (m_block_hash m) (m_sender m) (the (m_commit_seal m)) (e_commits e)\<rparr>) t"
    (is "round0 C b seen _ pre ?e t")
proof (rule round0_update [OF r0])
  have "voters C (e_validators e) (e_height e) (block_hash C b) COMMIT [m] = (if m_block_hash m = block_hash C b then {m_sender m} else {})"
    using m by (simp add: voters_single vetted_def)
  then show "fst ` set (dict_get_list (e_commits ?e) (block_hash C b)) = fst ` set (dict_get_list (e_commits e) (block_hash C b)) \<union>
       voters C (e_validators e) (e_height e) (block_hash C b) COMMIT [m]"
    by simp
qed (use round0_dicts [OF r0] m in \<open>auto simp: static_def voters_single dict_ok_set\<close>)

lemma cast_round0:
  assumes r0: "round0 C b False ms pre e (record_result t r)" and st: "cast_prepare C b (e, r) = (e', r')"
  shows "round0 C b True ms pre e' (record_result t r')"
proof -
  let ?j = "record_vote (e_journal e) 0 J_PREPARE (block_hash C b)"
  have r: "e_round e = 0" using r0 by (simp add: round0_def)
  have st': "e' = e\<lparr>e_proposal := Some b, e_phase := PRE_PREPARED, e_journal := ?j,
      e_prepares := dict_set2 (block_hash C b) (public_to_hex (e_me C e)) (own_prepare C b e) (e_prepares e)\<rparr>"
    "r' = r\<lparr>broadcast := broadcast r @ [own_prepare C b e]\<rparr>"
    using st r by (auto simp: cast_prepare_def Let_def emit_def own_prepare_def record_prepare_def e_me_def)
  have j: "voted_hash ?j 0 J_PREPARE \<in> {None, Some (block_hash C b)}" "voted_hash ?j 0 J_COMMIT \<in> {None, Some (block_hash C b)}"
    using r0 by (intro voted_record_vote, simp add: round0_def)+
  have l: "\<not> locked e" using r0 by (auto simp: round0_def locked_def)
  show ?thesis
    using r0 j l unfolding st' round0_def
    by (auto simp: dict_ok_set own_prepare_def own_commit_def e_me_def same_contents_def locked_def split: option.splits)
qed

lemma accept_round0:
  assumes r0: "round0 C b False ms pre e (record_result t r)" and st: "accept_proposal C b (e, r) = (e', r')"
  shows "round0 C b True ms pre e' (record_result t r') \<and> waiting C b e'"
proof -
  obtain e1 r1 where c: "cast_prepare C b (e, r) = (e1, r1)" by fastforce
  have "maybe_advance C (e1, r1) = (e', r')"
    using st c r0 by (auto simp: accept_proposal_def Let_def round0_def)
  then show ?thesis using advance_round0 cast_round0 [OF r0 c] by blast
qed

lemma vote_round0:
  assumes r0: "round0 C b seen ms pre e (record_result t r)" "waiting C b e"
    and m: "m_type m \<in> {PREPARE, COMMIT}" "vetted C e m"
    and st: "handle_vote (if m_type m = PREPARE then handle_prepare C else handle_commit C) m (e, r) = (e', r')"
  shows "round0 C b seen (ms @ [m]) pre e' (record_result t r') \<and> waiting C b e'"
proof (cases "m_round m = 0")
  case False
  have "e_round e = 0" using r0(1) by (simp add: round0_def)
  then have "r' = r \<and> (e' = e \<or> e' = e\<lparr>e_buffer := e_buffer e @ [m]\<rparr>)"
    using st False by (auto simp: handle_vote_def Let_def split: if_splits)
  moreover have "round0 C b seen (ms @ [m]) pre e (record_result t r)"
    using round0_ignored [OF r0(1)] False by (simp add: voters_single)
  moreover from this have "round0 C b seen (ms @ [m]) pre (e\<lparr>e_buffer := e_buffer e @ [m]\<rparr>) (record_result t r)"
    by (rule round0_cong [of _ e, rotated -1]) (simp_all add: static_def)
  moreover have "waiting C b (e\<lparr>e_buffer := e_buffer e @ [m]\<rparr>)" using r0(2) by (simp add: waiting_def)
  ultimately show ?thesis using r0(2) by auto
next
  case True
  have e: "e_round e = 0" using r0(1) by (simp add: round0_def)
  show ?thesis
  proof (cases "m_type m = PREPARE")
    case p: True
    then have "maybe_advance C (record_prepare m e, r) = (e', r')"
      using st e True by (simp add: handle_vote_def handle_prepare_def)
    then show ?thesis using advance_round0 prepare_round0 [OF r0(1) p True m(2)] by blast
  next
    case c: False
    then have st': "handle_commit C m (e, r) = (e', r')" using st e True by (simp add: handle_vote_def)
    show ?thesis
    proof (cases "valid_commit_seal C m")
      case v: True
      let ?e = "e\<lparr>e_commits := dict_set2 (m_block_hash m) (m_sender m) (the (m_commit_seal m)) (e_commits e)\<rparr>"
      have "maybe_advance C (?e, r) = (e', r')" using st' v by (simp add: handle_commit_def Let_def)
      moreover have "round0 C b seen (ms @ [m]) pre ?e (record_result t r)"
        using commit_round0 [OF r0(1) _ True m(2) v] c m(1) by simp
      ultimately show ?thesis using advance_round0 by blast
    next
      case v: False
      then have "e' = e" "r' = r" using st' by (simp_all add: handle_commit_def)
      then show ?thesis using round0_ignored [OF r0(1)] r0(2) v c by (simp add: voters_single)
    qed
  qed
qed

lemma record_empty [simp]: "record_result t empty_result = t"
  by (simp add: record_result_def empty_result_def)

lemma proposal_round0:
  assumes r0: "round0 C b seen ms pre e t" "waiting C b e"
    and m: "m_type m = PRE_PREPARE" "vetted C e m" "undisturbed C (e_validators e) (e_height e) b m" "structurally_valid C e b"
    and st: "handle_pre_prepare C m (e, empty_result) = (e', r')"
  shows "round0 C b (seen \<or> proposes C (e_validators e) (e_height e) b m) (ms @ [m]) pre e' (record_result t r') \<and> waiting C b e' \<and>
    static e' = static e"
proof -
  have e: "e_round e = 0" and u: "m_round m \<le> 0" using r0(1) m(1,2,3) by (simp_all add: round0_def undisturbed_def vetted_def)
  have i: "round0 C b seen (ms @ [m]) pre e t" using round0_ignored [OF r0(1)] m(1) by (simp add: voters_single)
  have cur: "handle_pre_prepare_current C m (e, empty_result) = (e', r')" using st e u by (simp add: handle_pre_prepare_def)
  show ?thesis
  proof (cases "\<not> seen \<and> proposes C (e_validators e) (e_height e) b m")
    case True
    then have "e_phase e = NEW_ROUND" using r0(1) by (simp add: round0_def)
    then have "accept_proposal C b (e, empty_result) = (e', r')"
      using cur e True m(4) by (simp add: handle_pre_prepare_current_def proposes_def engine_proposer_def)
    moreover have "static (fst (accept_proposal C b (e, empty_result))) = static e" by (simp add: frame)
    moreover have "round0 C b False (ms @ [m]) pre e (record_result t empty_result)" using i True by simp
    ultimately show ?thesis using accept_round0 [of C b "ms @ [m]" pre e t empty_result] True by auto
  next
    case False
    then have "e' = e \<and> r' = empty_result"
      using cur e m r0(1) by (auto simp: handle_pre_prepare_current_def proposes_def engine_proposer_def vetted_def undisturbed_def
          round0_def Let_def split: if_splits option.splits)
    then show ?thesis using i r0(2) False by auto
  qed
qed

lemma handle_round0:
  assumes r0: "round0 C b seen ms pre e t" "waiting C b e"
    and m: "undisturbed C (e_validators e) (e_height e) b m" "structurally_valid C e b"
    and st: "handle C m e = (e', r')"
  shows "round0 C b (seen \<or> proposes C (e_validators e) (e_height e) b m) (ms @ [m]) pre e' (record_result t r') \<and> waiting C b e' \<and>
    static e' = static e"
proof (cases "vetted C e m")
  case False
  then have "e' = e" "r' = empty_result" using st by (auto simp: handle_def vetted_def Let_def split: if_splits)
  moreover have "round0 C b seen (ms @ [m]) pre e t"
    using round0_ignored [OF r0(1)] False by (auto simp: voters_single vetted_def)
  moreover have "\<not> proposes C (e_validators e) (e_height e) b m" using False by (auto simp: proposes_def vetted_def)
  ultimately show ?thesis using r0(2) by simp
next
  case True
  then have h: "handle C m e = (case m_type m of ROUND_CHANGE \<Rightarrow> handle_round_change C m (e, empty_result)
        | PRE_PREPARE \<Rightarrow> handle_pre_prepare C m (e, empty_result)
        | PREPARE \<Rightarrow> handle_vote (handle_prepare C) m (e, empty_result)
        | COMMIT \<Rightarrow> handle_vote (handle_commit C) m (e, empty_result))"
    by (simp add: handle_def vetted_def Let_def)
  have vote: ?thesis if "m_type m \<in> {PREPARE, COMMIT}"
    "handle_vote (if m_type m = PREPARE then handle_prepare C else handle_commit C) m (e, empty_result) = (e', r')"
  proof -
    have "static (fst (handle_vote (if m_type m = PREPARE then handle_prepare C else handle_commit C) m (e, empty_result))) = static e"
      by (simp add: handle_vote_def Let_def frame) (simp add: static_def)
    then show ?thesis
      using vote_round0 [of C b seen ms pre e t empty_result m e' r'] r0 True that by (auto simp: proposes_def)
  qed
  show ?thesis
  proof (cases "m_type m")
    case PRE_PREPARE
    then show ?thesis using proposal_round0 [OF r0 _ True m] st h by simp
  next
    case ROUND_CHANGE
    then show ?thesis using m(1) True by (simp add: undisturbed_def vetted_def)
  qed (use vote st h in simp_all)
qed


section \<open>Any sequence of messages\<close>

fun receive_all :: "crypto \<Rightarrow> consensus_message list \<Rightarrow> engine \<times> history \<Rightarrow> engine \<times> history" where
  "receive_all C [] n = n"
| "receive_all C (m # ms) n = (let (e, r) = handle C m (fst n) in receive_all C ms (e, record_result (snd n) r))"

lemma run_receive_all: "run_engine C (e, t) (map Receive ms) = Inr (receive_all C ms (e, t))"
  by (induction ms arbitrary: e t) (simp_all add: case_prod_beta)

lemma sent_receive_all: "set (sent (snd n)) \<subseteq> set (sent (snd (receive_all C ms n)))"
proof (induction ms arbitrary: n)
  case (Cons m ms)
  show ?case using Cons.IH [of "(fst (handle C m (fst n)), record_result (snd n) (snd (handle C m (fst n))))"]
    by (simp add: case_prod_beta)
qed simp

lemma structurally_valid_static: "static e' = static e \<Longrightarrow> structurally_valid C e' b = structurally_valid C e b"
  using staticD [of e' e] by (simp add: structurally_valid_def)

lemma receive_all_round0:
  assumes "round0 C b seen ms pre (fst n) (snd n)" "waiting C b (fst n)" "static (fst n) = (S, key, h, prev)"
    "structurally_valid C (fst n) b" "\<forall>m \<in> set ds. undisturbed C S h b m"
  shows "round0 C b (seen \<or> (\<exists>m \<in> set ds. proposes C S h b m)) (ms @ ds) pre (fst (receive_all C ds n)) (snd (receive_all C ds n)) \<and>
    waiting C b (fst (receive_all C ds n)) \<and> static (fst (receive_all C ds n)) = (S, key, h, prev)"
  using assms
proof (induction ds arbitrary: seen ms n)
  case (Cons m ds)
  obtain e' r where h: "handle C m (fst n) = (e', r)" by fastforce
  have s: "e_validators (fst n) = S" "e_height (fst n) = h" using Cons.prems(3) by (simp_all add: static_def)
  have step: "round0 C b (seen \<or> proposes C S h b m) (ms @ [m]) pre e' (record_result (snd n) r)" "waiting C b e'" "static e' = static (fst n)"
    using handle_round0 [OF Cons.prems(1,2) _ Cons.prems(4) h] Cons.prems(5) s by simp_all
  have "round0 C b ((seen \<or> proposes C S h b m) \<or> (\<exists>m \<in> set ds. proposes C S h b m)) ((ms @ [m]) @ ds) pre
      (fst (receive_all C ds (e', record_result (snd n) r))) (snd (receive_all C ds (e', record_result (snd n) r))) \<and>
    waiting C b (fst (receive_all C ds (e', record_result (snd n) r))) \<and>
    static (fst (receive_all C ds (e', record_result (snd n) r))) = (S, key, h, prev)"
    using step Cons.prems(3-5) structurally_valid_static [OF step(3)] by (intro Cons.IH) simp_all
  then show ?case by (simp add: h disj_assoc)
qed simp

lemma length_keys: "dict_ok d \<Longrightarrow> length d = card (fst ` set d)"
  by (metis dict_ok_def distinct_card length_map set_map)

lemma round0_locks:
  assumes "round0 C b True ms pre e t" "waiting C b e"
    "quorum (e_validators e) \<le> int (card (insert (public_to_hex (e_me C e)) (voters C (e_validators e) (e_height e) (block_hash C b) PREPARE ms)))"
  shows "locked e"
proof (rule ccontr)
  assume "\<not> locked e"
  then have "e_phase e = PRE_PREPARED" using assms(1) by (cases "e_phase e") (auto simp: round0_def locked_def)
  moreover have "fst ` set (dict_get_list (e_prepares e) (block_hash C b)) =
      insert (public_to_hex (e_me C e)) (voters C (e_validators e) (e_height e) (block_hash C b) PREPARE ms)"
    using assms(1) by (simp add: round0_def)
  ultimately show False
    using assms(2,3) length_keys [OF round0_dicts(1) [OF assms(1)]] by (simp add: waiting_def)
qed

lemma round0_commits:
  assumes "round0 C b True ms pre e t" "waiting C b e" "locked e"
    "quorum (e_validators e) \<le> int (card (insert (public_to_hex (e_me C e)) (voters C (e_validators e) (e_height e) (block_hash C b) COMMIT ms)))"
  shows "\<exists>b'. final t = [b'] \<and> same_contents b' b"
proof -
  have "fst ` set (dict_get_list (e_commits e) (block_hash C b)) =
      insert (public_to_hex (e_me C e)) (voters C (e_validators e) (e_height e) (block_hash C b) COMMIT ms)"
    using assms(1,3) by (simp add: round0_def)
  then have "e_phase e \<noteq> PREPARED"
    using assms(2,4) length_keys [OF round0_dicts(2) [OF assms(1)]] by (auto simp: waiting_def)
  then have "e_phase e = COMMITTED" using assms(3) by (simp add: locked_def)
  then show ?thesis using assms(1) by (auto simp: round0_def)
qed

lemma make_engine_round0:
  assumes "make_engine C S key h prev now reads j = Inr e" "voted_hash j 0 J_PREPARE = None" "voted_hash j 0 J_COMMIT = None"
  shows "round0 C b False [] [] e empty_history \<and> waiting C b e \<and> static e = (S, key, h, prev) \<and> e_me C e = private_public C key"
  using make_engine_Inr [OF assms(1)] assms(2,3)
  by (simp add: round0_def waiting_def locked_def empty_history_def dict_get_list_def) (simp add: e_me_def static_def)


section \<open>A cluster\<close>

definition submit_all :: "crypto \<Rightarrow> integrity_record list \<Rightarrow> validator_change list \<Rightarrow> (engine \<times> history) list \<Rightarrow> (engine \<times> history) list" where
  \<comment> \<open>every engine gets the contents of its mempool\<close>
  "submit_all C rs cs ns = map (\<lambda>n. let (e, r) = set_pending C rs cs (fst n) in (e, record_result (snd n) r)) ns"

definition exchange :: "crypto \<Rightarrow> (engine \<times> history) list \<Rightarrow> (engine \<times> history) list" where
  \<comment> \<open>every engine receives all that any of them has sent; again, if it received it before\<close>
  "exchange C ns = map (receive_all C (concat (map (\<lambda>n. sent (snd n)) ns))) ns"

definition member :: "crypto \<Rightarrow> validator_set \<Rightarrow> int \<Rightarrow> string \<Rightarrow> engine \<times> history \<Rightarrow> bool" where
  \<comment> \<open>an engine of the height that has not voted\<close>
  "member C S h prev n \<longleftrightarrow> (\<exists>key now reads j. private_ok key \<and> voted_hash j 0 J_PREPARE = None \<and> voted_hash j 0 J_COMMIT = None \<and>
     make_engine C S key h prev now reads j = Inr (fst n) \<and> snd n = empty_history)"

definition in_round0 ::
    "crypto \<Rightarrow> validator_set \<Rightarrow> int \<Rightarrow> string \<Rightarrow> block \<Rightarrow> bool \<Rightarrow> consensus_message list \<Rightarrow> engine \<times> history \<Rightarrow> bool" where
  "in_round0 C S h prev b seen ms n \<longleftrightarrow> (\<exists>key pre. static (fst n) = (S, key, h, prev) \<and> private_ok key \<and> contains S (private_public C key) \<and>
     (\<forall>m \<in> set pre. proposes C S h b m) \<and> round0 C b seen ms pre (fst n) (snd n) \<and> waiting C b (fst n))"

lemma in_round0_sent:
  assumes "in_round0 C S h prev b seen ms n"
  shows "\<forall>m \<in> set (sent (snd n)). undisturbed C S h b m"
    and "seen \<Longrightarrow> own_prepare C b (fst n) \<in> set (sent (snd n))" "locked (fst n) \<Longrightarrow> own_commit C b (fst n) \<in> set (sent (snd n))"
proof -
  obtain pre where n: "\<forall>m \<in> set pre. proposes C S h b m" "round0 C b seen ms pre (fst n) (snd n)"
    using assms by (auto simp: in_round0_def)
  then have s: "sent (snd n) = pre @ (if seen then [own_prepare C b (fst n)] else []) @ (if locked (fst n) then [own_commit C b (fst n)] else [])"
    by (simp add: round0_def)
  have "undisturbed C S h b (own_prepare C b (fst n))" "undisturbed C S h b (own_commit C b (fst n))"
    by (simp_all add: undisturbed_def own_prepare_def own_commit_def)
  moreover have "undisturbed C S h b m" if "m \<in> set pre" for m using n(1) that by (auto simp: undisturbed_def proposes_def)
  ultimately show "\<forall>m \<in> set (sent (snd n)). undisturbed C S h b m" by (auto simp: s)
  show "seen \<Longrightarrow> own_prepare C b (fst n) \<in> set (sent (snd n))" "locked (fst n) \<Longrightarrow> own_commit C b (fst n) \<in> set (sent (snd n))"
    by (simp_all add: s)
qed

lemma in_round0_receive:
  assumes "in_round0 C S h prev b seen ms n" "\<forall>m \<in> set ds. undisturbed C S h b m"
    and b: "block_index b = h" "previous_hash (header b) = prev" "has_consistent_merkle_root C b"
  shows "in_round0 C S h prev b (seen \<or> (\<exists>m \<in> set ds. proposes C S h b m)) (ms @ ds) (receive_all C ds n) \<and>
    static (fst (receive_all C ds n)) = static (fst n)"
proof -
  obtain key pre where n: "static (fst n) = (S, key, h, prev)" "private_ok key" "contains S (private_public C key)"
    "\<forall>m \<in> set pre. proposes C S h b m" "round0 C b seen ms pre (fst n) (snd n)" "waiting C b (fst n)"
    using assms(1) by (auto simp: in_round0_def)
  have "structurally_valid C (fst n) b" using b n(1) by (simp add: structurally_valid_def static_def)
  note r = receive_all_round0 [OF n(5,6,1) this assms(2)]
  have "in_round0 C S h prev b (seen \<or> (\<exists>m \<in> set ds. proposes C S h b m)) (ms @ ds) (receive_all C ds n)"
    unfolding in_round0_def by (intro exI [of _ key] exI [of _ pre] conjI) (use r n(2-4) in simp_all)
  then show ?thesis using r n(1) by simp
qed

lemma own_vote_counts:
  assumes "in_round0 C S h prev b seen ms n" "ed25519_correct C" "vs_ok S"
  shows "own_prepare C b (fst n) \<in> set ds \<Longrightarrow> public_to_hex (e_me C (fst n)) \<in> voters C S h (block_hash C b) PREPARE ds"
    and "own_commit C b (fst n) \<in> set ds \<Longrightarrow> public_to_hex (e_me C (fst n)) \<in> voters C S h (block_hash C b) COMMIT ds"
proof -
  have s: "e_validators (fst n) = S" "e_height (fst n) = h" "setup_ok C (fst n)"
    using assms by (auto simp: in_round0_def static_def setup_ok_def e_me_def)
  have "authentic C S (own_prepare C b (fst n))" "authentic C S (own_commit C b (fst n))" "valid_commit_seal C (own_commit C b (fst n))"
    using own_authentic [OF s(3)] own_seal [OF s(3)] s(1) by (simp_all add: own_prepare_def own_commit_def)
  then show "own_prepare C b (fst n) \<in> set ds \<Longrightarrow> public_to_hex (e_me C (fst n)) \<in> voters C S h (block_hash C b) PREPARE ds"
    "own_commit C b (fst n) \<in> set ds \<Longrightarrow> public_to_hex (e_me C (fst n)) \<in> voters C S h (block_hash C b) COMMIT ds"
    using s(2) by (auto simp: voters_def own_prepare_def own_commit_def e_me_def intro!: rev_image_eqI)
qed

definition with_pending :: "integrity_record list \<Rightarrow> validator_change list \<Rightarrow> engine \<Rightarrow> engine" where
  "with_pending rs cs e = e\<lparr>e_pending := rs, e_pending_changes := cs\<rparr>"

lemma member_pending:
  assumes "member C S h prev n" "ed25519_correct C" "vs_ok S"
  obtains key where "private_ok key" "contains S (private_public C key)" "static (with_pending rs cs (fst n)) = (S, key, h, prev)"
    "setup_ok C (with_pending rs cs (fst n))" "e_me C (fst n) = private_public C key" "snd n = empty_history"
    "e_round (with_pending rs cs (fst n)) = 0" "e_phase (with_pending rs cs (fst n)) = NEW_ROUND"
    "\<And>b. round0 C b False [] [] (with_pending rs cs (fst n)) empty_history" "\<And>b. waiting C b (with_pending rs cs (fst n))"
proof -
  obtain key now reads j where n: "private_ok key" "voted_hash j 0 J_PREPARE = None" "voted_hash j 0 J_COMMIT = None"
    "make_engine C S key h prev now reads j = Inr (fst n)" "snd n = empty_history"
    using assms(1) by (auto simp: member_def)
  note mk = make_engine_Inr [OF n(4)]
  have st: "static (with_pending rs cs (fst n)) = (S, key, h, prev)" using mk(1) by (simp add: with_pending_def static_def)
  then have set: "setup_ok C (with_pending rs cs (fst n))" "e_me C (fst n) = private_public C key"
    using mk(1,2) n(1) assms(2,3) by (simp_all add: setup_ok_def e_me_def static_def with_pending_def)
  have "round0 C b False [] [] (with_pending rs cs (fst n)) empty_history" for b
    by (rule round0_cong [of _ "fst n", rotated -1]) (use make_engine_round0 [OF n(4,2,3), of b] in \<open>simp_all add: with_pending_def static_def\<close>)
  moreover have "waiting C b (with_pending rs cs (fst n))" for b using mk(5) by (simp add: waiting_def with_pending_def)
  moreover have "e_round (with_pending rs cs (fst n)) = 0" "e_phase (with_pending rs cs (fst n)) = NEW_ROUND"
    using mk(4,5) by (simp_all add: with_pending_def)
  ultimately show thesis using that [OF n(1) mk(2) st set n(5)] by blast
qed

lemma set_pending_round0:
  assumes "e_round e = 0" "e_phase e = NEW_ROUND" "rs \<noteq> [] \<or> cs \<noteq> []"
  shows "set_pending C rs cs e = (if e_me C e = proposer (e_validators e) (e_height e) 0
    then case build_block C (with_pending rs cs e) of (e', b) \<Rightarrow> emit_pre_prepare C b [] (e', empty_result)
    else (with_pending rs cs e, empty_result))"
  using assms by (auto simp: set_pending_def maybe_propose_round0_def with_pending_def is_proposer_def engine_proposer_def e_me_def Let_def)

lemma follower_round0:
  assumes "member C S h prev n" "ed25519_correct C" "vs_ok S" "rs \<noteq> [] \<or> cs \<noteq> []" "e_me C (fst n) \<noteq> proposer S h 0"
  shows "set_pending C rs cs (fst n) = (with_pending rs cs (fst n), empty_result)"
    "in_round0 C S h prev b False [] (with_pending rs cs (fst n), snd n)"
proof -
  obtain key where k: "private_ok key" "contains S (private_public C key)" "static (with_pending rs cs (fst n)) = (S, key, h, prev)"
    "snd n = empty_history" "e_round (with_pending rs cs (fst n)) = 0" "e_phase (with_pending rs cs (fst n)) = NEW_ROUND"
    "round0 C b False [] [] (with_pending rs cs (fst n)) empty_history" "waiting C b (with_pending rs cs (fst n))"
    using member_pending [OF assms(1-3)] by metis
  show "in_round0 C S h prev b False [] (with_pending rs cs (fst n), snd n)"
    unfolding in_round0_def by (intro exI [of _ key] exI [of _ "[]"] conjI) (use k in simp_all)
  show "set_pending C rs cs (fst n) = (with_pending rs cs (fst n), empty_result)"
    using set_pending_round0 [of "fst n" rs cs C] assms(4,5) k(3,5,6) by (simp add: with_pending_def static_def)
qed

lemma proposer_round0:
  assumes "member C S h prev n" "ed25519_correct C" "vs_ok S" "rs \<noteq> [] \<or> cs \<noteq> []" "e_me C (fst n) = proposer S h 0"
    and st: "set_pending C rs cs (fst n) = (e', r)"
  obtains b m where "block_index b = h" "previous_hash (header b) = prev" "has_consistent_merkle_root C b" "records b = rs"
    "validator_changes b = cs" "in_round0 C S h prev b True [] (e', record_result (snd n) r)"
    "m \<in> set (sent (record_result (snd n) r))" "proposes C S h b m"
proof -
  obtain key where k: "private_ok key" "contains S (private_public C key)" "static (with_pending rs cs (fst n)) = (S, key, h, prev)"
    "setup_ok C (with_pending rs cs (fst n))" "e_me C (fst n) = private_public C key" "snd n = empty_history"
    "e_round (with_pending rs cs (fst n)) = 0" "e_phase (with_pending rs cs (fst n)) = NEW_ROUND"
    "\<And>b. round0 C b False [] [] (with_pending rs cs (fst n)) empty_history"
    using member_pending [OF assms(1-3)] by metis
  define e1 where "e1 = with_pending rs cs (fst n)"
  define e2 where "e2 = fst (build_block C e1)"
  define b where "b = snd (build_block C e1)"
  define pp where "pp = message_create C PRE_PREPARE h 0 (block_hash C b) key (Some b) None [] []"
  have f: "e_validators e1 = S" "e_private_key e1 = key" "e_height e1 = h" "e_previous_hash e1 = prev" "e_pending e1 = rs" "e_pending_changes e1 = cs"
    using k(3) by (simp_all add: e1_def static_def with_pending_def)
  have s2: "static e2 = (S, key, h, prev)" using k(3) by (simp add: e2_def e1_def build_block_def static_def)
  have b: "block_index b = h" "previous_hash (header b) = prev" "has_consistent_merkle_root C b" "records b = rs" "validator_changes b = cs"
    by (simp_all add: b_def build_block_def block_create_consistent) (simp_all add: block_create_def block_index_def f)
  have e2: "round0 C b False [] [] e2 empty_history"
    by (rule round0_cong [of _ e1, rotated -1]) (use k(9) [of b] in \<open>simp_all add: e1_def e2_def build_block_def static_def\<close>)
  have "e_round (fst n) = 0" "e_phase (fst n) = NEW_ROUND" "e_validators (fst n) = S" "e_height (fst n) = h"
    using k(3,7,8) by (simp_all add: with_pending_def static_def)
  then have "emit_pre_prepare C b [] (e2, empty_result) = (e', r)"
    using st set_pending_round0 [of "fst n" rs cs C] assms(4,5) by (simp add: case_prod_beta b_def e2_def e1_def)
  moreover have "e_round e2 = 0" "e_height e2 = h" "e_private_key e2 = key" using e2 s2 by (simp_all add: round0_def static_def)
  ultimately have acc: "accept_proposal C b (e2, empty_result\<lparr>broadcast := [pp]\<rparr>) = (e', r)"
    by (simp add: emit_pre_prepare_def emit_def pp_def empty_result_def)
  have "round0 C b False [] [pp] e2 (record_result empty_history (empty_result\<lparr>broadcast := [pp]\<rparr>))"
    using e2 by (simp add: round0_def empty_result_def empty_history_def locked_def)
  from accept_round0 [OF this acc] have r: "round0 C b True [] [pp] e' (record_result empty_history r)" "waiting C b e'" by simp_all
  have s': "static e' = (S, key, h, prev)" using accept_proposal_frame(1) [of C b "(e2, empty_result\<lparr>broadcast := [pp]\<rparr>)"] acc s2 by simp
  have pp: "proposes C S h b pp"
    using own_authentic [OF k(4)] f assms(5) k(5) private_public_from_hex [OF assms(2) k(1)] by (simp add: proposes_def pp_def e1_def)
  have "in_round0 C S h prev b True [] (e', record_result (snd n) r)"
    unfolding in_round0_def by (intro exI [of _ key] exI [of _ "[pp]"] conjI) (use r s' k(1,2,6) pp in simp_all)
  moreover have "pp \<in> set (sent (record_result (snd n) r))" using r(1) k(6) by (simp add: round0_def)
  ultimately show thesis using that b pp by blast
qed

lemma set_pending_static: "static (fst (set_pending C rs cs e)) = static e"
  by (simp add: set_pending_def maybe_propose_round0_def case_prod_beta Let_def frame) (simp add: static_def build_block_def)

lemma submit_in_round0:
  assumes "\<forall>n \<in> set ns. member C S h prev n" "ed25519_correct C" "vs_ok S" "rs \<noteq> [] \<or> cs \<noteq> []"
    and "distinct (map (\<lambda>n. e_me C (fst n)) ns)" "proposer S h 0 \<in> (\<lambda>n. e_me C (fst n)) ` set ns"
  obtains b where "block_index b = h" "previous_hash (header b) = prev" "has_consistent_merkle_root C b" "records b = rs"
    "validator_changes b = cs" "\<forall>n \<in> set (submit_all C rs cs ns). \<exists>seen. in_round0 C S h prev b seen [] n"
    "\<exists>n \<in> set (submit_all C rs cs ns). \<exists>m \<in> set (sent (snd n)). proposes C S h b m"
proof -
  obtain p where p: "p \<in> set ns" "e_me C (fst p) = proposer S h 0" using assms(6) by auto
  have only: "e_me C (fst n) \<noteq> proposer S h 0" if "n \<in> set ns" "n \<noteq> p" for n
    using assms(5) p that by (auto simp: distinct_map inj_on_def)
  obtain e' r where st: "set_pending C rs cs (fst p) = (e', r)" by fastforce
  obtain b m where b: "block_index b = h" "previous_hash (header b) = prev" "has_consistent_merkle_root C b" "records b = rs"
    "validator_changes b = cs" and pr: "in_round0 C S h prev b True [] (e', record_result (snd p) r)"
    "m \<in> set (sent (record_result (snd p) r))" "proposes C S h b m"
    using proposer_round0 [OF _ assms(2-4) p(2) st] assms(1) p(1) by metis
  have "\<exists>seen. in_round0 C S h prev b seen [] n'" if n': "n' \<in> set (submit_all C rs cs ns)" for n'
  proof -
    obtain n where n: "n \<in> set ns" "n' = (let (e, r) = set_pending C rs cs (fst n) in (e, record_result (snd n) r))"
      using n' by (auto simp: submit_all_def)
    show ?thesis
    proof (cases "n = p")
      case True
      then show ?thesis using n(2) st pr(1) by auto
    next
      case False
      have "member C S h prev n" using assms(1) n(1) by blast
      note f = follower_round0 [OF this assms(2-4) only [OF n(1) False]]
      have "n' = (with_pending rs cs (fst n), snd n)" using n(2) f(1) by simp
      then show ?thesis using f(2) by blast
    qed
  qed
  moreover have "(e', record_result (snd p) r) \<in> set (submit_all C rs cs ns)"
    using p(1) st by (force simp: submit_all_def)
  ultimately show thesis using that [OF b] pr(2,3) by fastforce
qed

definition all_in_round0 ::
    "crypto \<Rightarrow> validator_set \<Rightarrow> int \<Rightarrow> string \<Rightarrow> block \<Rightarrow> string set \<Rightarrow> (engine \<times> history) list \<Rightarrow> bool" where
  \<comment> \<open>engines with these keys, in round 0; one of them has sent the proposal\<close>
  "all_in_round0 C S h prev b ks ns \<longleftrightarrow> ks = (\<lambda>n. public_to_hex (e_me C (fst n))) ` set ns \<and>
     (\<forall>n \<in> set ns. \<exists>seen ms. in_round0 C S h prev b seen ms n) \<and> (\<exists>n \<in> set ns. \<exists>m \<in> set (sent (snd n)). proposes C S h b m)"

lemma all_in_round0D:
  assumes "all_in_round0 C S h prev b ks ns"
  shows "n \<in> set ns \<Longrightarrow> \<exists>seen ms. in_round0 C S h prev b seen ms n"
    "\<forall>m \<in> set (concat (map (\<lambda>n. sent (snd n)) ns)). undisturbed C S h b m"
    "\<exists>m \<in> set (concat (map (\<lambda>n. sent (snd n)) ns)). proposes C S h b m"
proof -
  show i: "n \<in> set ns \<Longrightarrow> \<exists>seen ms. in_round0 C S h prev b seen ms n" for n using assms by (simp add: all_in_round0_def)
  show "\<forall>m \<in> set (concat (map (\<lambda>n. sent (snd n)) ns)). undisturbed C S h b m"
  proof
    fix m assume "m \<in> set (concat (map (\<lambda>n. sent (snd n)) ns))"
    then obtain n where "n \<in> set ns" "m \<in> set (sent (snd n))" by auto
    then show "undisturbed C S h b m" using i [of n] in_round0_sent(1) by blast
  qed
  show "\<exists>m \<in> set (concat (map (\<lambda>n. sent (snd n)) ns)). proposes C S h b m" using assms by (auto simp: all_in_round0_def)
qed

lemma exchange_member:
  assumes "all_in_round0 C S h prev b ks ns" "n' \<in> set (exchange C ns)"
    and b: "block_index b = h" "previous_hash (header b) = prev" "has_consistent_merkle_root C b"
  obtains n ms where "n \<in> set ns" "n' = receive_all C (concat (map (\<lambda>n. sent (snd n)) ns)) n"
    "in_round0 C S h prev b True (ms @ concat (map (\<lambda>n. sent (snd n)) ns)) n'" "e_me C (fst n') = e_me C (fst n)"
proof -
  let ?ds = "concat (map (\<lambda>n. sent (snd n)) ns)"
  obtain n where n: "n \<in> set ns" "n' = receive_all C ?ds n" using assms(2) by (auto simp: exchange_def)
  obtain seen ms where i: "in_round0 C S h prev b seen ms n" using all_in_round0D(1) [OF assms(1) n(1)] by blast
  have u: "\<forall>m \<in> set ?ds. undisturbed C S h b m"
    by (rule all_in_round0D(2) [OF assms(1)])
  have "\<exists>m \<in> set ?ds. proposes C S h b m" by (rule all_in_round0D(3) [OF assms(1)])
  then have "in_round0 C S h prev b True (ms @ ?ds) n'" "static (fst n') = static (fst n)"
    using in_round0_receive [OF i u b] n(2) by simp_all
  then show thesis using that n staticD(5) [of "fst n'" "fst n" C] by blast
qed

lemma exchange_in_round0:
  assumes "all_in_round0 C S h prev b ks ns"
    and b: "block_index b = h" "previous_hash (header b) = prev" "has_consistent_merkle_root C b"
  shows "all_in_round0 C S h prev b ks (exchange C ns)"
proof -
  let ?ds = "concat (map (\<lambda>n. sent (snd n)) ns)"
  have me: "e_me C (fst (receive_all C ?ds n)) = e_me C (fst n)" if n: "n \<in> set ns" for n
  proof -
    obtain seen ms where i: "in_round0 C S h prev b seen ms n" using all_in_round0D(1) [OF assms(1) n] by blast
    have "\<forall>m \<in> set ?ds. undisturbed C S h b m" by (rule all_in_round0D(2) [OF assms(1)])
    from in_round0_receive [OF i this b] show ?thesis using staticD(5) by blast
  qed
  then have "(\<lambda>n. public_to_hex (e_me C (fst n))) ` set (exchange C ns) = ks"
    using assms(1) by (simp add: all_in_round0_def exchange_def image_image cong: image_cong_simp)
  moreover have "\<exists>n \<in> set (exchange C ns). \<exists>m \<in> set (sent (snd n)). proposes C S h b m"
    using assms(1) sent_receive_all [of _ C ?ds] by (fastforce simp: all_in_round0_def exchange_def)
  moreover have "\<exists>seen ms. in_round0 C S h prev b seen ms n" if "n \<in> set (exchange C ns)" for n
    using exchange_member [OF assms(1) that b] by metis
  ultimately show ?thesis by (auto simp: all_in_round0_def)
qed

lemma enough_voters:
  assumes "quorum S \<le> int (card ks)" "ks \<subseteq> voters C S h bh ty ms"
  shows "quorum S \<le> int (card (insert x (voters C S h bh ty ms)))"
proof -
  have "finite (insert x (voters C S h bh ty ms))" by (simp add: voters_def)
  then have "card ks \<le> card (insert x (voters C S h bh ty ms))" using assms(2) by (intro card_mono) auto
  then show ?thesis using assms(1) by linarith
qed

lemma votes_arrive:
  assumes a: "all_in_round0 C S h prev b ks ns" and c: "ed25519_correct C" "vs_ok S"
  shows "\<forall>n \<in> set ns. own_prepare C b (fst n) \<in> set (sent (snd n)) \<Longrightarrow>
      ks \<subseteq> voters C S h (block_hash C b) PREPARE (concat (map (\<lambda>n. sent (snd n)) ns))"
    and "\<forall>n \<in> set ns. own_commit C b (fst n) \<in> set (sent (snd n)) \<Longrightarrow>
      ks \<subseteq> voters C S h (block_hash C b) COMMIT (concat (map (\<lambda>n. sent (snd n)) ns))"
proof -
  let ?ds = "concat (map (\<lambda>n. sent (snd n)) ns)"
  have k: "\<exists>n seen ms. n \<in> set ns \<and> k = public_to_hex (e_me C (fst n)) \<and> in_round0 C S h prev b seen ms n" if "k \<in> ks" for k
    using that a all_in_round0D(1) [OF a] unfolding all_in_round0_def by (metis (no_types, lifting) imageE)
  have ds: "m \<in> set ?ds" if "n \<in> set ns" "m \<in> set (sent (snd n))" for n m using that by auto
  show "ks \<subseteq> voters C S h (block_hash C b) PREPARE ?ds" if "\<forall>n \<in> set ns. own_prepare C b (fst n) \<in> set (sent (snd n))"
    using k own_vote_counts(1) [OF _ c] ds that by (metis subsetI)
  show "ks \<subseteq> voters C S h (block_hash C b) COMMIT ?ds" if "\<forall>n \<in> set ns. own_commit C b (fst n) \<in> set (sent (snd n))"
    using k own_vote_counts(2) [OF _ c] ds that by (metis subsetI)
qed

lemma in_round0_decides:
  assumes "in_round0 C S h prev b True ms n" "quorum S \<le> int (card ks)" "ks \<subseteq> voters C S h (block_hash C b) PREPARE ms"
  shows "locked (fst n)" and "ks \<subseteq> voters C S h (block_hash C b) COMMIT ms \<Longrightarrow> \<exists>b'. final (snd n) = [b'] \<and> same_contents b' b"
proof -
  obtain pre where r: "round0 C b True ms pre (fst n) (snd n)" "waiting C b (fst n)" "e_validators (fst n) = S" "e_height (fst n) = h"
    using assms(1) by (auto simp: in_round0_def static_def)
  show l: "locked (fst n)" using round0_locks [OF r(1,2)] enough_voters [OF assms(2,3)] r(3,4) by simp
  show "\<exists>b'. final (snd n) = [b'] \<and> same_contents b' b" if "ks \<subseteq> voters C S h (block_hash C b) COMMIT ms"
    using round0_commits [OF r(1,2) l] enough_voters [OF assms(2) that] r(3,4) by simp
qed

lemma three_exchanges:
  assumes a: "all_in_round0 C S h prev b ks ns" and b: "block_index b = h" "previous_hash (header b) = prev" "has_consistent_merkle_root C b"
    and c: "ed25519_correct C" "vs_ok S" "quorum S \<le> int (card ks)"
    and n3: "n3 \<in> set (exchange C (exchange C (exchange C ns)))"
  shows "\<exists>b'. final (snd n3) = [b'] \<and> same_contents b' b"
proof -
  let ?sent = "\<lambda>ns. concat (map (\<lambda>n. sent (snd n)) ns)"
  let ?n1 = "exchange C ns" and ?n2 = "exchange C (exchange C ns)"
  have a1: "all_in_round0 C S h prev b ks ?n1" and a2: "all_in_round0 C S h prev b ks ?n2"
    using exchange_in_round0 [OF _ b] a by blast+
  have prepared: "own_prepare C b (fst n) \<in> set (sent (snd n))" if n: "n \<in> set ?n1" for n
  proof -
    obtain ms where "in_round0 C S h prev b True ms n" by (rule exchange_member [OF a n b])
    then show ?thesis using in_round0_sent(2) by simp
  qed
  have k1: "ks \<subseteq> voters C S h (block_hash C b) PREPARE (?sent ?n1)" using votes_arrive(1) [OF a1 c(1,2)] prepared by blast
  have locked2: "locked (fst n) \<and> own_commit C b (fst n) \<in> set (sent (snd n))" if n: "n \<in> set ?n2" for n
  proof -
    obtain ms where i: "in_round0 C S h prev b True (ms @ ?sent ?n1) n" by (rule exchange_member [OF a1 n b])
    have "locked (fst n)" by (rule in_round0_decides(1) [OF i c(3)]) (use k1 in auto)
    then show ?thesis using in_round0_sent(3) [OF i] by simp
  qed
  have k2: "ks \<subseteq> voters C S h (block_hash C b) COMMIT (?sent ?n2)" using votes_arrive(2) [OF a2 c(1,2)] locked2 by blast
  obtain ms where i: "in_round0 C S h prev b True (ms @ ?sent ?n2) n3" by (rule exchange_member [OF a2 n3 b])
  have "set (?sent ?n1) \<subseteq> set (?sent ?n2)" using sent_receive_all [of _ C "?sent ?n1"] by (force simp: exchange_def [of C ?n1])
  then have "ks \<subseteq> voters C S h (block_hash C b) PREPARE (ms @ ?sent ?n2)" using k1 voters_mono [of "?sent ?n1" "?sent ?n2" C S h "block_hash C b" PREPARE] by auto
  from in_round0_decides(2) [OF i c(3) this] k2 show ?thesis by auto
qed


section \<open>Properties\<close>

text \<open>C5: a height is decided in round 0, in any order of arrival. An engine that has not voted
  receives messages among which there is the proposer's proposal of a valid block, PREPAREs for
  it by enough validators to make a quorum with its own, and COMMITs likewise. If there are no
  round changes and no second proposal among them, the engine finalizes that block, exactly
  once, whatever the order, and whatever invalid messages and votes for other blocks or rounds
  are mixed in.\<close>

theorem votes_decide_in_any_order:
  assumes "make_engine C S key h prev now reads j = Inr e" "voted_hash j 0 J_PREPARE = None" "voted_hash j 0 J_COMMIT = None"
    and "block_index b = h" "previous_hash (header b) = prev" "has_consistent_merkle_root C b"
    and "\<forall>m \<in> set ms. undisturbed C S h b m" "\<exists>m \<in> set ms. proposes C S h b m"
    and "quorum S \<le> int (card (insert (public_to_hex (private_public C key)) (voters C S h (block_hash C b) PREPARE ms)))"
    and "quorum S \<le> int (card (insert (public_to_hex (private_public C key)) (voters C S h (block_hash C b) COMMIT ms)))"
  shows "\<exists>e' t b'. run_engine C (e, empty_history) (map Receive ms) = Inr (e', t) \<and> final t = [b'] \<and> same_contents b' b"
proof -
  let ?n = "receive_all C ms (e, empty_history)"
  have m: "round0 C b False [] [] e empty_history" "waiting C b e" "static e = (S, key, h, prev)"
    using make_engine_round0 [OF assms(1-3), of b] by simp_all
  then have v: "structurally_valid C e b" using assms(4-6) by (simp add: structurally_valid_def static_def)
  have r: "round0 C b True ms [] (fst ?n) (snd ?n)" "waiting C b (fst ?n)" "static (fst ?n) = (S, key, h, prev)"
    using receive_all_round0 [of C b False "[]" "[]" "(e, empty_history)" S key h prev ms] m v assms(7,8) by auto
  then have s: "e_validators (fst ?n) = S" "e_height (fst ?n) = h" "e_me C (fst ?n) = private_public C key"
    by (simp_all add: static_def e_me_def)
  have "locked (fst ?n)" using round0_locks [OF r(1,2)] assms(9) s by simp
  then obtain b' where "final (snd ?n) = [b']" "same_contents b' b" using round0_commits [OF r(1,2)] assms(10) s by auto
  then show ?thesis using run_receive_all [of C e empty_history ms] by (metis prod.collapse)
qed

text \<open>C4: a quorum of validators decides while the others are silent. If the validators that run
  are a quorum, the round-0 proposer among them, none has voted at this height, something is
  pending, and nothing but their own messages is delivered (the other validators have stopped),
  then three exchanges of all their messages, sent once or repeatedly, make every one of them
  finalize exactly one block, the same for all, with exactly the pending records and changes.\<close>

theorem quorum_decides:
  assumes "ed25519_correct C" "make_validator_set vs = Inr S" "\<forall>n \<in> set ns. member C S h prev n"
    and "distinct (map (\<lambda>n. e_me C (fst n)) ns)" "quorum S \<le> int (length ns)"
    and "proposer S h 0 \<in> (\<lambda>n. e_me C (fst n)) ` set ns" "rs \<noteq> [] \<or> cs \<noteq> []"
  shows "\<exists>b. records b = rs \<and> validator_changes b = cs \<and>
    (\<forall>n \<in> set (exchange C (exchange C (exchange C (submit_all C rs cs ns)))). \<exists>b'. final (snd n) = [b'] \<and> same_contents b' b)"
proof -
  have S: "vs_ok S" using make_validator_set_ok [OF assms(2)] by simp
  obtain b where b: "block_index b = h" "previous_hash (header b) = prev" "has_consistent_merkle_root C b" "records b = rs" "validator_changes b = cs"
    and sub: "\<forall>n \<in> set (submit_all C rs cs ns). \<exists>seen. in_round0 C S h prev b seen [] n"
    "\<exists>n \<in> set (submit_all C rs cs ns). \<exists>m \<in> set (sent (snd n)). proposes C S h b m"
    using submit_in_round0 [OF assms(3,1) S assms(7,4,6)] by metis
  have me: "map (\<lambda>n. e_me C (fst n)) (submit_all C rs cs ns) = map (\<lambda>n. e_me C (fst n)) ns"
    by (simp add: submit_all_def case_prod_beta staticD(5) [OF set_pending_static])
  define ks where "ks = (\<lambda>n. public_to_hex (e_me C (fst n))) ` set ns"
  have "card (set (map (\<lambda>n. e_me C (fst n)) ns)) = length ns" using distinct_card [OF assms(4)] by simp
  then have card: "quorum S \<le> int (card ks)"
    using assms(5) card_image [OF inj_public_to_hex, of "(\<lambda>n. e_me C (fst n)) ` set ns"] by (simp add: ks_def image_image)
  have "public_to_hex ` set (map (\<lambda>n. e_me C (fst n)) (submit_all C rs cs ns)) = ks" unfolding me by (simp add: ks_def image_image)
  moreover have "\<forall>n \<in> set (submit_all C rs cs ns). \<exists>seen ms. in_round0 C S h prev b seen ms n" using sub(1) by blast
  ultimately have "all_in_round0 C S h prev b ks (submit_all C rs cs ns)"
    unfolding all_in_round0_def using sub(2) by (simp add: image_image)
  then show ?thesis using three_exchanges [OF _ b(1-3) assms(1) S card] b(4,5) by blast
qed

definition quartet_set :: validator_set where
  "quartet_set = \<lparr>vs_validators = map (\<lambda>c. private_public short_crypto (demo_key c)) [CHR ''a'', CHR ''b'', CHR ''c'', CHR ''d'']\<rparr>"

definition quartet_block :: block where
  "quartet_block = block_create short_crypto 1 ''00'' 5 ''p'' [demo_record] []"

definition quartet_message :: "message_type \<Rightarrow> char \<Rightarrow> block option \<Rightarrow> consensus_message" where
  "quartet_message ty c blk = message_create short_crypto ty 1 0 (block_hash short_crypto quartet_block) (demo_key c) blk None [] []"

definition late_proposal :: "consensus_message list" where
  \<comment> \<open>the votes arrive before the proposal, the COMMITs first\<close>
  "late_proposal = [quartet_message COMMIT (CHR ''c'') None, quartet_message COMMIT (CHR ''d'') None, quartet_message PREPARE (CHR ''d'') None,
     quartet_message PREPARE (CHR ''c'') None, quartet_message PRE_PREPARE (CHR ''b'') (Some quartet_block)]"

theorem votes_decide_in_any_order_witness:
  "\<exists>e e' t b'. make_engine short_crypto quartet_set (demo_key (CHR ''a'')) 1 ''00'' (\<lambda>_. 5) 0 NullVoteJournal = Inr e \<and>
     run_engine short_crypto (e, empty_history) (map Receive late_proposal) = Inr (e', t) \<and> final t = [b'] \<and> records b' = [demo_record]"
proof -
  obtain e where e: "make_engine short_crypto quartet_set (demo_key (CHR ''a'')) 1 ''00'' (\<lambda>_. 5) 0 NullVoteJournal = Inr e"
    by (auto simp: make_engine_def Let_def quartet_set_def contains_def)
  have u: "\<forall>m \<in> set late_proposal. undisturbed short_crypto quartet_set 1 quartet_block m"
    by (simp add: late_proposal_def undisturbed_def quartet_message_def)
  have p: "\<exists>m \<in> set late_proposal. proposes short_crypto quartet_set 1 quartet_block m"
  proof -
    have "proposes short_crypto quartet_set 1 quartet_block (quartet_message PRE_PREPARE (CHR ''b'') (Some quartet_block))"
      unfolding proposes_def by code_simp
    then show ?thesis by (simp add: late_proposal_def)
  qed
  have v: "voters short_crypto quartet_set 1 (block_hash short_crypto quartet_block) PREPARE late_proposal = {''64'', ''63''}"
    "voters short_crypto quartet_set 1 (block_hash short_crypto quartet_block) COMMIT late_proposal = {''63'', ''64''}"
    "public_to_hex (private_public short_crypto (demo_key (CHR ''a''))) = ''61''" "quorum quartet_set = 3"
    unfolding voters_def by code_simp+
  have b: "block_index quartet_block = 1" "previous_hash (header quartet_block) = ''00''" "records quartet_block = [demo_record]"
    "has_consistent_merkle_root short_crypto quartet_block"
    by (simp_all add: quartet_block_def block_create_consistent) (simp_all add: block_create_def block_index_def)
  obtain e' t b' where "run_engine short_crypto (e, empty_history) (map Receive late_proposal) = Inr (e', t)" "final t = [b']"
    "same_contents b' quartet_block"
    using votes_decide_in_any_order [OF e _ _ b(1,2,4) u p] v by auto
  then show ?thesis using e b(3) by (auto simp: same_contents_def)
qed

lemma quartet_members:
  assumes "c \<in> {CHR ''a'', CHR ''b'', CHR ''c''}"
  obtains e where "member short_crypto quartet_set 1 ''00'' (e, empty_history)" "e_me short_crypto e = private_public short_crypto (demo_key c)"
proof -
  obtain e where e: "make_engine short_crypto quartet_set (demo_key c) 1 ''00'' (\<lambda>_. 5) 0 NullVoteJournal = Inr e"
    using assms by (auto simp: make_engine_def Let_def quartet_set_def contains_def)
  show thesis
  proof (rule that)
    show "member short_crypto quartet_set 1 ''00'' (e, empty_history)"
      unfolding member_def using e demo_key_ok by (intro exI conjI) auto
    show "e_me short_crypto e = private_public short_crypto (demo_key c)" using make_engine_round0 [OF e] by simp
  qed
qed

theorem quorum_decides_witness:
  \<comment> \<open>four validators, one of which has stopped\<close>
  "\<exists>ns b. length ns = 3 \<and> vs_size quartet_set = 4 \<and> records b = [demo_record] \<and>
     (\<forall>n \<in> set (exchange short_crypto (exchange short_crypto (exchange short_crypto (submit_all short_crypto [demo_record] [] ns)))).
        \<exists>b'. final (snd n) = [b'] \<and> same_contents b' b)"
proof -
  obtain x y z where e: "member short_crypto quartet_set 1 ''00'' (x, empty_history)" "e_me short_crypto x = private_public short_crypto (demo_key (CHR ''a''))"
    "member short_crypto quartet_set 1 ''00'' (y, empty_history)" "e_me short_crypto y = private_public short_crypto (demo_key (CHR ''b''))"
    "member short_crypto quartet_set 1 ''00'' (z, empty_history)" "e_me short_crypto z = private_public short_crypto (demo_key (CHR ''c''))"
    using quartet_members [of "CHR ''a''"] quartet_members [of "CHR ''b''"] quartet_members [of "CHR ''c''"] by (metis insertCI)
  let ?ns = "[(x, empty_history), (y, empty_history), (z, empty_history)]"
  have S: "make_validator_set (map (\<lambda>c. private_public short_crypto (demo_key c)) [CHR ''a'', CHR ''b'', CHR ''c'', CHR ''d'']) = Inr quartet_set"
    "quorum quartet_set = 3" "proposer quartet_set 1 0 = private_public short_crypto (demo_key (CHR ''b''))" "vs_size quartet_set = 4"
    by code_simp+
  have "distinct (map (\<lambda>n. e_me short_crypto (fst n)) ?ns)"
    by (simp add: e) (simp add: private_public_def short_crypto_def demo_key_def)
  then show ?thesis
    using quorum_decides [OF short_crypto_correct S(1), of ?ns 1 "''00''" "[demo_record]" "[]"] e S(2-4)
    by (intro exI [of _ ?ns]) auto
qed

end
