(* ===== verification/Storage.thy ===== *)
theory Storage
  imports Block
begin

text \<open>
  \<open>storage/repository.py\<close> and \<open>storage/sql.py\<close>: the block repository over one SQL table.
  The interface is the locale \<open>block_store\<close>: a store represents a list of blocks numbered
  from 0, and its operations are those of the list. The SQL repository is its interpretation.

  SQLAlchemy and the database are not part of the sources. Modelled is the table as the list
  of its rows in the order of insertion, the selection by primary key, the two orderings the
  queries ask for, the uniqueness of the columns \<open>index\<close> and \<open>hash\<close>, and, as the parameter
  \<open>fits\<close>, which integers an integer column of the database holds. The column \<open>body\<close> is
  the JSON value whose text it holds.
\<close>

section \<open>Definitions\<close>

record block_row =
  br_index :: int
  br_hash :: string
  br_previous_hash :: string
  br_timestamp :: int
  br_body :: json

type_synonym repo = "block_row list"

datatype storage_error =
    DuplicateBlockError int int   \<comment> \<open>expected and given index\<close>
  | IntegrityError                \<comment> \<open>a unique column holds the value already\<close>
  | DataError                     \<comment> \<open>an integer does not fit its column\<close>

definition row_of_block :: "crypto \<Rightarrow> block \<Rightarrow> block_row" where
  "row_of_block C b =
     \<lparr>br_index = block_index b, br_hash = block_hash C b, br_previous_hash = previous_hash (header b),
      br_timestamp = bh_timestamp (header b), br_body = block_to_dict b\<rparr>"

definition to_block :: "block_row \<Rightarrow> block result" where
  "to_block row = block_from_dict (br_body row)"

definition repo_height :: "repo \<Rightarrow> int" where
  \<comment> \<open>order by index descending, limit 1\<close>
  "repo_height rows = (case sort_key (\<lambda>r. - br_index r) rows of [] \<Rightarrow> -1 | r # _ \<Rightarrow> br_index r)"

definition insert_row :: "(int \<Rightarrow> bool) \<Rightarrow> repo \<Rightarrow> block_row \<Rightarrow> storage_error + repo" where
  \<comment> \<open>\<open>session.add\<close> and \<open>session.commit\<close>\<close>
  "insert_row fits rows r =
     (if \<not> fits (br_index r) \<or> \<not> fits (br_timestamp r) then Inl DataError
      else if br_index r \<in> set (map br_index rows) \<or> br_hash r \<in> set (map br_hash rows) then Inl IntegrityError
      else Inr (rows @ [r]))"

definition repo_append :: "crypto \<Rightarrow> (int \<Rightarrow> bool) \<Rightarrow> repo \<Rightarrow> block \<Rightarrow> storage_error + repo" where
  "repo_append C fits rows b =
     (let expected = repo_height rows + 1 in
      if block_index b \<noteq> expected then Inl (DuplicateBlockError expected (block_index b))
      else insert_row fits rows (row_of_block C b))"

definition repo_get :: "repo \<Rightarrow> int \<Rightarrow> block option result" where
  "repo_get rows index =
     (case find (\<lambda>r. br_index r = index) rows of
        None \<Rightarrow> Inr None
      | Some row \<Rightarrow> bindr (to_block row) (\<lambda>b. Inr (Some b)))"

definition repo_latest :: "repo \<Rightarrow> block option result" where
  "repo_latest rows = (if repo_height rows \<ge> 0 then repo_get rows (repo_height rows) else Inr None)"

definition repo_load_all :: "repo \<Rightarrow> block list result" where
  "repo_load_all rows = mapr to_block (sort_key br_index rows)"


section \<open>The interface\<close>

text \<open>\<open>BlockRepository\<close>: an append-only store of blocks ordered by index.\<close>

locale block_store =
  fixes stores :: "'s \<Rightarrow> block list \<Rightarrow> bool"
    and append :: "'s \<Rightarrow> block \<Rightarrow> 'e + 's"
    and get :: "'s \<Rightarrow> int \<Rightarrow> block option result"
    and height :: "'s \<Rightarrow> int"
    and latest :: "'s \<Rightarrow> block option result"
    and load_all :: "'s \<Rightarrow> block list result"
  assumes height_eq: "stores s bs \<Longrightarrow> height s = int (length bs) - 1"
    and get_eq: "stores s bs \<Longrightarrow> get s i = Inr (if 0 \<le> i \<and> i < int (length bs) then Some (bs ! nat i) else None)"
    and latest_eq: "stores s bs \<Longrightarrow> latest s = Inr (if bs = [] then None else Some (last bs))"
    and load_all_eq: "stores s bs \<Longrightarrow> load_all s = Inr bs"
    and append_eq: "stores s bs \<Longrightarrow> append s b = Inr s' \<Longrightarrow> stores s' (bs @ [b]) \<and> block_index b = int (length bs)"
begin

lemma stores_unique: "stores s bs \<Longrightarrow> stores s cs \<Longrightarrow> bs = cs"
  using load_all_eq [of s bs] load_all_eq [of s cs] by simp

lemma append_adds:
  assumes "stores s bs" "append s b = Inr s'"
  shows "height s' = height s + 1" "latest s' = Inr (Some b)" "get s' (block_index b) = Inr (Some b)"
    "i \<noteq> block_index b \<Longrightarrow> get s' i = get s i"
  using append_eq [OF assms] assms(1) height_eq get_eq latest_eq by (auto simp: nth_append)

end


section \<open>The SQL repository implements it\<close>

definition repo_stores :: "crypto \<Rightarrow> repo \<Rightarrow> block list \<Rightarrow> bool" where
  "repo_stores C rows bs \<longleftrightarrow> rows = map (row_of_block C) bs \<and>
     (\<forall>i < length bs. block_index (bs ! i) = int i) \<and> distinct (map (block_hash C) bs)"

lemma repo_stores_Nil [simp]: "repo_stores C [] bs \<longleftrightarrow> bs = []"
  by (auto simp: repo_stores_def)

lemma row_of_block_simps [simp]:
  "br_index (row_of_block C b) = block_index b" "br_hash (row_of_block C b) = block_hash C b"
  "br_timestamp (row_of_block C b) = bh_timestamp (header b)"
  "to_block (row_of_block C b) = Inr b"
  by (simp_all add: row_of_block_def to_block_def block_from_dict_to_dict)

lemma indices_upto:
  assumes "\<forall>i < length bs. block_index (bs ! i) = int i"
  shows "map block_index bs = map int [0..<length bs]"
  using assms by (intro nth_equalityI) simp_all

lemma repo_stores_index:
  "repo_stores C rows bs \<Longrightarrow> map br_index rows = map int [0..<length bs]"
  using indices_upto [of bs] by (simp add: repo_stores_def comp_def)

lemma repo_stores_sorted:
  assumes "repo_stores C rows bs"
  shows "sort_key br_index rows = rows"
proof (rule sort_key_id_if_sorted)
  show "sorted (map br_index rows)" by (simp add: repo_stores_index [OF assms] sorted_map sorted_wrt_upt)
qed

lemma repo_stores_last:
  assumes "repo_stores C rows bs" "bs \<noteq> []"
  shows "block_index (last bs) = int (length bs) - 1"
  using assms by (cases bs rule: rev_cases) (auto simp: repo_stores_def)

lemma sort_key_first: "sort_key f xs = y # ys \<Longrightarrow> y \<in> set xs \<and> (\<forall>x \<in> set xs. f y \<le> f x)"
proof -
  assume s: "sort_key f xs = y # ys"
  then have "set xs = set (y # ys)" using set_sort [of f xs] by simp
  moreover have "sorted (map f (y # ys))" using sorted_sort_key [of f xs] s by simp
  ultimately show ?thesis by auto
qed

lemma repo_height_Max: "repo_height rows = (if rows = [] then -1 else Max (br_index ` set rows))"
proof (cases "sort_key (\<lambda>r. - br_index r) rows")
  case Nil
  then have "rows = []" using length_sort [of "\<lambda>r. - br_index r" rows] by simp
  then show ?thesis by (simp add: repo_height_def)
next
  case (Cons r rest)
  have r: "r \<in> set rows" "\<forall>x \<in> set rows. br_index x \<le> br_index r" using sort_key_first [OF Cons] by auto
  then have "Max (br_index ` set rows) = br_index r" by (intro Max_eqI) auto
  with r(1) Cons show ?thesis by (auto simp: repo_height_def)
qed

lemma repo_append_height: "repo_append C fits rows b = Inr rows' \<Longrightarrow> repo_height rows' = repo_height rows + 1"
proof -
  assume "repo_append C fits rows b = Inr rows'"
  then have "rows' = rows @ [row_of_block C b]" "block_index b = repo_height rows + 1"
    by (auto simp: repo_append_def insert_row_def Let_def split: if_splits)
  then show ?thesis by (simp add: repo_height_Max)
qed

lemma repo_height_stores:
  assumes "repo_stores C rows bs"
  shows "repo_height rows = int (length bs) - 1"
proof (cases bs rule: rev_cases)
  case (snoc cs c)
  have "br_index ` set rows = int ` {0..<length bs}"
    using arg_cong [OF repo_stores_index [OF assms], of set] by simp
  moreover have "Max (int ` {0..<length bs}) = int (length cs)" by (rule Max_eqI) (auto simp: snoc)
  moreover have "rows \<noteq> []" using assms snoc by (auto simp: repo_stores_def)
  ultimately show ?thesis using snoc by (simp add: repo_height_Max)
qed (use assms in \<open>simp add: repo_height_def repo_stores_def\<close>)

lemma find_map: "find P (map f xs) = map_option f (find (P \<circ> f) xs)"
  by (induction xs) auto

lemma find_index:
  assumes "\<forall>i < length bs. block_index (bs ! i) = int i"
  shows "find (\<lambda>b. block_index b = i) bs = (if 0 \<le> i \<and> i < int (length bs) then Some (bs ! nat i) else None)"
proof (cases "0 \<le> i \<and> i < int (length bs)")
  case True
  have "block_index (bs ! k) \<noteq> i" if "k < nat i" for k
  proof -
    have "k < length bs" using True that by linarith
    then have "block_index (bs ! k) = int k" using assms by simp
    then show ?thesis using that by simp
  qed
  moreover have "nat i < length bs" "block_index (bs ! nat i) = i" using True assms [rule_format, of "nat i"] by auto
  ultimately have "\<exists>j. j < length bs \<and> block_index (bs ! j) = i \<and> bs ! nat i = bs ! j \<and> (\<forall>k < j. block_index (bs ! k) \<noteq> i)"
    by (intro exI [of _ "nat i"]) simp
  then show ?thesis using True by (auto simp: find_Some_iff)
next
  case False
  then show ?thesis using assms by (auto simp: find_None_iff in_set_conv_nth)
qed

lemma repo_get_stores:
  assumes "repo_stores C rows bs"
  shows "repo_get rows i = Inr (if 0 \<le> i \<and> i < int (length bs) then Some (bs ! nat i) else None)"
proof -
  have rows: "rows = map (row_of_block C) bs" and ix: "\<forall>i < length bs. block_index (bs ! i) = int i"
    using assms by (simp_all add: repo_stores_def)
  show ?thesis using find_index [OF ix, of i] by (simp add: repo_get_def rows find_map comp_def)
qed

lemma repo_append_Inr:
  assumes "repo_stores C rows bs" "repo_append C fits rows b = Inr rows'"
  shows "repo_stores C rows' (bs @ [b]) \<and> block_index b = int (length bs)"
proof -
  have "block_index b = int (length bs)" "rows' = rows @ [row_of_block C b]"
    "block_hash C b \<notin> set (map br_hash rows)"
    using assms repo_height_stores [OF assms(1)]
    by (auto simp: repo_append_def insert_row_def Let_def split: if_splits)
  moreover have "br_hash ` set rows = block_hash C ` set bs"
    using assms(1) by (auto simp: repo_stores_def image_image)
  ultimately show ?thesis using assms(1) by (auto simp: repo_stores_def nth_append less_Suc_eq)
qed

interpretation sql: block_store "repo_stores C" "repo_append C fits" repo_get repo_height repo_latest repo_load_all
  for C fits
proof
  fix rows bs assume s: "repo_stores C rows bs"
  have h: "repo_height rows = int (length bs) - 1" using repo_height_stores [OF s] .
  show "repo_height rows = int (length bs) - 1" by (fact h)
  show "repo_get rows i = Inr (if 0 \<le> i \<and> i < int (length bs) then Some (bs ! nat i) else None)" for i
    by (rule repo_get_stores [OF s])
  show "repo_latest rows = Inr (if bs = [] then None else Some (last bs))"
    using repo_get_stores [OF s, of "int (length bs) - 1"] h by (cases bs rule: rev_cases) (simp_all add: repo_latest_def nth_append)
  show "repo_load_all rows = Inr bs"
  proof -
    have "rows = map (row_of_block C) bs" using s by (simp add: repo_stores_def)
    then show ?thesis using repo_stores_sorted [OF s] by (simp add: repo_load_all_def mapr_map_Inr)
  qed
  show "repo_stores C rows' (bs @ [b]) \<and> block_index b = int (length bs)"
    if "repo_append C fits rows b = Inr rows'" for b rows'
    by (rule repo_append_Inr [OF s that])
qed

lemma repo_append_iff:
  assumes "repo_stores C rows bs"
  shows "(\<exists>rows'. repo_append C fits rows b = Inr rows') \<longleftrightarrow>
    block_index b = int (length bs) \<and> fits (block_index b) \<and> fits (bh_timestamp (header b)) \<and>
    block_hash C b \<notin> set (map (block_hash C) bs)"
proof -
  have "block_index b \<notin> set (map br_index rows)" if "block_index b = int (length bs)"
    using that repo_stores_index [OF assms] by auto
  moreover have "map br_hash rows = map (block_hash C) bs" using assms by (simp add: repo_stores_def)
  ultimately show ?thesis
    using repo_height_stores [OF assms] by (auto simp: repo_append_def insert_row_def Let_def)
qed


section \<open>Storing a chain\<close>

fun repo_store_all :: "crypto \<Rightarrow> (int \<Rightarrow> bool) \<Rightarrow> repo \<Rightarrow> block list \<Rightarrow> storage_error + repo" where
  "repo_store_all C fits rows [] = Inr rows"
| "repo_store_all C fits rows (b # bs) = bindr (repo_append C fits rows b) (\<lambda>rows'. repo_store_all C fits rows' bs)"

lemma repo_store_all_ok:
  assumes "repo_stores C rows cs" "\<forall>i < length bs. block_index (bs ! i) = int (length cs + i)"
    and "\<forall>b \<in> set bs. fits (block_index b) \<and> fits (bh_timestamp (header b))"
    and "distinct (map (block_hash C) (cs @ bs))"
  shows "\<exists>rows'. repo_store_all C fits rows bs = Inr rows' \<and> repo_stores C rows' (cs @ bs)"
  using assms
proof (induction bs arbitrary: rows cs)
  case (Cons b bs)
  have "block_index b = int (length cs)" using Cons.prems(2) by auto
  then obtain rows' where a: "repo_append C fits rows b = Inr rows'"
    using repo_append_iff [OF Cons.prems(1), of fits b] Cons.prems(3,4) by auto
  have "\<forall>i < length bs. block_index (bs ! i) = int (length (cs @ [b]) + i)"
    using Cons.prems(2) by (metis Suc_less_eq add_Suc_right add_Suc_shift length_Cons length_append_singleton nth_Cons_Suc)
  from Cons.IH [OF conjunct1 [OF repo_append_Inr [OF Cons.prems(1) a]] this] Cons.prems(3,4) a
  show ?case by auto
qed auto

lemma valid_chain_hashes_distinct:
  assumes "valid_chain C bs" "inj_on (sha256 C) ((\<lambda>b. canonical_bytes (header_to_dict (header b))) ` set bs)"
  shows "distinct (map (block_hash C) bs)"
proof -
  have "bs ! i = bs ! j \<and> i = j" if "i < length bs" "j < length bs" "block_hash C (bs ! i) = block_hash C (bs ! j)" for i j
  proof -
    have "header (bs ! i) = header (bs ! j)"
      by (rule header_hash_eqD [of C], use that in \<open>simp add: block_hash_def\<close>)
        (rule inj_on_subset [OF assms(2)], use that in auto)
    then show ?thesis
      using valid_chain_index [OF assms(1) that(1)] valid_chain_index [OF assms(1) that(2)]
      by (simp add: block_index_def)
  qed
  then show ?thesis by (auto simp: distinct_conv_nth)
qed


section \<open>Properties\<close>

text \<open>C26: the repository returns what was stored. Appending, in order, blocks with the indices
  0, 1, 2, \<open>\<dots>\<close>, different hashes and integers the columns can hold, succeeds, and afterwards
  \<open>load_all\<close> returns exactly these blocks, \<open>get\<close> the block at each index and \<open>None\<close>
  outside, \<open>height\<close> the last index and \<open>latest\<close> the last block.\<close>

theorem repository_returns_stored:
  assumes "\<forall>i < length bs. block_index (bs ! i) = int i" "distinct (map (block_hash C) bs)"
    and "\<forall>b \<in> set bs. fits (block_index b) \<and> fits (bh_timestamp (header b))"
  shows "\<exists>rows. repo_store_all C fits [] bs = Inr rows \<and> repo_load_all rows = Inr bs \<and>
    (\<forall>i. repo_get rows i = Inr (if 0 \<le> i \<and> i < int (length bs) then Some (bs ! nat i) else None)) \<and>
    repo_height rows = int (length bs) - 1 \<and>
    repo_latest rows = Inr (if bs = [] then None else Some (last bs))"
proof -
  obtain rows where r: "repo_store_all C fits [] bs = Inr rows" "repo_stores C rows bs"
    using repo_store_all_ok [of C "[]" "[]" bs fits] assms by auto
  then show ?thesis
    using sql.load_all_eq [OF r(2)] sql.get_eq [OF r(2)] sql.height_eq [OF r(2)] sql.latest_eq [OF r(2)] by blast
qed

theorem repository_returns_stored_witness:
  "\<exists>rows. repo_store_all padded_crypto (\<lambda>i. - (2 ^ 63) \<le> i \<and> i < 2 ^ 63) [] (demo_chain padded_crypto) = Inr rows \<and>
     repo_load_all rows = Inr (demo_chain padded_crypto) \<and> repo_height rows = 1"
proof -
  let ?bs = "demo_chain padded_crypto"
  have len: "length ?bs = 2" by (simp add: demo_chain_def Let_def)
  have "\<forall>i < length ?bs. block_index (?bs ! i) = int i" using valid_chain_index [OF demo_chain_valid(1)] by blast
  moreover have "distinct (map (block_hash padded_crypto) ?bs)" by code_simp
  moreover have "\<forall>b \<in> set ?bs. (- (2 ^ 63) \<le> block_index b \<and> block_index b < 2 ^ 63) \<and>
      (- (2 ^ 63) \<le> bh_timestamp (header b) \<and> bh_timestamp (header b) < 2 ^ 63)" by code_simp
  ultimately show ?thesis
    using repository_returns_stored [of ?bs padded_crypto "\<lambda>i. - (2 ^ 63) \<le> i \<and> i < 2 ^ 63"] len by auto
qed

text \<open>\<open>append\<close> rejects gaps and duplicates. On a repository that holds the blocks
  \<open>bs\<close>, it raises \<open>DuplicateBlockError\<close> exactly if the index is not the next one; a block
  with the next index is stored exactly if its hash is new and its integers fit, and what was
  stored before is still returned. It never overwrites a block.\<close>

theorem repository_rejects_gaps:
  assumes "repo_stores C rows bs"
  shows "case repo_append C fits rows b of
     Inl (DuplicateBlockError expected given) \<Rightarrow>
       expected = int (length bs) \<and> given = block_index b \<and> given \<noteq> expected
   | Inl IntegrityError \<Rightarrow> block_hash C b \<in> set (map (block_hash C) bs)
   | Inl DataError \<Rightarrow> \<not> fits (block_index b) \<or> \<not> fits (bh_timestamp (header b))
   | Inr rows' \<Rightarrow> block_index b = int (length bs) \<and> repo_load_all rows' = Inr (bs @ [b]) \<and>
       (\<forall>i. i \<noteq> block_index b \<longrightarrow> repo_get rows' i = repo_get rows i)"
proof (cases "repo_append C fits rows b")
  case (Inl e)
  have "block_index b \<notin> set (map br_index rows)" if "block_index b = int (length bs)"
    using that repo_stores_index [OF assms] by auto
  moreover have "br_hash ` set rows = block_hash C ` set bs" using assms by (auto simp: repo_stores_def image_image)
  ultimately show ?thesis
    using Inl repo_height_stores [OF assms]
    by (auto simp: repo_append_def insert_row_def Let_def split: if_splits)
next
  case (Inr rows')
  then show ?thesis
    using sql.append_eq [OF assms Inr] sql.append_adds(4) [OF assms Inr] sql.load_all_eq [of C rows' "bs @ [b]"] by auto
qed

theorem repository_rejects_gaps_witness:
  "repo_append padded_crypto (\<lambda>_. True) [row_of_block padded_crypto (hd (demo_chain padded_crypto))]
     (hd (demo_chain padded_crypto)) = Inl (DuplicateBlockError 1 0)"
proof -
  let ?g = "hd (demo_chain padded_crypto)"
  have s: "repo_stores padded_crypto [row_of_block padded_crypto ?g] [?g]"
    by (simp add: repo_stores_def) (simp add: demo_chain_def Let_def genesis_block_def block_create_def block_index_def)
  have "block_index ?g = 0" by (simp add: demo_chain_def Let_def genesis_block_def block_create_def block_index_def)
  then show ?thesis
    using repository_rejects_gaps [OF s, where fits = "\<lambda>_. True" and b = ?g]
    by (auto split: sum.splits storage_error.splits) (simp_all add: repo_append_def Let_def repo_height_def)
qed

end
