(* ===== verification/Engine_Links.thy ===== *)
theory Engine_Links
  imports Engine_Invariant
begin

text \<open>
  What an engine finalizes extends the tip it was started on: another interpretation of the
  locale \<open>engine_steps\<close>. A proposal is accepted after the check of index and previous hash,
  with one exception: the proposer of a later round proposes the block of a lock as it finds
  it in the round changes. The result therefore assumes that the blocks which delivered
  votes and round changes carry extend the tip.
\<close>

definition carries :: "int \<Rightarrow> string \<Rightarrow> consensus_message \<Rightarrow> bool" where
  "carries h p m \<longleftrightarrow> (\<forall>b. m_block m = Some b \<longrightarrow> block_index b = h \<and> previous_hash (header b) = p)"

definition tip_block :: "int \<Rightarrow> string \<Rightarrow> block \<Rightarrow> bool" where
  "tip_block h p b \<longleftrightarrow> block_index b = h \<and> previous_hash (header b) = p"

definition on_tip :: "int \<Rightarrow> string \<Rightarrow> engine \<Rightarrow> bool" where
  "on_tip h p e \<longleftrightarrow> e_height e = h \<and> e_previous_hash e = p \<and>
     pred_option (tip_block h p) (e_proposal e) \<and> pred_option (tip_block h p) (e_prepared_block e) \<and>
     pred_option (\<lambda>(_, b, _). tip_block h p b) (prepared_lock (e_journal e)) \<and>
     (\<forall>t. \<forall>m \<in> set (dict_values (dict_get_list (e_round_changes e) t)). carries h p m)"

definition tip_step :: "int \<Rightarrow> string \<Rightarrow> step_state \<Rightarrow> step_state \<Rightarrow> bool" where
  "tip_step h p a b \<longleftrightarrow> (on_tip h p (fst a) \<longrightarrow> on_tip h p (fst b) \<and>
     (committed_block (snd b) = committed_block (snd a) \<or> pred_option (tip_block h p) (committed_block (snd b))))"

lemma tip_step_trans: "tip_step h p a b \<Longrightarrow> tip_step h p b c \<Longrightarrow> tip_step h p a c"
  by (auto simp: tip_step_def)

lemma tip_stepI:
  assumes "on_tip h p (fst a) \<Longrightarrow> on_tip h p (fst b)" "committed_block (snd b) = committed_block (snd a)"
  shows "tip_step h p a b"
  using assms by (simp add: tip_step_def)

lemma stored_round_change:
  assumes "on_tip h p e" "carries h p m"
    and "e_round_changes e' = dict_set2 t s m (e_round_changes e)"
    and "static e' = static e" "e_proposal e' = e_proposal e" "e_prepared_block e' = e_prepared_block e"
    and "e_journal e' = e_journal e"
  shows "on_tip h p e'"
proof -
  have "carries h p x" if "x \<in> set (dict_values (dict_get_list (e_round_changes e') r))" for r x
  proof -
    have "x = m \<or> x \<in> set (dict_values (dict_get_list (e_round_changes e) r))"
      using that map_snd_dict_set_subset [of s m "dict_get_list (e_round_changes e) t"]
      by (auto simp: assms(3) split: if_splits)
    then show ?thesis using assms(1,2) by (auto simp: on_tip_def)
  qed
  then show ?thesis using assms staticD [OF assms(4)] by (simp add: on_tip_def)
qed

lemma prepared_lock_recorded:
  "prepared_lock (record_vote j r ph h) = prepared_lock j"
  "prepared_lock (record_prepared C j r b c) \<in> {prepared_lock j, Some (r, b, c)}"
  by (cases j; simp add: sql_record_vote_def sql_record_prepared_def)+

lemma sourced_tip:
  assumes "on_tip h p e" "sourced C e b"
  shows "tip_block h p b"
  using assms(2) unfolding sourced_def
proof
  assume "structurally_valid C e b"
  then show ?thesis using assms(1) by (simp add: structurally_valid_def on_tip_def tip_block_def)
next
  assume "relocked C e b"
  then obtain bh where "locked_block_from_cert C (dict_values (dict_get_list (e_round_changes e) (e_round e))) bh = Some b"
    by (auto simp: relocked_def Let_def)
  then obtain m where "m \<in> set (dict_values (dict_get_list (e_round_changes e) (e_round e)))" "m_block m = Some b"
    by (auto simp: locked_block_from_cert_def find_Some_iff bind_eq_Some_conv) (metis nth_mem)
  then show ?thesis using assms(1) by (auto simp: on_tip_def carries_def tip_block_def)
qed

lemma cast_tip:
  assumes "sourced C (fst st) b"
  shows "tip_step h p st (cast_prepare C b st)"
proof (rule tip_stepI)
  assume t: "on_tip h p (fst st)"
  have "tip_block h p b" using sourced_tip [OF t assms] .
  moreover have "e_proposal (fst (cast_prepare C b st)) = Some b"
    "e_prepared_block (fst (cast_prepare C b st)) = e_prepared_block (fst st)"
    "e_round_changes (fst (cast_prepare C b st)) = e_round_changes (fst st)"
    "prepared_lock (e_journal (fst (cast_prepare C b st))) = prepared_lock (e_journal (fst st))"
    by (simp_all add: cast_prepare_def Let_def emit_def record_prepare_def prepared_lock_recorded)
  ultimately show "on_tip h p (fst (cast_prepare C b st))"
    using t staticD [OF cast_prepare_frame(1) [of C b st]] by (simp add: on_tip_def)
qed (simp add: cast_prepare_def Let_def emit_def)

lemma lock_tip:
  assumes "e_proposal (fst st) = Some b"
  shows "tip_step h p st (try_prepare C b st)"
proof (rule tip_stepI)
  assume t: "on_tip h p (fst st)"
  have "e_prepared_block (fst (try_prepare C b st)) \<in> {e_prepared_block (fst st), Some b}"
    by (simp add: try_prepare_def Let_def emit_def)
  moreover have "prepared_lock (e_journal (fst (try_prepare C b st))) \<in> {prepared_lock (e_journal (fst st))}
      \<union> {Some (r, b, c) | r c. True}"
    using prepared_lock_recorded(2) [of C "e_journal (fst st)" "e_round (fst st)" b]
    by (auto simp: try_prepare_def Let_def emit_def prepared_lock_recorded(1))
  ultimately show "on_tip h p (fst (try_prepare C b st))"
    using t assms staticD [OF try_prepare_frame(1) [of C b st]] positionD [OF try_prepare_frame(2) [of C b st]]
      try_prepare_frame(3) [of C b st]
    by (auto simp: on_tip_def)
qed (simp add: try_prepare_def Let_def emit_def)

lemma final_tip:
  assumes "e_proposal (fst st) = Some b"
  shows "tip_step h p st (try_commit C b st)"
  using assms
  by (simp add: tip_step_def on_tip_def try_commit_def Let_def tip_block_def block_index_def)

lemma round_change_tip: "tip_step h p st (send_round_change C t st)"
proof (rule tip_stepI)
  assume o: "on_tip h p (fst st)"
  show "on_tip h p (fst (send_round_change C t st))"
  proof (cases "t \<in> set (e_rc_sent (fst st))")
    case False
    let ?m = "message_create C ROUND_CHANGE (e_height (fst st)) t
      (case e_prepared_block (fst st) of Some b \<Rightarrow> block_hash C b | None \<Rightarrow> ZERO_HASH) (e_private_key (fst st))
      (e_prepared_block (fst st)) (e_prepared_round (fst st))
      (case e_prepared_block (fst st) of Some _ \<Rightarrow> e_prepared_cert (fst st) | None \<Rightarrow> []) []"
    have "carries h p ?m" using o by (auto simp: carries_def on_tip_def tip_block_def)
    then show ?thesis
      by (rule stored_round_change [OF o, where t = t and s = "public_to_hex (e_me C (fst st))"])
        (use False in \<open>auto simp: send_round_change_def Let_def emit_def static_def split: option.splits\<close>)
  qed (use o in \<open>simp add: send_round_change_def\<close>)
qed (simp add: send_round_change_def Let_def emit_def split: option.splits)

interpretation tip: engine_steps C "carries h p" "tip_step h p" for C h p
proof (unfold_locales, goal_cases)
  case (2 a b c) then show ?case by (rule tip_step_trans)
next
  case (7 st b) then show ?case by (rule lock_tip)
next
  case (8 st b) then show ?case by (rule final_tip)
next
  case (9 st b) then show ?case by (intro cast_tip)
next
  case (11 t st) show ?case by (rule round_change_tip)
next
  case (13 e m r)
  then show ?case
    using stored_round_change [of h p e m] by (intro tip_stepI) (auto simp: static_def)
qed (simp_all add: tip_step_def on_tip_def record_prepare_def emit_def start_round_def)

section \<open>The journal stays at its height\<close>

fun journal_upto :: "int \<Rightarrow> vote_journal \<Rightarrow> bool" where
  \<comment> \<open>a view of the given height on a table with nothing above it\<close>
  "journal_upto h (SqlHeightView v) = (sv_height v = h \<and> (\<forall>row \<in> set (sv_table v). w_height row \<le> h))"
| "journal_upto h _ = True"

fun same_kind :: "vote_journal \<Rightarrow> vote_journal \<Rightarrow> bool" where
  "same_kind NullVoteJournal j = (j = NullVoteJournal)"
| "same_kind (InMemoryVoteJournal _) j = (\<exists>m. j = InMemoryVoteJournal m)"
| "same_kind (SqlHeightView _) j = (\<exists>v. j = SqlHeightView v)"

definition journal_step :: "int \<Rightarrow> step_state \<Rightarrow> step_state \<Rightarrow> bool" where
  "journal_step h a b \<longleftrightarrow> same_kind (e_journal (fst a)) (e_journal (fst b)) \<and>
     (journal_upto h (e_journal (fst a)) \<longrightarrow> journal_upto h (e_journal (fst b)))"

lemma same_kind_refl [simp]: "same_kind j j"
  by (cases j) simp_all

lemma same_kind_trans: "same_kind a b \<Longrightarrow> same_kind b c \<Longrightarrow> same_kind a c"
  by (cases a) auto

lemma recorded_journal:
  "same_kind j (record_vote j r ph bh) \<and> (journal_upto h j \<longrightarrow> journal_upto h (record_vote j r ph bh))"
  "same_kind j (record_prepared C j r b c) \<and> (journal_upto h j \<longrightarrow> journal_upto h (record_prepared C j r b c))"
  by (cases j; auto simp: sql_record_vote_def sql_record_prepared_def)+

interpretation journal_height: engine_steps C ok "journal_step h" for C ok h
proof (unfold_locales, goal_cases)
  case (2 a b c) then show ?case using same_kind_trans by (auto simp: journal_step_def)
next
  case (7 st b)
  let ?j = "e_journal (fst st)"
  have two: "same_kind ?j (record_vote (record_prepared C ?j r b c) r J_COMMIT bh) \<and>
      (journal_upto h ?j \<longrightarrow> journal_upto h (record_vote (record_prepared C ?j r b c) r J_COMMIT bh))" for r c bh
    using recorded_journal(1) [of "record_prepared C ?j r b c" r J_COMMIT bh h] recorded_journal(2) [of ?j C r b c h]
      same_kind_trans [of ?j "record_prepared C ?j r b c"] by simp
  have "e_journal (fst (try_prepare C b st)) = ?j \<or> (\<exists>r c bh. e_journal (fst (try_prepare C b st))
      = record_vote (record_prepared C ?j r b c) r J_COMMIT bh)"
    by (auto simp: try_prepare_def Let_def emit_def)
  then show ?case using two by (auto simp: journal_step_def)
next
  case (9 st b)
  have "e_journal (fst (cast_prepare C b st)) = record_vote (e_journal (fst st)) (e_round (fst st)) J_PREPARE (block_hash C b)"
    by (simp add: cast_prepare_def Let_def emit_def record_prepare_def)
  then show ?case using recorded_journal(1) by (simp add: journal_step_def)
next
  case (11 st t)
  have "e_journal (fst (send_round_change C t st)) = e_journal (fst st)"
    by (simp add: send_round_change_def Let_def emit_def split: option.splits)
  then show ?case by (simp add: journal_step_def)
qed (simp_all add: journal_step_def record_prepare_def emit_def start_round_def try_commit_def Let_def)


section \<open>The entry points\<close>

text \<open>What the node knows of the engine it runs, and of a call to it.\<close>

definition runs_at :: "crypto \<Rightarrow> int \<Rightarrow> string \<Rightarrow> engine \<Rightarrow> bool" where
  "runs_at C h p e \<longleftrightarrow> engine_ok C (carries h p) e \<and> on_tip h p e \<and> journal_upto h (e_journal e)"

definition tip_result :: "crypto \<Rightarrow> int \<Rightarrow> string \<Rightarrow> engine \<Rightarrow> step_state \<Rightarrow> bool" where
  "tip_result C h p e st \<longleftrightarrow> runs_at C h p (fst st) \<and> static (fst st) = static e \<and>
     same_kind (e_journal e) (e_journal (fst st)) \<and> pred_option (tip_block h p) (committed_block (snd st))"

lemma tip_resultI:
  assumes "runs_at C h p e" "engine_ok C (carries h p) (fst st) \<and> evolves C (carries h p) (e, empty_result) st"
    and "tip_step h p (e, empty_result) st" "journal_step h (e, empty_result) st"
  shows "tip_result C h p e st"
  using assms by (auto simp: tip_result_def runs_at_def tip_step_def journal_step_def evolves_def grows_def empty_result_def)

lemma runs_at_buffer: "runs_at C h p e \<Longrightarrow> buffer_ok C (carries h p) e"
  by (simp add: runs_at_def engine_ok_buffer)

lemma handle_at:
  assumes "runs_at C h p e" "deliverable (carries h p) m"
  shows "tip_result C h p e (handle C m e)"
  using assms handle_ok tip.handled journal_height.handled runs_at_buffer [OF assms(1)]
  by (intro tip_resultI) (auto simp: runs_at_def)

lemma on_timeout_at:
  assumes "runs_at C h p e"
  shows "tip_result C h p e (on_timeout C e)"
  using assms on_timeout_ok tip.timed_out journal_height.timed_out runs_at_buffer [OF assms(1)]
  by (intro tip_resultI) (auto simp: runs_at_def)

lemma set_pending_at:
  assumes "runs_at C h p e"
  shows "tip_result C h p e (set_pending C rs cs e)"
  using assms set_pending_ok tip.submitted journal_height.submitted
  by (intro tip_resultI) (auto simp: runs_at_def)

lemma make_engine_on_tip:
  assumes "make_engine C S key height prev now reads j = Inr e"
    and "pred_option (\<lambda>(_, b, _). tip_block height prev b) (prepared_lock j)"
  shows "on_tip height prev e"
  using assms
  by (cases "prepared_lock j")
    (auto simp: make_engine_def on_tip_def start_round_def Let_def dict_values_def split: if_splits)

end
