(* ===== verification/Metrics.thy ===== *)
theory Metrics
  imports Main
begin

text \<open>
  \<open>metrics.py\<close>: the collectors of a node process and the functions that update them. A counter
  starts at zero and only grows, a gauge starts at zero and holds the last value set. Both are
  integers here; the client library keeps them as floats. And \<open>tracing.py\<close>: which tracer the
  process uses.
\<close>

record metrics =
  CHAIN_HEIGHT :: int
  CONSENSUS_ROUND :: int
  BLOCKS_COMMITTED :: int
  TAMPERING_DETECTED :: int
  MEMPOOL_PENDING :: int
  VALIDATORS_ACTIVE :: int
  QUORUM :: int
  IS_VALIDATOR :: int
  ROUND_TIMEOUTS :: int
  INBOUND_QUEUE :: int
  RECORDS_DROPPED :: int

definition initial_metrics :: metrics where
  "initial_metrics = \<lparr>CHAIN_HEIGHT = 0, CONSENSUS_ROUND = 0, BLOCKS_COMMITTED = 0, TAMPERING_DETECTED = 0, MEMPOOL_PENDING = 0,
     VALIDATORS_ACTIVE = 0, QUORUM = 0, IS_VALIDATOR = 0, ROUND_TIMEOUTS = 0, INBOUND_QUEUE = 0, RECORDS_DROPPED = 0\<rparr>"

definition observe_chain_state :: "int \<Rightarrow> int \<Rightarrow> int \<Rightarrow> bool \<Rightarrow> int \<Rightarrow> metrics \<Rightarrow> metrics" where
  "observe_chain_state height validators quorum' validating pending m =
     m\<lparr>CHAIN_HEIGHT := height, VALIDATORS_ACTIVE := validators, QUORUM := quorum',
       IS_VALIDATOR := (if validating then 1 else 0), MEMPOOL_PENDING := pending\<rparr>"

definition observe_commit :: "int \<Rightarrow> metrics \<Rightarrow> metrics" where
  "observe_commit tampered m =
     (let m1 = m\<lparr>BLOCKS_COMMITTED := BLOCKS_COMMITTED m + 1\<rparr> in
      if tampered \<noteq> 0 then m1\<lparr>TAMPERING_DETECTED := TAMPERING_DETECTED m1 + tampered\<rparr> else m1)"

definition observe_round :: "int \<Rightarrow> metrics \<Rightarrow> metrics" where
  "observe_round rnd m = m\<lparr>CONSENSUS_ROUND := rnd\<rparr>"

definition observe_timeout :: "metrics \<Rightarrow> metrics" where
  "observe_timeout m = m\<lparr>ROUND_TIMEOUTS := ROUND_TIMEOUTS m + 1\<rparr>"

definition observe_inbound :: "int \<Rightarrow> metrics \<Rightarrow> metrics" where
  "observe_inbound depth m = m\<lparr>INBOUND_QUEUE := depth\<rparr>"

definition observe_records_dropped :: "int \<Rightarrow> metrics \<Rightarrow> metrics" where
  "observe_records_dropped n m = (if n \<noteq> 0 then m\<lparr>RECORDS_DROPPED := RECORDS_DROPPED m + n\<rparr> else m)"

lemma observe_simps [simp]:
  "BLOCKS_COMMITTED (observe_commit t m) = BLOCKS_COMMITTED m + 1" "TAMPERING_DETECTED (observe_commit t m) = TAMPERING_DETECTED m + t"
  "BLOCKS_COMMITTED (observe_chain_state h v q b p m) = BLOCKS_COMMITTED m"
  "TAMPERING_DETECTED (observe_chain_state h v q b p m) = TAMPERING_DETECTED m"
  "CHAIN_HEIGHT (observe_chain_state h v q b p m) = h" "VALIDATORS_ACTIVE (observe_chain_state h v q b p m) = v"
  "QUORUM (observe_chain_state h v q b p m) = q" "IS_VALIDATOR (observe_chain_state h v q b p m) = (if b then 1 else 0)"
  "BLOCKS_COMMITTED (observe_round r m) = BLOCKS_COMMITTED m" "TAMPERING_DETECTED (observe_round r m) = TAMPERING_DETECTED m"
  "CHAIN_HEIGHT (observe_round r m) = CHAIN_HEIGHT m" "VALIDATORS_ACTIVE (observe_round r m) = VALIDATORS_ACTIVE m"
  "QUORUM (observe_round r m) = QUORUM m" "IS_VALIDATOR (observe_round r m) = IS_VALIDATOR m"
  "BLOCKS_COMMITTED (observe_timeout m) = BLOCKS_COMMITTED m" "TAMPERING_DETECTED (observe_timeout m) = TAMPERING_DETECTED m"
  "CHAIN_HEIGHT (observe_timeout m) = CHAIN_HEIGHT m" "VALIDATORS_ACTIVE (observe_timeout m) = VALIDATORS_ACTIVE m"
  "QUORUM (observe_timeout m) = QUORUM m" "IS_VALIDATOR (observe_timeout m) = IS_VALIDATOR m"
  "BLOCKS_COMMITTED (observe_inbound d m) = BLOCKS_COMMITTED m" "TAMPERING_DETECTED (observe_inbound d m) = TAMPERING_DETECTED m"
  "CHAIN_HEIGHT (observe_inbound d m) = CHAIN_HEIGHT m" "VALIDATORS_ACTIVE (observe_inbound d m) = VALIDATORS_ACTIVE m"
  "QUORUM (observe_inbound d m) = QUORUM m" "IS_VALIDATOR (observe_inbound d m) = IS_VALIDATOR m"
  "BLOCKS_COMMITTED (observe_records_dropped n m) = BLOCKS_COMMITTED m" "TAMPERING_DETECTED (observe_records_dropped n m) = TAMPERING_DETECTED m"
  "CHAIN_HEIGHT (observe_records_dropped n m) = CHAIN_HEIGHT m" "VALIDATORS_ACTIVE (observe_records_dropped n m) = VALIDATORS_ACTIVE m"
  "QUORUM (observe_records_dropped n m) = QUORUM m" "IS_VALIDATOR (observe_records_dropped n m) = IS_VALIDATOR m"
  by (simp_all add: observe_commit_def observe_chain_state_def observe_round_def observe_timeout_def observe_inbound_def
      observe_records_dropped_def Let_def)


section \<open>Tracing\<close>

text \<open>
  The tracer of the API does nothing until \<open>configure\<close> has installed a provider. Whether the
  SDK can be imported depends on the installation.
\<close>

datatype otlp_exporter = OTLPSpanExporter "string option"

datatype tracer = NoopTracer | SdkTracer (service_name: string) (span_exporter: otlp_exporter)

definition configure :: "bool \<Rightarrow> bool \<Rightarrow> string \<Rightarrow> string \<Rightarrow> tracer \<Rightarrow> tracer" where
  "configure sdk_importable enabled endpoint service current_tracer =
     (if \<not> enabled then current_tracer
      else if \<not> sdk_importable then current_tracer
      else let exporter = (if endpoint \<noteq> [] then OTLPSpanExporter (Some endpoint) else OTLPSpanExporter None)
           in SdkTracer service exporter)"

lemma configure_installs:
  "configure sdk enabled endpoint service t \<noteq> t \<Longrightarrow> sdk \<and> enabled \<and> service_name (configure sdk enabled endpoint service t) = service"
  by (auto simp: configure_def Let_def split: if_splits)

end
