(* ===== verification/Node.thy ===== *)
theory Node
  imports Storage Engine_Links Validator_Run Metrics
begin

text \<open>
  \<open>network/node.py\<close>: the node, which owns the block repository, the vote journal, the
  mempool and the engine of the current height. Every method that awaits does so under the
  node's lock (only \<open>enqueue_inbound\<close> does not, and it touches the inbox alone), so a method
  is a function of the node state. It returns the state it leaves and the exception it
  raised, if any: the worker catches exceptions and goes on with the state as it is.
  \<open>apply_locked\<close> loops without a bound; its value is \<open>None\<close> if it does not return.

  What the node sends is appended to \<open>n_out\<close>. The peers' answers to \<open>fetch_block\<close> are a
  parameter; an answer may be an exception. Logging and tracing are left out, and the peer
  registry is modelled in the theory \<open>Discovery\<close>.
\<close>

section \<open>State\<close>

datatype node_error =
    Repository storage_error
  | Raised py_error
  | AssertionError

datatype effect =
    Broadcast consensus_message
  | GossipRecords "json list"
  | GossipChanges "json list"
  | GossipBlock json
  | OnCommit block           \<comment> \<open>the commit hook is called\<close>

record node =
  n_private_key :: private_key
  n_genesis_validators :: validator_set
  n_fits :: "int \<Rightarrow> bool"         \<comment> \<open>the integers the database holds\<close>
  n_repo :: repo
  n_now_ms :: "nat \<Rightarrow> int"
  n_clock_reads :: nat
  n_journal_store :: journal_store
  n_pending :: "integrity_record list"
  n_pending_changes :: "validator_change list"
  n_mempool_seen :: "string list"
  n_inbox :: "consensus_message list"
  n_max_inbox :: int
  n_active :: validator_set
  n_engine :: "engine option"
  n_out :: "effect list"
  n_metrics :: metrics

type_synonym outcome = "node_error option \<times> node"
type_synonym fetcher = "int \<Rightarrow> block option result"   \<comment> \<open>\<open>transport.fetch_block\<close>\<close>

definition n_me :: "crypto \<Rightarrow> node \<Rightarrow> public_key" where
  "n_me C n = private_public C (n_private_key n)"

definition send :: "effect list \<Rightarrow> node \<Rightarrow> node" where
  "send fx n = n\<lparr>n_out := n_out n @ fx\<rparr>"

text \<open>
  The engine's view of the journal and the node's store are one table. A view's calls write
  to the store, and pruning the store takes effect in the view.
\<close>

fun attach_table :: "journal_store \<Rightarrow> vote_journal \<Rightarrow> vote_journal" where
  "attach_table (SqlConsensusJournalStore table) (SqlHeightView v) = SqlHeightView (v\<lparr>sv_table := table\<rparr>)"
| "attach_table _ j = j"

fun written_store :: "vote_journal \<Rightarrow> journal_store \<Rightarrow> journal_store" where
  "written_store (SqlHeightView v) store = SqlConsensusJournalStore (sv_table v)"
| "written_store _ store = store"

definition call_engine :: "(engine \<Rightarrow> step_state) \<Rightarrow> node \<Rightarrow> step_result option \<times> node" where
  \<comment> \<open>a method call on \<open>self._engine\<close>\<close>
  "call_engine f n =
     (case n_engine n of
        None \<Rightarrow> (None, n)
      | Some e \<Rightarrow>
          let (e', r) = f (e\<lparr>e_journal := attach_table (n_journal_store n) (e_journal e)\<rparr>)
          in (Some r, n\<lparr>n_engine := Some e', n_clock_reads := e_clock_reads e',
                        n_journal_store := written_store (e_journal e') (n_journal_store n)\<rparr>))"


section \<open>The engine of the next height\<close>

definition new_engine :: "crypto \<Rightarrow> node \<Rightarrow> outcome" where
  \<comment> \<open>\<open>self._engine = self._new_engine()\<close>\<close>
  "new_engine C n =
     (case repo_latest (n_repo n) of
        Inl e \<Rightarrow> (Some (Raised e), n)
      | Inr None \<Rightarrow> (Some AssertionError, n)
      | Inr (Some latest) \<Rightarrow>
          if \<not> contains (n_active n) (n_me C n) then (None, n\<lparr>n_engine := None\<rparr>)
          else let height = block_index latest + 1 in
            case bindr (store_view (n_journal_store n) height) (\<lambda>journal.
                   make_engine C (n_active n) (n_private_key n) height (block_hash C latest)
                     (n_now_ms n) (n_clock_reads n) journal) of
              Inl e \<Rightarrow> (Some (Raised e), n)
            | Inr engine \<Rightarrow> (None, n\<lparr>n_engine := Some engine\<rparr>))"

definition node_height :: "node \<Rightarrow> int" where
  "node_height n = repo_height (n_repo n)"

definition node_round :: "node \<Rightarrow> int" where
  "node_round n = (case n_engine n of None \<Rightarrow> 0 | Some e \<Rightarrow> e_round e)"

definition is_validator :: "node \<Rightarrow> bool" where
  "is_validator n = (n_engine n \<noteq> None)"

definition make_node ::
    "crypto \<Rightarrow> private_key \<Rightarrow> validator_set \<Rightarrow> (int \<Rightarrow> bool) \<Rightarrow> repo \<Rightarrow> (nat \<Rightarrow> int) \<Rightarrow> nat \<Rightarrow> journal_store
     \<Rightarrow> int \<Rightarrow> node_error + node" where
  \<comment> \<open>\<open>Node.__init__\<close>\<close>
  "make_node C key validators fits rows now reads store max_inbox =
     bindr (if repo_height rows < 0
            then (case repo_append C fits rows (genesis_block C (Some (vs_validators validators)) ZERO_HASH 0) of
                    Inl e \<Rightarrow> Inl (Repository e) | Inr rows' \<Rightarrow> Inr rows')
            else Inr rows) (\<lambda>rows'.
     bindr (case bindr (repo_load_all rows') (\<lambda>bs. derive_validator_set C (concat (map validator_changes bs))) of
              Inl e \<Rightarrow> Inl (Raised e) | Inr S \<Rightarrow> Inr S) (\<lambda>active.
       case new_engine C
           \<lparr>n_private_key = key, n_genesis_validators = validators, n_fits = fits, n_repo = rows', n_now_ms = now,
            n_clock_reads = reads, n_journal_store = store, n_pending = [], n_pending_changes = [],
            n_mempool_seen = [], n_inbox = [], n_max_inbox = max_inbox, n_active = active, n_engine = None,
            n_out = [], n_metrics = initial_metrics\<rparr> of
         (Some e, _) \<Rightarrow> Inl e
       | (None, n) \<Rightarrow> Inr n))"


section \<open>Committing\<close>

definition node_set_pending :: "crypto \<Rightarrow> node \<Rightarrow> step_result option \<times> node" where
  "node_set_pending C n = call_engine (set_pending C (n_pending n) (n_pending_changes n)) n"

definition forget_committed :: "crypto \<Rightarrow> block \<Rightarrow> node \<Rightarrow> node" where
  "forget_committed C b n =
     (let keys = map (content_key C) (records b) in
      n\<lparr>n_pending := filter (\<lambda>r. content_key C r \<notin> set keys) (n_pending n),
        n_mempool_seen := n_mempool_seen n @ keys,
        n_pending_changes :=
          (if validator_changes b \<noteq> []
           then filter (\<lambda>c. c \<notin> set (validator_changes b)) (n_pending_changes n)
           else n_pending_changes n)\<rparr>)"

definition tampered_count :: "block \<Rightarrow> int" where
  "tampered_count b = int (length (filter (\<lambda>r. r_verdict r = TAMPERED) (records b)))"

definition observe_append :: "block \<Rightarrow> node \<Rightarrow> node" where
  \<comment> \<open>the end of \<open>_append_and_advance\<close>\<close>
  "observe_append b n =
     n\<lparr>n_metrics := observe_chain_state (node_height n) (vs_size (n_active n)) (quorum (n_active n)) (is_validator n)
                     (int (length (n_pending n))) (observe_commit (tampered_count b) (n_metrics n))\<rparr>"

definition observed :: "block \<Rightarrow> outcome \<Rightarrow> outcome" where
  "observed b out = (case out of (Some e, n) \<Rightarrow> (Some e, n) | (None, n) \<Rightarrow> (None, observe_append b n))"

definition append_and_advance :: "crypto \<Rightarrow> block \<Rightarrow> node \<Rightarrow> outcome" where
  "append_and_advance C b n =
     (case repo_append C (n_fits n) (n_repo n) b of
        Inl e \<Rightarrow> (Some (Repository e), n)
      | Inr rows \<Rightarrow>
          let n1 = forget_committed C b (n\<lparr>n_repo := rows\<rparr>);
              n2 = n1\<lparr>n_journal_store := prune_below (n_journal_store n1) (block_index b + 1)\<rparr>
          in if validator_changes b \<noteq> []
             then (case apply_changes C (n_active n2) (validator_changes b) of
                     Inl e \<Rightarrow> (Some (Raised e), n2)
                   | Inr S \<Rightarrow> observed b (new_engine C (n2\<lparr>n_active := S\<rparr>)))
             else observed b (new_engine C n2))"

definition commit_locked :: "crypto \<Rightarrow> block \<Rightarrow> node \<Rightarrow> outcome \<times> block option" where
  "commit_locked C b n =
     (if \<not> verify_finality C b (n_active n) then (new_engine C n, None)
      else case append_and_advance C b n of
          (Some e, n') \<Rightarrow> ((Some e, n'), None)
        | (None, n') \<Rightarrow> ((None, send [OnCommit b] n'), Some b))"

partial_function (option) apply_locked :: "crypto \<Rightarrow> step_result option \<Rightarrow> node \<Rightarrow> outcome option" where
  "apply_locked C result n =
     (case result of
        None \<Rightarrow> Some (None, n)
      | Some r \<Rightarrow>
          let n1 = send (map Broadcast (broadcast r)) n in
          case committed_block r of
            None \<Rightarrow> Some (None, n1)
          | Some b \<Rightarrow>
              (case commit_locked C b n1 of
                 ((Some e, n2), _) \<Rightarrow> Some (Some e, n2)
               | ((None, n2), appended) \<Rightarrow>
                   let n3 = (case appended of None \<Rightarrow> n2 | Some a \<Rightarrow> send [GossipBlock (block_to_dict a)] n2);
                       (result', n4) = node_set_pending C n3
                   in apply_locked C result' n4))"

declare apply_locked.simps [code]

definition repropose :: "crypto \<Rightarrow> node \<Rightarrow> outcome option" where
  \<comment> \<open>\<open>await self._apply_locked(self._set_pending())\<close>\<close>
  "repropose C n = (let (r, n') = node_set_pending C n in apply_locked C r n')"

definition apply_pushed_block_locked :: "crypto \<Rightarrow> block \<Rightarrow> node \<Rightarrow> outcome option" where
  "apply_pushed_block_locked C b n =
     (if block_index b \<noteq> repo_height (n_repo n) + 1 then Some (None, n)
      else case repo_latest (n_repo n) of
          Inl e \<Rightarrow> Some (Some (Raised e), n)
        | Inr None \<Rightarrow> Some (Some (Raised AttributeError), n)
        | Inr (Some latest) \<Rightarrow>
            if previous_hash (header b) \<noteq> block_hash C latest then Some (None, n)
            else if \<not> verify_finality C b (n_active n) then Some (None, n)
            else case append_and_advance C b n of
                (Some e, n') \<Rightarrow> Some (Some e, n')
              | (None, n') \<Rightarrow> repropose C (send [OnCommit b] n'))"


section \<open>Synchronisation\<close>

lemma new_engine_repo [simp]: "n_repo (snd (new_engine C n)) = n_repo n"
  by (simp add: new_engine_def Let_def split: sum.splits option.splits)

lemma observed_repo [simp]: "n_repo (snd (observed b out)) = n_repo (snd out)"
  by (auto simp: observed_def observe_append_def split: prod.splits option.splits)

lemma append_and_advance_height:
  "append_and_advance C b n = (None, n') \<Longrightarrow> repo_height (n_repo n') = repo_height (n_repo n) + 1"
  using repo_append_height [of C "n_fits n" "n_repo n" b] new_engine_repo
  by (auto simp: append_and_advance_def Let_def forget_committed_def split: sum.splits if_splits dest!: arg_cong [where f = snd])

function sync_locked :: "crypto \<Rightarrow> fetcher \<Rightarrow> int \<Rightarrow> node \<Rightarrow> outcome" where
  "sync_locked C fetch up_to n =
     (if \<not> repo_height (n_repo n) < up_to then (None, n)
      else let want = repo_height (n_repo n) + 1 in
        case fetch want of
          Inl e \<Rightarrow> (Some (Raised e), n)
        | Inr None \<Rightarrow> (None, n)
        | Inr (Some b) \<Rightarrow>
            if block_index b \<noteq> want then (None, n)
            else case repo_latest (n_repo n) of
                Inl e \<Rightarrow> (Some (Raised e), n)
              | Inr None \<Rightarrow> (Some (Raised AttributeError), n)
              | Inr (Some latest) \<Rightarrow>
                  if previous_hash (header b) \<noteq> block_hash C latest then (None, n)
                  else if \<not> verify_finality C b (n_active n) then (None, n)
                  else case append_and_advance C b n of
                      (Some e, n') \<Rightarrow> (Some e, n')
                    | (None, n') \<Rightarrow> sync_locked C fetch up_to n')"
  by pat_completeness auto
termination
  by (relation "measure (\<lambda>(C, fetch, up_to, n). nat (up_to - repo_height (n_repo n)))")
    (auto dest: append_and_advance_height [OF sym])

declare sync_locked.simps [simp del]

lemma sync_locked_cases:
  assumes "sync_locked C fetch up_to n = (x, n')"
  obtains (stopped) "n' = n"
  | (fetched) b latest y m where "repo_height (n_repo n) < up_to" "fetch (repo_height (n_repo n) + 1) = Inr (Some b)"
      "block_index b = repo_height (n_repo n) + 1" "repo_latest (n_repo n) = Inr (Some latest)"
      "previous_hash (header b) = block_hash C latest" "verify_finality C b (n_active n)"
      "append_and_advance C b n = (y, m)"
      "case y of None \<Rightarrow> sync_locked C fetch up_to m = (x, n') | Some e \<Rightarrow> x = Some e \<and> n' = m"
proof (cases "n' = n")
  case False
  with assms obtain b latest y m where "repo_height (n_repo n) < up_to" "fetch (repo_height (n_repo n) + 1) = Inr (Some b)"
      "block_index b = repo_height (n_repo n) + 1" "repo_latest (n_repo n) = Inr (Some latest)"
      "previous_hash (header b) = block_hash C latest" "verify_finality C b (n_active n)"
      "append_and_advance C b n = (y, m)"
      "case y of None \<Rightarrow> sync_locked C fetch up_to m = (x, n') | Some e \<Rightarrow> x = Some e \<and> n' = m"
    by (subst (asm) sync_locked.simps)
      (auto simp: Let_def split: if_splits option.splits sum.splits prod.splits)
  then show thesis by (rule fetched)
qed (rule stopped)


section \<open>The public operations\<close>

fun authentic_records :: "crypto \<Rightarrow> validator_set \<Rightarrow> integrity_record list \<Rightarrow> integrity_record list result" where
  \<comment> \<open>the loop of \<open>_ingest_records\<close>\<close>
  "authentic_records C S [] = Inr []"
| "authentic_records C S (r # rs) =
     bindr (record_verify C r S) (\<lambda>good.
     bindr (authentic_records C S rs) (\<lambda>rest. Inr (if good then r # rest else rest)))"

definition ingest_records :: "crypto \<Rightarrow> integrity_record list \<Rightarrow> bool \<Rightarrow> node \<Rightarrow> outcome option" where
  "ingest_records C rs gossip n =
     (case authentic_records C (n_active n) rs of
        Inl e \<Rightarrow> Some (Some (Raised e), n)
      | Inr accepted \<Rightarrow>
          let n0 = n\<lparr>n_metrics := observe_records_dropped (int (length rs) - int (length accepted)) (n_metrics n)\<rparr>;
              fresh = filter (\<lambda>r. content_key C r \<notin> set (n_mempool_seen n)) accepted in
          if fresh = [] then Some (None, n0)
          else
            let n1 = n0\<lparr>n_mempool_seen := n_mempool_seen n @ map (content_key C) fresh,
                       n_pending := n_pending n @ fresh\<rparr>;
                n2 = (if gossip then send [GossipRecords (map record_to_dict fresh)] n1 else n1)
            in repropose C n2)"

definition submit_records :: "crypto \<Rightarrow> integrity_record list \<Rightarrow> node \<Rightarrow> outcome option" where
  "submit_records C rs n = ingest_records C (map (\<lambda>r. signed C r (n_private_key n)) rs) True n"

definition receive_records :: "crypto \<Rightarrow> integrity_record list \<Rightarrow> node \<Rightarrow> outcome option" where
  "receive_records C rs n = ingest_records C rs False n"

definition is_effective :: "crypto \<Rightarrow> node \<Rightarrow> validator_change \<Rightarrow> bool" where
  "is_effective C n c =
     (case public_from_hex C (vc_validator c) of
        Inl _ \<Rightarrow> False
      | Inr key \<Rightarrow> (case vc_action c of ADD \<Rightarrow> \<not> contains (n_active n) key | REMOVE \<Rightarrow> contains (n_active n) key))"

definition ingest_changes :: "crypto \<Rightarrow> validator_change list \<Rightarrow> bool \<Rightarrow> node \<Rightarrow> outcome option" where
  "ingest_changes C cs gossip n =
     (let fresh = filter (\<lambda>c. is_effective C n c \<and> c \<notin> set (n_pending_changes n)) cs in
      if fresh = [] then Some (None, n)
      else
        let n1 = n\<lparr>n_pending_changes := n_pending_changes n @ fresh\<rparr>;
            n2 = (if gossip then send [GossipChanges (map change_to_dict fresh)] n1 else n1)
        in repropose C n2)"

definition submit_validator_change :: "crypto \<Rightarrow> validator_change \<Rightarrow> node \<Rightarrow> outcome option" where
  "submit_validator_change C c n = ingest_changes C [c] True n"

definition receive_validator_changes :: "crypto \<Rightarrow> validator_change list \<Rightarrow> node \<Rightarrow> outcome option" where
  "receive_validator_changes C cs n = ingest_changes C cs False n"

definition ingest_block :: "crypto \<Rightarrow> block \<Rightarrow> node \<Rightarrow> outcome option" where
  "ingest_block C b n = apply_pushed_block_locked C b n"

definition tick :: "crypto \<Rightarrow> node \<Rightarrow> outcome option" where
  "tick C n = repropose C n"

definition force_timeout :: "crypto \<Rightarrow> node \<Rightarrow> outcome option" where
  "force_timeout C n = (let (r, n') = call_engine (on_timeout C) n in apply_locked C r n')"

definition observe_inbox :: "node \<Rightarrow> node" where
  "observe_inbox n = n\<lparr>n_metrics := observe_inbound (int (length (n_inbox n))) (n_metrics n)\<rparr>"

definition enqueue_inbound :: "consensus_message \<Rightarrow> node \<Rightarrow> bool \<times> node" where
  \<comment> \<open>\<open>asyncio.Queue(maxsize)\<close> is unbounded for \<open>maxsize <= 0\<close>\<close>
  "enqueue_inbound m n =
     (if n_max_inbox n > 0 \<and> int (length (n_inbox n)) \<ge> n_max_inbox n then (False, observe_inbox n)
      else (True, observe_inbox (n\<lparr>n_inbox := n_inbox n @ [m]\<rparr>)))"

definition catch_up :: "crypto \<Rightarrow> fetcher \<Rightarrow> consensus_message \<Rightarrow> node \<Rightarrow> outcome" where
  \<comment> \<open>\<open>on_message\<close>: a message from beyond the working height triggers a sync\<close>
  "catch_up C fetch m n =
     (let working_height = repo_height (n_repo n) + 1 in
      if m_height m > working_height then sync_locked C fetch (m_height m - 1) n else (None, n))"

definition on_message :: "crypto \<Rightarrow> fetcher \<Rightarrow> consensus_message \<Rightarrow> node \<Rightarrow> outcome option" where
  "on_message C fetch m n =
     (case catch_up C fetch m n of
        (Some e, n1) \<Rightarrow> Some (Some e, n1)
      | (None, n1) \<Rightarrow>
          (case n_engine n1 of
             None \<Rightarrow> Some (None, n1)
           | Some e \<Rightarrow>
               if m_height m \<noteq> e_height e then Some (None, n1)
               else let (r, n2) = call_engine (handle C m) n1 in apply_locked C r n2))"

definition worker_step :: "crypto \<Rightarrow> fetcher \<Rightarrow> node \<Rightarrow> node option" where
  \<comment> \<open>one iteration of \<open>inbound_worker\<close>; an exception is logged and dropped\<close>
  "worker_step C fetch n =
     (case n_inbox n of
        [] \<Rightarrow> Some n
      | m # ms \<Rightarrow> map_option snd (on_message C fetch m (n\<lparr>n_inbox := ms\<rparr>)))"

definition round_timer :: "crypto \<Rightarrow> int \<Rightarrow> node \<Rightarrow> outcome option" where
  \<comment> \<open>one iteration of \<open>round_timer_loop\<close> after the sleep\<close>
  "round_timer C start_height n =
     (case n_engine n of
        None \<Rightarrow> Some (None, n)
      | Some e \<Rightarrow>
          let stalled = (node_height n = start_height);
              waiting = (n_pending n \<noteq> [] \<or> n_pending_changes n \<noteq> [] \<or> e_round e > 0 \<or> e_proposal e \<noteq> None)
          in if stalled \<and> waiting \<and> \<not> committed e
             then (let (r, n') = call_engine (on_timeout C) (n\<lparr>n_metrics := observe_timeout (n_metrics n)\<rparr>) in
                   case apply_locked C r n' of
                     None \<Rightarrow> None
                   | Some (Some e, n1) \<Rightarrow> Some (Some e, n1)
                   | Some (None, n1) \<Rightarrow> Some (None, n1\<lparr>n_metrics := observe_round (node_round n1) (n_metrics n1)\<rparr>))
             else Some (None, n))"


section \<open>Runs\<close>

text \<open>What can happen to a node; \<open>fetch\<close> is what the peers answer while it happens.\<close>

datatype node_input =
    SubmitRecords "integrity_record list"
  | ReceiveRecords "integrity_record list"
  | SubmitChange validator_change
  | ReceiveChanges "validator_change list"
  | PushedBlock block
  | Tick
  | ForceTimeout
  | Message fetcher consensus_message
  | TimerFires int
  | Enqueue consensus_message
  | WorkerTakes fetcher

fun node_step :: "crypto \<Rightarrow> node \<Rightarrow> node_input \<Rightarrow> outcome option" where
  "node_step C n (SubmitRecords rs) = submit_records C rs n"
| "node_step C n (ReceiveRecords rs) = receive_records C rs n"
| "node_step C n (SubmitChange c) = submit_validator_change C c n"
| "node_step C n (ReceiveChanges cs) = receive_validator_changes C cs n"
| "node_step C n (PushedBlock b) = ingest_block C b n"
| "node_step C n Tick = tick C n"
| "node_step C n ForceTimeout = force_timeout C n"
| "node_step C n (Message fetch m) = on_message C fetch m n"
| "node_step C n (TimerFires start) = round_timer C start n"
| "node_step C n (Enqueue m) = Some (None, snd (enqueue_inbound m n))"
| "node_step C n (WorkerTakes fetch) =
     (case n_inbox n of [] \<Rightarrow> Some (None, n) | m # ms \<Rightarrow> on_message C fetch m (n\<lparr>n_inbox := ms\<rparr>))"

lemma worker_step_eq: "worker_step C fetch n = map_option snd (node_step C n (WorkerTakes fetch))"
  by (simp add: worker_step_def split: list.splits)

fun run_node :: "crypto \<Rightarrow> node \<Rightarrow> node_input list \<Rightarrow> outcome option" where
  \<comment> \<open>the run up to the first exception\<close>
  "run_node C n [] = Some (None, n)"
| "run_node C n (i # is) =
     (case node_step C n i of
        None \<Rightarrow> None
      | Some (Some e, n') \<Rightarrow> Some (Some e, n')
      | Some (None, n') \<Rightarrow> run_node C n' is)"

end
