(* ===== verification/Node_Termination.thy ===== *)
theory Node_Termination
  imports Node
begin

text \<open>
  Every operation of the node returns. The loop of \<open>apply_locked\<close> has no bound of its own:
  it goes on as long as the engine it has just started finalizes a block at once. A fresh
  engine does so only if it is the only validator; its block then takes everything pending
  and is accepted, so the next engine has nothing to propose.
\<close>

section \<open>A fresh engine\<close>

definition fresh_engine :: "engine \<Rightarrow> bool" where
  "fresh_engine e \<longleftrightarrow> e_round e = 0 \<and> e_phase e = NEW_ROUND \<and> e_prepares e = [] \<and> e_commits e = []"

definition sole_seal :: "crypto \<Rightarrow> private_key \<Rightarrow> block \<Rightarrow> block" where
  \<comment> \<open>a block sealed by one key\<close>
  "sole_seal C k b = add_commit_signature b (private_public C k) (private_sign C k (block_hash C b))"

lemma set_pending_idle [simp]: "committed_block (snd (set_pending C [] [] e)) = None"
  by (simp add: set_pending_def maybe_propose_round0_def empty_result_def)

lemma try_prepare_own:
  assumes "e_commits e = []"
  shows "try_prepare C b (e, r) = (e, r) \<or>
    (quorum (e_validators e) \<le> int (length (dict_get_list (e_prepares e) (block_hash C b))) \<and>
     (\<exists>e' m. try_prepare C b (e, r) = emit m (e', r) \<and> e_proposal e' = e_proposal e \<and> static e' = static e \<and>
       e_commits e' = [(block_hash C b, [(public_to_hex (private_public C (e_private_key e)),
          hex_of_bytes (private_sign C (e_private_key e) (block_hash C b)))])]))"
  by (auto simp: try_prepare_def Let_def assms dict_set2_def static_def e_me_def message_create_def)

lemma finalize_own:
  assumes "ed25519_correct C" "private_ok k"
  shows "finalize C b [(public_to_hex (private_public C k), hex_of_bytes (private_sign C k (block_hash C b)))]
    = sole_seal C k b"
  using assms by (simp add: private_public_from_hex sole_seal_def)

lemma maybe_advance_own:
  assumes c: "ed25519_correct C" "private_ok (e_private_key e)" and p: "e_proposal e = Some b"
    and e: "e_phase e = PRE_PREPARED" "e_commits e = []" "committed_block r = None"
    and f: "committed_block (snd (maybe_advance C (e, r))) = Some b'"
  shows "b' = sole_seal C (e_private_key e) b \<and>
    quorum (e_validators e) \<le> int (length (dict_get_list (e_prepares e) (block_hash C b))) \<and> quorum (e_validators e) \<le> 1"
proof -
  have adv: "maybe_advance C (e, r) = try_commit C b (try_prepare C b (e, r))"
    by (simp add: maybe_advance_def p)
  have "try_prepare C b (e, r) \<noteq> (e, r)" using f e by (auto simp: adv try_commit_def Let_def)
  then obtain e' m where t: "try_prepare C b (e, r) = emit m (e', r)" "static e' = static e"
    "e_commits e' = [(block_hash C b, [(public_to_hex (private_public C (e_private_key e)),
       hex_of_bytes (private_sign C (e_private_key e) (block_hash C b)))])]"
    "quorum (e_validators e) \<le> int (length (dict_get_list (e_prepares e) (block_hash C b)))"
    using try_prepare_own [OF e(2), of C b r] by auto
  have "b' = sole_seal C (e_private_key e) b \<and> quorum (e_validators e) \<le> 1"
    using f finalize_own [OF c, of b] staticD [OF t(2)] e(3)
    by (auto simp: adv t(1,3) try_commit_def emit_def Let_def dict_get_list_def split: if_splits)
  then show ?thesis using t(4) by simp
qed

lemma fresh_commit:
  assumes c: "ed25519_correct C" "private_ok (e_private_key e)" and e: "fresh_engine e"
    and f: "committed_block (snd (set_pending C rs cs e)) = Some b"
  shows "quorum (e_validators e) \<le> 1 \<and>
    (\<exists>b0. b = sole_seal C (e_private_key e) b0 \<and> records b0 = rs \<and> validator_changes b0 = cs \<and> commit_signatures b0 = [])"
proof -
  let ?e = "e\<lparr>e_pending := rs, e_pending_changes := cs\<rparr>"
  let ?b = "snd (build_block C ?e)" and ?e' = "fst (build_block C ?e)"
  have f': "committed_block (snd (emit_pre_prepare C ?b [] (?e', empty_result))) = Some b"
    using f by (auto simp: set_pending_def maybe_propose_round0_def Let_def case_prod_beta empty_result_def split: if_splits)
  let ?st = "cast_prepare C ?b (emit (message_create C PRE_PREPARE (e_height ?e') (e_round ?e') (block_hash C ?b)
      (e_private_key ?e') (Some ?b) None [] []) (?e', empty_result))"
  have adv: "committed_block (snd (maybe_advance C (fst ?st, snd ?st))) = Some b"
    using f' by (simp add: emit_pre_prepare_def accept_proposal_def Let_def)
      (auto simp: emit_def empty_result_def split: if_splits)
  have st: "e_proposal (fst ?st) = Some ?b" "e_phase (fst ?st) = PRE_PREPARED" "e_commits (fst ?st) = []"
    "committed_block (snd ?st) = None" "static (fst ?st) = static e"
    using e by (simp_all add: cast_prepare_def emit_def Let_def record_prepare_def build_block_def fresh_engine_def
        empty_result_def static_def)
  have "b = sole_seal C (e_private_key e) ?b \<and> quorum (e_validators e) \<le> 1"
    using maybe_advance_own [OF c(1) _ st(1-4) adv] c(2) staticD [OF st(5)] by simp
  moreover have "records ?b = rs" "validator_changes ?b = cs" "commit_signatures ?b = []"
    by (simp_all add: build_block_def block_create_def)
  ultimately show ?thesis by blast
qed

lemma sole_seal_final:
  assumes "ed25519_correct C" "private_ok k" "contains S (private_public C k)" "quorum S \<le> 1" "commit_signatures b = []"
  shows "verify_finality C (sole_seal C k b) S"
proof -
  have "commit_signatures (sole_seal C k b)
      = [(public_to_hex (private_public C k), hex_of_bytes (private_sign C k (block_hash C b)))]"
    using assms(5) by (simp add: sole_seal_def add_commit_signature_def)
  moreover have "block_hash C (sole_seal C k b) = block_hash C b" by (simp add: sole_seal_def)
  ultimately show ?thesis
    using assms(1-4) by (simp add: verify_finality_def valid_seal_def private_public_from_hex public_verify_sign)
qed


section \<open>The loop\<close>

definition runs_fresh :: "crypto \<Rightarrow> node \<Rightarrow> bool" where
  "runs_fresh C n \<longleftrightarrow> (case n_engine n of None \<Rightarrow> True
     | Some e \<Rightarrow> fresh_engine e \<and> e_validators e = n_active n \<and> e_private_key e = n_private_key n \<and>
         contains (n_active n) (n_me C n))"

lemma new_engine_fresh: "new_engine C n = (None, n') \<Longrightarrow> runs_fresh C n'"
  by (auto simp: new_engine_def runs_fresh_def fresh_engine_def make_engine_def start_round_def Let_def n_me_def
      bindr_Inr_iff split: sum.splits option.splits if_splits)

lemma new_engine_frame:
  "n_private_key (snd (new_engine C n)) = n_private_key n"
  "n_pending (snd (new_engine C n)) = n_pending n"
  "n_pending_changes (snd (new_engine C n)) = n_pending_changes n"
  "n_mempool_seen (snd (new_engine C n)) = n_mempool_seen n"
  "n_active (snd (new_engine C n)) = n_active n"
  "n_journal_store (snd (new_engine C n)) = n_journal_store n"
  "n_fits (snd (new_engine C n)) = n_fits n"
  "n_out (snd (new_engine C n)) = n_out n"
  "n_inbox (snd (new_engine C n)) = n_inbox n"
  by (simp_all add: new_engine_def Let_def split: sum.splits option.splits)

lemma observed_cases:
  assumes "observed b out = (x, n')"
  obtains m \<mu> where "out = (x, m)" "n' = m\<lparr>n_metrics := \<mu>\<rparr>"
proof (cases out)
  case (Pair y m)
  show thesis
  proof (cases y)
    case None
    then show thesis
      using assms that [of m "n_metrics n'"] by (auto simp: observed_def observe_append_def Pair)
  next
    case (Some e)
    then have "out = (x, m)" "n' = m" using assms by (simp_all add: observed_def Pair)
    then show thesis using that [of m "n_metrics m"] by simp
  qed
qed

lemma metrics_irrelevant [simp]:
  "n_me C (n\<lparr>n_metrics := \<mu>\<rparr>) = n_me C n" "runs_fresh C (n\<lparr>n_metrics := \<mu>\<rparr>) = runs_fresh C n"
  by (simp add: n_me_def) (cases "n_engine n"; simp add: runs_fresh_def n_me_def)

lemma append_and_advance_cases:
  assumes "append_and_advance C b n = (x, n')"
  obtains (rejected) e where "x = Some (Repository e)" "n' = n" "repo_append C (n_fits n) (n_repo n) b = Inl e"
  | (stored) rows n2 where "repo_append C (n_fits n) (n_repo n) b = Inr rows"
      "n2 = (forget_committed C b (n\<lparr>n_repo := rows\<rparr>))
         \<lparr>n_journal_store := prune_below (n_journal_store n) (block_index b + 1)\<rparr>"
      "(\<exists>e. validator_changes b \<noteq> [] \<and> apply_changes C (n_active n) (validator_changes b) = Inl e \<and>
          x = Some (Raised e) \<and> n' = n2) \<or>
       (\<exists>m \<mu>. n' = m\<lparr>n_metrics := \<mu>\<rparr> \<and>
         (validator_changes b = [] \<and> new_engine C n2 = (x, m) \<or>
          (\<exists>S. validator_changes b \<noteq> [] \<and> apply_changes C (n_active n) (validator_changes b) = Inr S \<and>
             new_engine C (n2\<lparr>n_active := S\<rparr>) = (x, m))))"
proof (cases "repo_append C (n_fits n) (n_repo n) b")
  case (Inl e)
  then show thesis using assms by (intro rejected) (simp_all add: append_and_advance_def)
next
  case (Inr rows)
  note stored = stored [OF Inr refl]
  let ?n2 = "(forget_committed C b (n\<lparr>n_repo := rows\<rparr>))\<lparr>n_journal_store := prune_below (n_journal_store n) (block_index b + 1)\<rparr>"
  note app = assms [unfolded append_and_advance_def Inr sum.case Let_def]
  have "n_active (forget_committed C b m) = n_active m" "n_journal_store (forget_committed C b m) = n_journal_store m" for m
    by (simp_all add: forget_committed_def Let_def)
  then have n2: "n_active ?n2 = n_active n" "n_journal_store (forget_committed C b (n\<lparr>n_repo := rows\<rparr>)) = n_journal_store n"
    by simp_all
  show thesis
  proof (cases "validator_changes b = []")
    case True
    then have "observed b (new_engine C ?n2) = (x, n')"
      using app n2(2) by simp
    then obtain m \<mu> where "new_engine C ?n2 = (x, m)" "n' = m\<lparr>n_metrics := \<mu>\<rparr>"
      by (rule observed_cases)
    then show thesis using True by (intro stored) blast
  next
    case changed: False
    show thesis
    proof (cases "apply_changes C (n_active n) (validator_changes b)")
      case (Inl e)
      then have "x = Some (Raised e)" "n' = ?n2"
        using app changed n2 by simp_all
      then show thesis using changed Inl by (intro stored) blast
    next
      case (Inr S)
      then have "observed b (new_engine C (?n2\<lparr>n_active := S\<rparr>)) = (x, n')"
        using app changed n2 by simp
      then obtain m \<mu> where "new_engine C (?n2\<lparr>n_active := S\<rparr>) = (x, m)" "n' = m\<lparr>n_metrics := \<mu>\<rparr>"
        by (rule observed_cases)
      then show thesis using changed Inr by (intro stored) blast
    qed
  qed
qed

lemma append_and_advance_None:
  assumes "append_and_advance C b n = (None, n')"
  shows "runs_fresh C n'" "n_private_key n' = n_private_key n"
    "n_pending n' = filter (\<lambda>r. content_key C r \<notin> content_key C ` set (records b)) (n_pending n)"
    "n_pending_changes n' = filter (\<lambda>c. c \<notin> set (validator_changes b)) (n_pending_changes n)"
proof -
  from assms have "\<exists>m m' \<mu>. new_engine C m = (None, m') \<and> n' = m'\<lparr>n_metrics := \<mu>\<rparr> \<and> n_private_key m = n_private_key n \<and>
      n_pending m = filter (\<lambda>r. content_key C r \<notin> content_key C ` set (records b)) (n_pending n) \<and>
      n_pending_changes m = filter (\<lambda>c. c \<notin> set (validator_changes b)) (n_pending_changes n)"
  proof (cases rule: append_and_advance_cases)
    case (stored rows n2)
    then obtain m \<mu> S where S: "n' = m\<lparr>n_metrics := \<mu>\<rparr>" "new_engine C n2 = (None, m) \<or> new_engine C (n2\<lparr>n_active := S\<rparr>) = (None, m)"
      by blast
    moreover have "n_private_key n2 = n_private_key n"
      "n_pending n2 = filter (\<lambda>r. content_key C r \<notin> content_key C ` set (records b)) (n_pending n)"
      "n_pending_changes n2 = filter (\<lambda>c. c \<notin> set (validator_changes b)) (n_pending_changes n)"
      by (simp_all add: stored(2) forget_committed_def Let_def)
    ultimately show ?thesis by (elim disjE) (rule exI, rule exI, rule exI, rule conjI, assumption, simp)+
  qed simp
  then obtain m m' \<mu> where m: "new_engine C m = (None, m')" "n' = m'\<lparr>n_metrics := \<mu>\<rparr>" "n_private_key m = n_private_key n"
      "n_pending m = filter (\<lambda>r. content_key C r \<notin> content_key C ` set (records b)) (n_pending n)"
      "n_pending_changes m = filter (\<lambda>c. c \<notin> set (validator_changes b)) (n_pending_changes n)" by blast
  show "runs_fresh C n'" "n_private_key n' = n_private_key n"
    "n_pending n' = filter (\<lambda>r. content_key C r \<notin> content_key C ` set (records b)) (n_pending n)"
    "n_pending_changes n' = filter (\<lambda>c. c \<notin> set (validator_changes b)) (n_pending_changes n)"
    using new_engine_fresh [OF m(1)] new_engine_frame [of C m] m by simp_all
qed

lemma send_simps [simp]:
  "n_engine (send fx n) = n_engine n" "n_active (send fx n) = n_active n" "n_repo (send fx n) = n_repo n"
  "n_private_key (send fx n) = n_private_key n" "n_pending (send fx n) = n_pending n"
  "n_pending_changes (send fx n) = n_pending_changes n" "n_mempool_seen (send fx n) = n_mempool_seen n"
  "n_journal_store (send fx n) = n_journal_store n" "n_fits (send fx n) = n_fits n" "n_me C (send fx n) = n_me C n"
  "n_clock_reads (send fx n) = n_clock_reads n" "n_inbox (send fx n) = n_inbox n" "n_max_inbox (send fx n) = n_max_inbox n"
  by (simp_all add: send_def n_me_def)

lemma send_Nil [simp]: "send [] n = n"
  by (simp add: send_def)

lemma runs_fresh_send [simp]: "runs_fresh C (send fx n) = runs_fresh C n"
  by (cases "n_engine n") (simp_all add: runs_fresh_def)

lemma call_engine_Some:
  "call_engine f n = (Some r, n') \<Longrightarrow> \<exists>e e'. n_engine n = Some e \<and>
     f (e\<lparr>e_journal := attach_table (n_journal_store n) (e_journal e)\<rparr>) = (e', r) \<and>
     n' = n\<lparr>n_engine := Some e', n_clock_reads := e_clock_reads e',
            n_journal_store := written_store (e_journal e') (n_journal_store n)\<rparr>"
  by (auto simp: call_engine_def Let_def split: option.splits prod.splits)

lemma call_engine_frame:
  assumes "call_engine f n = (r, n')"
  shows "n_repo n' = n_repo n" "n_private_key n' = n_private_key n" "n_pending n' = n_pending n"
    "n_pending_changes n' = n_pending_changes n" "n_active n' = n_active n" "n_mempool_seen n' = n_mempool_seen n"
    "n_fits n' = n_fits n" "n_out n' = n_out n" "n_inbox n' = n_inbox n"
  using assms by (auto simp: call_engine_def Let_def split: option.splits prod.splits)

lemma idle_returns:
  assumes "n_pending n = []" "n_pending_changes n = []"
  shows "\<exists>out. repropose C n = Some out"
proof -
  obtain r n' where s: "node_set_pending C n = (r, n')" by fastforce
  have "committed_block x = None" if "r = Some x" for x
    using call_engine_Some [OF s [unfolded node_set_pending_def that]] assms set_pending_idle [of C]
    by (metis snd_conv)
  then show ?thesis
    by (cases r) (simp_all add: repropose_def s apply_locked.simps [of C] Let_def)
qed

lemma fresh_returns:
  assumes c: "ed25519_correct C" "private_ok (n_private_key n)" and n: "runs_fresh C n"
  shows "\<exists>out. repropose C n = Some out"
proof -
  obtain r n' where s: "node_set_pending C n = (r, n')" by fastforce
  note fr = call_engine_frame [OF s [unfolded node_set_pending_def]]
  show ?thesis
  proof (cases "\<exists>x b. r = Some x \<and> committed_block x = Some b")
    case True
    then obtain x b where x: "r = Some x" "committed_block x = Some b" by blast
    obtain e e' where e: "n_engine n = Some e"
      "set_pending C (n_pending n) (n_pending_changes n) (e\<lparr>e_journal := attach_table (n_journal_store n) (e_journal e)\<rparr>) = (e', x)"
      using call_engine_Some [OF s [unfolded node_set_pending_def x(1)]] by blast
    have fe: "fresh_engine e" "e_validators e = n_active n" "e_private_key e = n_private_key n"
      "contains (n_active n) (n_me C n)" using n e by (auto simp: runs_fresh_def)
    obtain b0 where b: "quorum (n_active n) \<le> 1" "b = sole_seal C (n_private_key n) b0"
      "records b0 = n_pending n" "validator_changes b0 = n_pending_changes n" "commit_signatures b0 = []"
      using fresh_commit [OF c(1), of "e\<lparr>e_journal := attach_table (n_journal_store n) (e_journal e)\<rparr>"
          "n_pending n" "n_pending_changes n" b] e(2) x(2) c(2) fe
      by (auto simp: fresh_engine_def)
    let ?n = "send (map Broadcast (broadcast x)) n'"
    have v: "verify_finality C b (n_active ?n)"
      using sole_seal_final [OF c _ b(1,5)] fe(4) fr b(2) by (simp add: n_me_def)
    obtain y m where a: "append_and_advance C b ?n = (y, m)" by fastforce
    have ok: "repropose C n = (case y of Some e \<Rightarrow> Some (Some e, m) | None \<Rightarrow>
        repropose C (send [GossipBlock (block_to_dict b)] (send [OnCommit b] m)))"
      by (simp add: repropose_def [of C n] s x apply_locked.simps [of C "Some x"] Let_def commit_locked_def v [simplified] a
          split: option.splits) (simp add: repropose_def)
    show ?thesis
    proof (cases y)
      case None
      have "records b = n_pending n" "validator_changes b = n_pending_changes n"
        using b by (simp_all add: sole_seal_def)
      then have "n_pending m = []" "n_pending_changes m = []"
        using append_and_advance_None(3,4) [OF a [unfolded None]] fr by (auto simp: filter_empty_conv)
      then show ?thesis using idle_returns [of "send [GossipBlock (block_to_dict b)] (send [OnCommit b] m)" C] ok None by simp
    qed (use ok in simp)
  next
    case False
    then show ?thesis
      by (cases r) (auto simp: repropose_def s apply_locked.simps [of C] Let_def split: option.splits)
  qed
qed

lemma apply_locked_returns:
  assumes c: "ed25519_correct C" "private_ok (n_private_key n)"
  shows "\<exists>out. apply_locked C r n = Some out"
proof (cases "\<exists>x b. r = Some x \<and> committed_block x = Some b")
  case True
  then obtain x b where x: "r = Some x" "committed_block x = Some b" by blast
  let ?n = "send (map Broadcast (broadcast x)) n"
  obtain y m z where m: "commit_locked C b ?n = ((y, m), z)" by (metis prod.collapse)
  have eq: "apply_locked C r n = (case y of Some e \<Rightarrow> Some (Some e, m) | None \<Rightarrow>
      repropose C (case z of None \<Rightarrow> m | Some a \<Rightarrow> send [GossipBlock (block_to_dict a)] m))"
    using m x by (simp add: apply_locked.simps [of C "Some x"] Let_def repropose_def split: option.splits)
  show ?thesis
  proof (cases y)
    case None
    have "runs_fresh C m \<and> n_private_key m = n_private_key n"
    proof (cases "verify_finality C b (n_active ?n)")
      case True
      then obtain m' where "append_and_advance C b ?n = (None, m')" "m = send [OnCommit b] m'"
        using m None by (auto simp: commit_locked_def split: prod.splits option.splits)
      then show ?thesis using append_and_advance_None(1,2) [of C b ?n m'] by simp
    next
      case False
      then have "new_engine C ?n = (None, m)" using m None by (simp add: commit_locked_def)
      then show ?thesis using new_engine_fresh [of C ?n m] new_engine_frame(1) [of C ?n] by simp
    qed
    then show ?thesis
      using fresh_returns [OF c(1), of "case z of None \<Rightarrow> m | Some a \<Rightarrow> send [GossipBlock (block_to_dict a)] m"] c(2) eq None
      by (simp split: option.splits)
  qed (use eq in simp)
next
  case False
  then show ?thesis
    by (cases r) (auto simp: apply_locked.simps [of C] Let_def split: option.splits)
qed

end
