(* ===== verification/Node_Invariant.thy ===== *)
theory Node_Invariant
  imports Node_Termination
begin

text \<open>
  The invariant of the node: its repository holds a chain in which every block names the hash
  of the one before and carries the seals of the validator set that the blocks before it
  define, the active set is that of the whole chain, and the engine, if the node is a
  validator, works on the next height on top of the last block.
\<close>

section \<open>Finalized chains\<close>

fun follow :: "crypto \<Rightarrow> validator_set \<Rightarrow> block list \<Rightarrow> validator_set option" where
  \<comment> \<open>the set in force after the blocks, if each is final under the set in force before it\<close>
  "follow C S [] = Some S"
| "follow C S (b # bs) =
     (if \<not> verify_finality C b S then None
      else if validator_changes b = [] then follow C S bs
      else case apply_changes C S (validator_changes b) of Inl _ \<Rightarrow> None | Inr S' \<Rightarrow> follow C S' bs)"

definition final_chain :: "crypto \<Rightarrow> block list \<Rightarrow> validator_set \<Rightarrow> bool" where
  "final_chain C bs S \<longleftrightarrow> bs \<noteq> [] \<and> successively (\<lambda>a b. previous_hash (header b) = block_hash C a) bs \<and>
     (\<exists>S0. derive_validator_set C (validator_changes (hd bs)) = Inr S0 \<and> follow C S0 (tl bs) = Some S)"

lemma follow_append: "follow C S (bs @ cs) = Option.bind (follow C S bs) (\<lambda>S'. follow C S' cs)"
  by (induction bs arbitrary: S) (auto split: sum.splits)

lemma final_chain_snoc:
  assumes "final_chain C bs S" "previous_hash (header b) = block_hash C (last bs)" "follow C S [b] = Some S'"
  shows "final_chain C (bs @ [b]) S'"
proof -
  have ne: "bs \<noteq> []" using assms(1) by (simp add: final_chain_def)
  then have "tl (bs @ [b]) = tl bs @ [b]" "hd (bs @ [b]) = hd bs" by auto
  then show ?thesis
    using assms ne unfolding final_chain_def
    by (auto simp: successively_append_iff follow_append simp del: follow.simps)
qed

lemma apply_changes_vs_ok: "apply_changes C S cs = Inr S' \<Longrightarrow> vs_ok S'"
  using make_validator_set_ok by (auto simp: apply_changes_def bindr_Inr_iff split: if_splits)

lemma derive_vs_ok: "derive_validator_set C cs = Inr S' \<Longrightarrow> vs_ok S'"
  using make_validator_set_ok by (auto simp: derive_validator_set_def bindr_Inr_iff split: if_splits)


section \<open>The invariant\<close>

fun store_upto :: "int \<Rightarrow> journal_store \<Rightarrow> bool" where
  "store_upto h NullJournalStore = True"
| "store_upto h (SqlConsensusJournalStore table) = (\<forall>row \<in> set table. w_height row \<le> h)"

fun attached :: "journal_store \<Rightarrow> vote_journal \<Rightarrow> bool" where
  "attached NullJournalStore j = (j = NullVoteJournal)"
| "attached (SqlConsensusJournalStore table) j = (\<exists>v. j = SqlHeightView v \<and> sv_table v = table)"

definition engine_at :: "crypto \<Rightarrow> node \<Rightarrow> int \<Rightarrow> string \<Rightarrow> bool" where
  "engine_at C n h p \<longleftrightarrow> (case n_engine n of
     None \<Rightarrow> \<not> contains (n_active n) (n_me C n) \<and> store_upto h (n_journal_store n)
   | Some e \<Rightarrow> runs_at C h p e \<and> e_validators e = n_active n \<and> e_private_key e = n_private_key n \<and>
       attached (n_journal_store n) (e_journal e))"

definition inv_at :: "crypto \<Rightarrow> node \<Rightarrow> block list \<Rightarrow> bool" where
  "inv_at C n bs \<longleftrightarrow> ed25519_correct C \<and> private_ok (n_private_key n) \<and> vs_ok (n_active n) \<and>
     repo_stores C (n_repo n) bs \<and> final_chain C bs (n_active n) \<and>
     engine_at C n (int (length bs)) (block_hash C (last bs))"

lemma attached_id: "attached s j \<Longrightarrow> attach_table s j = j"
  by (cases s; cases j) auto

lemma attached_written: "attached s j \<Longrightarrow> same_kind j j' \<Longrightarrow> attached (written_store j' s) j'"
  by (cases s; cases j; cases j') auto

lemma attached_upto: "attached s j \<Longrightarrow> journal_upto h j \<Longrightarrow> store_upto h s"
  by (cases s) auto

lemma call_engine_inv:
  assumes "engine_at C n h p" "call_engine f n = (r, n')"
    and "\<And>e. runs_at C h p e \<Longrightarrow> tip_result C h p e (f e)"
  shows "engine_at C n' h p \<and> (\<forall>x. r = Some x \<longrightarrow> pred_option (tip_block h p) (committed_block x))"
proof (cases "n_engine n")
  case None
  then have "n' = n \<and> r = None" using assms(2) by (simp add: call_engine_def)
  then show ?thesis using assms(1) by simp
next
  case (Some e)
  then have e: "runs_at C h p e" "e_validators e = n_active n" "e_private_key e = n_private_key n"
    "attached (n_journal_store n) (e_journal e)" using assms(1) by (auto simp: engine_at_def)
  obtain e' x where f: "f e = (e', x)" by fastforce
  have t: "tip_result C h p e (e', x)" using assms(3) [OF e(1)] f by simp
  have n': "r = Some x" "n' = n\<lparr>n_engine := Some e', n_clock_reads := e_clock_reads e',
      n_journal_store := written_store (e_journal e') (n_journal_store n)\<rparr>"
    using assms(2) f by (simp_all add: call_engine_def Some attached_id [OF e(4)])
  have s: "static e' = static e" and k: "same_kind (e_journal e) (e_journal e')" and ra: "runs_at C h p e'"
    using t by (simp_all add: tip_result_def)
  show ?thesis
    using ra staticD [OF s] e attached_written [OF e(4) k] t n' by (simp add: engine_at_def tip_result_def)
qed

lemma open_empty:
  assumes "store_upto (h - 1) s"
  shows "\<exists>j. store_view s h = Inr j \<and> journal_wf j \<and> attached s j \<and> journal_upto h j \<and> prepared_lock j = None"
proof (cases s)
  case (SqlConsensusJournalStore table)
  have "filter (\<lambda>row. w_height row = h) table = []" using assms SqlConsensusJournalStore by (force simp: filter_empty_conv)
  then have v: "open_view table h = Inr \<lparr>sv_table = table, sv_height = h, sv_votes = [], sv_prepared = None\<rparr>"
    by (simp add: open_view_def)
  then show ?thesis
    using view_ok_open [OF v] assms SqlConsensusJournalStore by (fastforce simp: journal_wf_def)
qed (simp add: journal_wf_def)

lemma new_engine_at:
  assumes inv: "ed25519_correct C" "private_ok (n_private_key n)" "vs_ok (n_active n)"
    and bs: "repo_stores C (n_repo n) bs" "bs \<noteq> []"
    and h: "h = int (length bs)" "p = block_hash C (last bs)"
    and j: "contains (n_active n) (n_me C n) \<Longrightarrow>
      \<exists>j. store_view (n_journal_store n) h = Inr j \<and> journal_wf j \<and> attached (n_journal_store n) j \<and> journal_upto h j \<and>
        pred_option (\<lambda>(_, b, _). tip_block h p b) (prepared_lock j) \<and>
        (\<forall>e r b c. make_engine C (n_active n) (n_private_key n) h p (n_now_ms n) (n_clock_reads n) j = Inr e \<longrightarrow>
           prepared_lock j = Some (r, b, c) \<longrightarrow> cert_ok C (carries h p) e r (block_hash C b) c)"
    and s: "\<not> contains (n_active n) (n_me C n) \<Longrightarrow> store_upto h (n_journal_store n)"
    and n': "new_engine C n = (x, n')"
  shows "x = None \<and> engine_at C n' h p \<and> n_repo n' = n_repo n \<and> n_active n' = n_active n \<and> n_private_key n' = n_private_key n"
proof -
  have l: "repo_latest (n_repo n) = Inr (Some (last bs))" using sql.latest_eq [OF bs(1)] bs(2) by simp
  have i: "block_index (last bs) + 1 = h" using repo_stores_last [OF bs] h by simp
  show ?thesis
  proof (cases "contains (n_active n) (n_me C n)")
    case False
    then show ?thesis using n' s by (auto simp: new_engine_def l engine_at_def n_me_def)
  next
    case True
    then obtain j where j: "store_view (n_journal_store n) h = Inr j" "journal_wf j" "attached (n_journal_store n) j"
      "journal_upto h j" "pred_option (\<lambda>(_, b, _). tip_block h p b) (prepared_lock j)"
      "\<And>e r b c. make_engine C (n_active n) (n_private_key n) h p (n_now_ms n) (n_clock_reads n) j = Inr e \<Longrightarrow>
           prepared_lock j = Some (r, b, c) \<Longrightarrow> cert_ok C (carries h p) e r (block_hash C b) c"
      using j by blast
    obtain e where e: "make_engine C (n_active n) (n_private_key n) h p (n_now_ms n) (n_clock_reads n) j = Inr e"
      using True by (simp add: make_engine_def n_me_def Let_def)
    have n'': "x = None" "n' = n\<lparr>n_engine := Some e\<rparr>"
      using n' True e by (simp_all add: new_engine_def l Let_def i j(1) h(2) [symmetric])
    have "engine_ok C (carries h p) e" using make_engine_ok [OF e inv j(2)] j(6) [OF e] by blast
    moreover have "on_tip h p e" using make_engine_on_tip [OF e j(5)] .
    ultimately show ?thesis
      using make_engine_Inr(1,3) [OF e] j(3,4) n'' by (simp add: engine_at_def runs_at_def static_def)
  qed
qed

lemma new_engine_next:
  assumes "ed25519_correct C" "private_ok (n_private_key n)" "vs_ok (n_active n)"
    and "repo_stores C (n_repo n) bs" "bs \<noteq> []" "store_upto (int (length bs) - 1) (n_journal_store n)"
    and "new_engine C n = (x, n')"
  shows "x = None \<and> engine_at C n' (int (length bs)) (block_hash C (last bs)) \<and>
    n_repo n' = n_repo n \<and> n_active n' = n_active n \<and> n_private_key n' = n_private_key n"
proof (rule new_engine_at [OF assms(1-5) refl refl _ _ assms(7)])
  show "store_upto (int (length bs)) (n_journal_store n)" using assms(6) by (cases "n_journal_store n") auto
qed (use open_empty [OF assms(6)] in auto)

lemma new_engine_same:
  assumes inv: "inv_at C n bs" and n': "new_engine C n = (x, n')"
  shows "x = None \<and> inv_at C n' bs"
proof -
  let ?h = "int (length bs)" and ?p = "block_hash C (last bs)"
  have b: "repo_stores C (n_repo n) bs" "bs \<noteq> []" and ea: "engine_at C n ?h ?p" and fc: "final_chain C bs (n_active n)"
    and c: "ed25519_correct C" "private_ok (n_private_key n)" "vs_ok (n_active n)"
    using inv by (auto simp: inv_at_def final_chain_def)
  have "x = None \<and> engine_at C n' ?h ?p \<and> n_repo n' = n_repo n \<and> n_active n' = n_active n \<and> n_private_key n' = n_private_key n"
  proof (rule new_engine_at [OF c b refl refl _ _ n'])
    assume k: "contains (n_active n) (n_me C n)"
    then obtain e where e: "n_engine n = Some e" "runs_at C ?h ?p e" "e_validators e = n_active n"
      "e_private_key e = n_private_key n" "attached (n_journal_store n) (e_journal e)"
      using ea by (auto simp: engine_at_def split: option.splits)
    have eok: "engine_ok C (carries ?h ?p) e" and ot: "on_tip ?h ?p e" and ju: "journal_upto ?h (e_journal e)"
      using e(2) by (simp_all add: runs_at_def)
    have wf: "journal_wf (e_journal e)" using eok by (simp add: engine_ok_def)
    have sv: "store_view (n_journal_store n) ?h = Inr (e_journal e)"
    proof (cases "n_journal_store n")
      case (SqlConsensusJournalStore table)
      then obtain v where v: "e_journal e = SqlHeightView v" "sv_table v = table" using e(5) by auto
      then have "view_ok v" "sv_height v = ?h" using wf ju by (simp_all add: journal_wf_def)
      then show ?thesis using reopen_view_ok [of v] v SqlConsensusJournalStore by (simp add: reopen_view_def)
    qed (use e(5) in simp)
    have "cert_ok C (carries ?h ?p) e' r (block_hash C b) cert"
      if m: "make_engine C (n_active n) (n_private_key n) ?h ?p (n_now_ms n) (n_clock_reads n) (e_journal e) = Inr e'"
        and l: "prepared_lock (e_journal e) = Some (r, b, cert)" for e' r b cert
    proof -
      have "journal_ok (e_journal e)" using wf l by (auto simp: journal_wf_def)
      then have "lock_journaled C e" "lock_ok C (carries ?h ?p) e" using eok by (simp_all add: engine_ok_def)
      then have "cert_ok C (carries ?h ?p) e r (block_hash C b) cert" using l by (auto simp: lock_journaled_def lock_ok_def)
      moreover have "static e' = static e" using make_engine_Inr(1) [OF m] e(3,4) ot by (simp add: static_def on_tip_def)
      then have "grows e e'" using make_engine_Inr(3) [OF m] by (simp add: grows_def)
      ultimately show ?thesis by (rule cert_ok_grows [rotated])
    qed
    then show "\<exists>j. store_view (n_journal_store n) ?h = Inr j \<and> journal_wf j \<and> attached (n_journal_store n) j \<and> journal_upto ?h j \<and>
        pred_option (\<lambda>(_, b, _). tip_block ?h ?p b) (prepared_lock j) \<and>
        (\<forall>e r b c. make_engine C (n_active n) (n_private_key n) ?h ?p (n_now_ms n) (n_clock_reads n) j = Inr e \<longrightarrow>
           prepared_lock j = Some (r, b, c) \<longrightarrow> cert_ok C (carries ?h ?p) e r (block_hash C b) c)"
      using sv wf e(5) ju ot by (intro exI [of _ "e_journal e"]) (simp add: on_tip_def)
  next
    assume "\<not> contains (n_active n) (n_me C n)"
    then show "store_upto ?h (n_journal_store n)"
      using ea attached_upto [of "n_journal_store n"] by (auto simp: engine_at_def runs_at_def split: option.splits)
  qed
  then show ?thesis using c b fc by (simp add: inv_at_def)
qed

lemma inv_at_cong:
  assumes "inv_at C n bs" "n_repo n' = n_repo n" "n_private_key n' = n_private_key n" "n_active n' = n_active n"
    and "n_engine n' = n_engine n" "n_journal_store n' = n_journal_store n"
  shows "inv_at C n' bs"
proof -
  have "n_me C n' = n_me C n" using assms(3) by (simp add: n_me_def)
  then show ?thesis using assms by (cases "n_engine n") (simp_all add: inv_at_def engine_at_def)
qed

lemma append_and_advance_inv:
  assumes inv: "inv_at C n bs" and a: "append_and_advance C b n = (None, n')"
    and p: "previous_hash (header b) = block_hash C (last bs)" and v: "verify_finality C b (n_active n)"
  shows "inv_at C n' (bs @ [b])"
proof -
  have b: "repo_stores C (n_repo n) bs" "bs \<noteq> []" and ea: "engine_at C n (int (length bs)) (block_hash C (last bs))"
    and fc: "final_chain C bs (n_active n)"
    and c: "ed25519_correct C" "private_ok (n_private_key n)" "vs_ok (n_active n)"
    using inv by (auto simp: inv_at_def final_chain_def)
  have up: "store_upto (int (length bs)) (n_journal_store n)"
    using ea attached_upto [of "n_journal_store n"] by (auto simp: engine_at_def runs_at_def split: option.splits)
  from a obtain rows m S k \<mu> where r: "repo_append C (n_fits n) (n_repo n) b = Inr rows"
    and m: "new_engine C m = (None, k)" "n_repo m = rows" "n_private_key m = n_private_key n" "n_active m = S"
      "n_journal_store m = prune_below (n_journal_store n) (block_index b + 1)" and k: "n' = k\<lparr>n_metrics := \<mu>\<rparr>"
    and S: "vs_ok S" "follow C (n_active n) [b] = Some S"
  proof (cases rule: append_and_advance_cases)
    case (stored rows n2)
    from stored(3) show thesis
    proof (elim disjE exE conjE)
      fix k \<mu> assume "validator_changes b = []" "new_engine C n2 = (None, k)" "n' = k\<lparr>n_metrics := \<mu>\<rparr>"
      then show thesis using stored(1,2) c(3) v by (intro that [of rows n2 k "n_active n" \<mu>]) (auto simp: forget_committed_def Let_def)
    next
      fix k \<mu> S assume "validator_changes b \<noteq> []" "apply_changes C (n_active n) (validator_changes b) = Inr S"
        "new_engine C (n2\<lparr>n_active := S\<rparr>) = (None, k)" "n' = k\<lparr>n_metrics := \<mu>\<rparr>"
      then show thesis
        using stored(1,2) v apply_changes_vs_ok by (intro that [of rows "n2\<lparr>n_active := S\<rparr>" k S \<mu>]) (auto simp: forget_committed_def Let_def)
    qed simp
  qed simp
  have bs': "repo_stores C (n_repo m) (bs @ [b])" using repo_append_Inr [OF b(1) r] m(2) by simp
  have "store_upto (int (length (bs @ [b])) - 1) (n_journal_store m)"
    using up m(5) by (cases "n_journal_store n") auto
  then have "engine_at C k (int (length (bs @ [b]))) (block_hash C (last (bs @ [b]))) \<and> n_repo k = n_repo m \<and>
      n_active k = S \<and> n_private_key k = n_private_key n"
    using new_engine_next [OF c(1) _ _ bs' _ _ m(1)] c(2) m S(1) by simp
  then have "inv_at C k (bs @ [b])"
    using c S bs' final_chain_snoc [OF fc p S(2)] by (simp add: inv_at_def)
  then show ?thesis by (rule inv_at_cong) (simp_all add: k)
qed


section \<open>The operations keep it\<close>

definition grown :: "crypto \<Rightarrow> node \<Rightarrow> block list \<Rightarrow> bool" where
  "grown C n bs \<longleftrightarrow> (\<exists>new. inv_at C n (bs @ new))"

lemma grown_refl: "inv_at C n bs \<Longrightarrow> grown C n bs"
  unfolding grown_def by (rule exI [of _ "[]"]) simp

lemma grown_more: "grown C n (bs @ new) \<Longrightarrow> grown C n bs"
  by (auto simp: grown_def)

lemma inv_at_send: "inv_at C n bs \<Longrightarrow> inv_at C (send fx n) bs"
  by (erule inv_at_cong) simp_all

definition tip_ok :: "crypto \<Rightarrow> block list \<Rightarrow> step_result option \<Rightarrow> bool" where
  "tip_ok C bs r \<longleftrightarrow> (\<forall>x. r = Some x \<longrightarrow> pred_option (tip_block (int (length bs)) (block_hash C (last bs))) (committed_block x))"

lemma called_inv:
  assumes "inv_at C n bs" "call_engine f n = (r, n')"
    and "\<And>e. runs_at C (int (length bs)) (block_hash C (last bs)) e \<Longrightarrow>
      tip_result C (int (length bs)) (block_hash C (last bs)) e (f e)"
  shows "inv_at C n' bs \<and> tip_ok C bs r"
  using call_engine_inv [OF _ assms(2,3)] call_engine_frame [OF assms(2)] assms(1) by (simp add: inv_at_def tip_ok_def)

lemma node_set_pending_inv: "inv_at C n bs \<Longrightarrow> node_set_pending C n = (r, n') \<Longrightarrow> inv_at C n' bs \<and> tip_ok C bs r"
  unfolding node_set_pending_def by (erule called_inv) (auto intro: set_pending_at)

lemma commit_locked_inv:
  assumes "inv_at C n bs" "tip_block (int (length bs)) (block_hash C (last bs)) b" "commit_locked C b n = ((None, n'), z)"
  shows "\<exists>new. inv_at C n' (bs @ new)"
proof (cases "verify_finality C b (n_active n)")
  case True
  then obtain m where m: "append_and_advance C b n = (None, m)" "n' = send [OnCommit b] m"
    using assms(3) by (auto simp: commit_locked_def split: prod.splits option.splits)
  have "inv_at C m (bs @ [b])"
    by (rule append_and_advance_inv [OF assms(1) m(1) _ True]) (use assms(2) in \<open>simp add: tip_block_def\<close>)
  then show ?thesis using inv_at_send m(2) by blast
next
  case False
  then have "new_engine C n = (None, n')" using assms(3) by (simp add: commit_locked_def)
  then show ?thesis using new_engine_same [OF assms(1)] by (intro exI [of _ "[]"]) simp
qed

lemma apply_locked_inv:
  assumes "apply_locked C r n = Some (None, n')" "inv_at C n bs" "tip_ok C bs r"
  shows "grown C n' bs"
proof -
  have "\<forall>bs. fst out = None \<longrightarrow> inv_at C n bs \<longrightarrow> tip_ok C bs r \<longrightarrow> grown C (snd out) bs"
    if "apply_locked C r n = Some out" for out
  proof (rule apply_locked.raw_induct [OF _ that], goal_cases)
    case (1 rec C result n out)
    note IH = 1(1) and eq = 1(2)
    show ?case
    proof (intro allI impI)
      fix bs assume o: "fst out = None" and inv: "inv_at C n bs" and t: "tip_ok C bs result"
      consider "result = None" | x where "result = Some x" "committed_block x = None"
        | x b where "result = Some x" "committed_block x = Some b" by (cases result) auto
      then show "grown C (snd out) bs"
      proof cases
        case 1
        then show ?thesis using eq inv grown_refl by auto
      next
        case 2
        then show ?thesis using eq inv_at_send [OF inv] grown_refl by (auto simp: Let_def)
      next
        case (3 x b)
        let ?n = "send (map Broadcast (broadcast x)) n"
        obtain y m z where c: "commit_locked C b ?n = ((y, m), z)" by (metis prod.collapse)
        have y: "y = None" using eq 3 c o by (auto simp: Let_def split: option.splits)
        let ?m = "case z of None \<Rightarrow> m | Some a \<Rightarrow> send [GossipBlock (block_to_dict a)] m"
        obtain r' m' where s: "node_set_pending C ?m = (r', m')" by fastforce
        have rec: "rec C r' m' = Some out" using eq 3 c y s by (simp add: Let_def)
        obtain new where new: "inv_at C m (bs @ new)"
          using commit_locked_inv [OF inv_at_send [OF inv] _ c [unfolded y]] t 3 by (auto simp: tip_ok_def)
        then have "inv_at C ?m (bs @ new)" using inv_at_send by (cases z) auto
        from node_set_pending_inv [OF this s] show ?thesis
          using IH [OF rec] o grown_more by blast
      qed
    qed
  qed
  from this [OF assms(1)] assms(2,3) show ?thesis by simp
qed

lemma repropose_inv:
  assumes "repropose C n = Some (None, n')" "inv_at C n bs"
  shows "grown C n' bs"
proof -
  obtain r m where m: "node_set_pending C n = (r, m)" by fastforce
  then have "inv_at C m bs \<and> tip_ok C bs r" by (rule node_set_pending_inv [OF assms(2)])
  then show ?thesis using apply_locked_inv [of C r m n' bs] assms(1) m by (simp add: repropose_def)
qed

lemma ingest_records_inv:
  assumes "ingest_records C rs g n = Some (None, n')" "inv_at C n bs"
  shows "grown C n' bs"
proof -
  have "inv_at C n' bs \<or> (\<exists>m. repropose C m = Some (None, n') \<and> inv_at C m bs)"
    using assms(1) inv_at_cong [OF assms(2)] by (auto simp: ingest_records_def Let_def split: sum.splits if_splits)
  then show ?thesis using repropose_inv grown_refl by blast
qed

lemma ingest_changes_inv:
  assumes "ingest_changes C cs g n = Some (None, n')" "inv_at C n bs"
  shows "grown C n' bs"
proof -
  have "n' = n \<or> (\<exists>m. repropose C m = Some (None, n') \<and> inv_at C m bs)"
    using assms(1) inv_at_cong [OF assms(2)] by (auto simp: ingest_changes_def Let_def split: if_splits)
  then show ?thesis using repropose_inv grown_refl [OF assms(2)] by blast
qed

lemma apply_pushed_inv:
  assumes "apply_pushed_block_locked C b n = Some (None, n')" "inv_at C n bs"
  shows "grown C n' bs"
proof -
  have l: "repo_latest (n_repo n) = Inr (Some (last bs))"
    using sql.latest_eq assms(2) by (auto simp: inv_at_def final_chain_def)
  have "n' = n \<or> (\<exists>m. repropose C (send [OnCommit b] m) = Some (None, n') \<and> append_and_advance C b n = (None, m) \<and>
      previous_hash (header b) = block_hash C (last bs) \<and> verify_finality C b (n_active n))"
    using assms(1) by (auto simp: apply_pushed_block_locked_def l split: if_splits prod.splits option.splits)
  then show ?thesis
    using append_and_advance_inv [OF assms(2)] inv_at_send repropose_inv grown_more grown_refl [OF assms(2)] by blast
qed

lemma sync_locked_inv:
  "sync_locked C fetch up_to n = (None, n') \<Longrightarrow> inv_at C n bs \<Longrightarrow> grown C n' bs"
proof (induction C fetch up_to n arbitrary: bs rule: sync_locked.induct)
  case (1 C fetch up_to n)
  from "1.prems"(1) show ?case
  proof (cases rule: sync_locked_cases)
    case (fetched b latest y m)
    have l: "latest = last bs"
      using sql.latest_eq "1.prems"(2) fetched(4) by (auto simp: inv_at_def final_chain_def)
    have y: "y = None" and m: "sync_locked C fetch up_to m = (None, n')" using fetched(8) by (auto split: option.splits)
    have "inv_at C m (bs @ [b])"
      using append_and_advance_inv [OF "1.prems"(2)] fetched l y by blast
    then have "grown C n' (bs @ [b])"
      using fetched y m by (intro "1.IH" [of _ "Some b" b "Some latest" latest None m]) auto
    then show ?thesis by (rule grown_more)
  qed (use "1.prems"(2) grown_refl in simp)
qed

end
