(* ===== verification/Node_Runs.thy ===== *)
theory Node_Runs
  imports Node_Invariant
begin

text \<open>
  Runs of the node: they return, they only ever append to the repository, and as long as no
  exception is raised they keep the invariant, from the first start and across restarts.
\<close>

section \<open>Steps\<close>

lemma observe_inbox_simps [simp]:
  "n_repo (observe_inbox n) = n_repo n" "n_private_key (observe_inbox n) = n_private_key n" "n_active (observe_inbox n) = n_active n"
  "n_engine (observe_inbox n) = n_engine n" "n_journal_store (observe_inbox n) = n_journal_store n"
  "n_inbox (observe_inbox n) = n_inbox n" "n_max_inbox (observe_inbox n) = n_max_inbox n"
  "n_mempool_seen (observe_inbox n) = n_mempool_seen n"
  by (simp_all add: observe_inbox_def)

lemma round_timer_cases:
  assumes "round_timer C start n = out"
  obtains (idle) "out = Some (None, n)"
  | (fired) r m where "call_engine (on_timeout C) (n\<lparr>n_metrics := observe_timeout (n_metrics n)\<rparr>) = (r, m)"
      "out = map_option (\<lambda>(x, m'). (x, if x = None then m'\<lparr>n_metrics := observe_round (node_round m') (n_metrics m')\<rparr> else m'))
        (apply_locked C r m)"
proof -
  obtain r m where m: "call_engine (on_timeout C) (n\<lparr>n_metrics := observe_timeout (n_metrics n)\<rparr>) = (r, m)" by fastforce
  have "out = Some (None, n) \<or>
      out = map_option (\<lambda>(x, m'). (x, if x = None then m'\<lparr>n_metrics := observe_round (node_round m') (n_metrics m')\<rparr> else m'))
        (apply_locked C r m)"
    using assms by (auto simp: round_timer_def Let_def m split: option.splits if_splits)
  then show thesis using idle fired [OF m] by blast
qed

text \<open>
  A relation between an outcome and the states before and after it that the primitive changes
  of the node state satisfy holds for every operation, also one that raises. The node calls
  three methods of its engine, and stores only blocks it has found final.
\<close>

inductive engine_call :: "crypto \<Rightarrow> (engine \<Rightarrow> step_state) \<Rightarrow> bool" for C where
  call_set_pending: "engine_call C (set_pending C rs cs)"
| call_on_timeout: "engine_call C (on_timeout C)"
| call_handle: "engine_call C (handle C m)"

lemmas engine_calls [intro] = call_set_pending call_on_timeout call_handle

locale node_steps =
  fixes C :: crypto and R :: "node_error option \<Rightarrow> node \<Rightarrow> node \<Rightarrow> bool"
  assumes refl: "R x n n"
    and trans: "R None n1 n2 \<Longrightarrow> R x n2 n3 \<Longrightarrow> R x n1 n3"
    and sends: "R None n (send fx n)"
    and calls: "engine_call C f \<Longrightarrow> call_engine f n = (r, n') \<Longrightarrow> R None n n'"
    and restarts: "new_engine C n = (x, n') \<Longrightarrow> R x n n'"
    and stores: "verify_finality C b (n_active n) \<Longrightarrow> append_and_advance C b n = (x, n') \<Longrightarrow> R x n n'"
    and queues: "R None n (n\<lparr>n_mempool_seen := n_mempool_seen n @ ks, n_pending := n_pending n @ rs\<rparr>)"
    and queues_changes: "R None n (n\<lparr>n_pending_changes := cs\<rparr>)"
    and takes: "n_inbox n = m # ms \<Longrightarrow> R None n (n\<lparr>n_inbox := ms\<rparr>)"
    and enqueues: "R None n (snd (enqueue_inbound m n))"
    and counts_dropped: "R None n (n\<lparr>n_metrics := observe_records_dropped k (n_metrics n)\<rparr>)"
    and counts_timeout: "R None n (n\<lparr>n_metrics := observe_timeout (n_metrics n)\<rparr>)"
    and counts_round: "R None n (n\<lparr>n_metrics := observe_round k (n_metrics n)\<rparr>)"
begin

lemma raises: "R None n n' \<Longrightarrow> R x n n'"
  by (rule trans [OF _ refl])

lemma committed: "commit_locked C b n = ((x, n'), z) \<Longrightarrow> R x n n'"
  using restarts [of n x n'] stores [of b n] sends trans
  by (auto simp: commit_locked_def split: if_splits prod.splits option.splits)

lemma applied:
  assumes "apply_locked C r n = Some (x, n')"
  shows "R x n n'"
proof -
  have "D = C \<longrightarrow> R (fst out) n (snd out)" if "apply_locked D r n = Some out" for D out
  proof (rule apply_locked.raw_induct [OF _ that], goal_cases)
    case (1 rec D result n out)
    note IH = 1(1) and eq = 1(2)
    show ?case
    proof
      assume D: "D = C"
      consider "result = None" | r where "result = Some r" "committed_block r = None"
        | r b where "result = Some r" "committed_block r = Some b" by (cases result) auto
      then show "R (fst out) n (snd out)"
      proof cases
        case 1 then show ?thesis using eq refl by auto
      next
        case 2 then show ?thesis using eq sends by (auto simp: Let_def)
      next
        case (3 r b)
        let ?n = "send (map Broadcast (broadcast r)) n"
        obtain y m z where c: "commit_locked C b ?n = ((y, m), z)" by (metis prod.collapse)
        have m: "R y n m" by (rule trans [OF sends committed [OF c]])
        let ?m = "case z of None \<Rightarrow> m | Some a \<Rightarrow> send [GossipBlock (block_to_dict a)] m"
        obtain r' m' where s: "node_set_pending C ?m = (r', m')" by fastforce
        have "R None m ?m" using sends refl by (cases z) simp_all
        moreover have "R None ?m m'" using calls [OF call_set_pending] s by (simp add: node_set_pending_def)
        ultimately have mm: "R None m m'" by (rule trans)
        show ?thesis
        proof (cases y)
          case None
          with m have m': "R None n m'" by (auto intro: trans [OF _ mm])
          from None have "rec C r' m' = Some out" using eq 3 c s D by (simp add: Let_def)
          from IH [OF this] show ?thesis by (auto intro: trans [OF m'])
        qed (use eq 3 c D m in \<open>auto simp: Let_def\<close>)
      qed
    qed
  qed
  from this [OF assms] show ?thesis by simp
qed

lemma called: "engine_call C f \<Longrightarrow> (let (r, n') = call_engine f n in apply_locked C r n') = Some (x, n'') \<Longrightarrow> R x n n''"
  using calls applied trans by (cases "call_engine f n") (simp, blast)

lemma reproposed: "repropose C n = Some (x, n') \<Longrightarrow> R x n n'"
  using called [OF call_set_pending, of "n_pending n" "n_pending_changes n" n x n']
  by (simp add: repropose_def node_set_pending_def)

lemma synced: "sync_locked C fetch up_to n = (x, n') \<Longrightarrow> R x n n'"
proof -
  have "D = C \<Longrightarrow> sync_locked D fetch up_to n = (x, n') \<Longrightarrow> R x n n'" for D
  proof (induction D fetch up_to n rule: sync_locked.induct)
    case (1 D fetch up_to n)
    from "1.prems"(2) show ?case
    proof (cases rule: sync_locked_cases)
      case (fetched b latest y m)
      then have m: "R y n m" using stores "1.prems"(1) by blast
      show ?thesis
      proof (cases y)
        case None
        then have "R x m n'"
          using fetched "1.prems"(1) by (intro "1.IH" [of _ "Some b" b "Some latest" latest None m]) auto
        then show ?thesis using None m trans by blast
      qed (use fetched m in auto)
    qed (use refl in simp)
  qed
  then show "sync_locked C fetch up_to n = (x, n') \<Longrightarrow> R x n n'" by blast
qed

lemma caught_up: "catch_up C fetch m n = (x, n') \<Longrightarrow> R x n n'"
  using synced refl by (auto simp: catch_up_def Let_def split: if_splits)

lemma received: "on_message C fetch m n = Some (x, n') \<Longrightarrow> R x n n'"
proof -
  assume a: "on_message C fetch m n = Some (x, n')"
  obtain y n1 where s: "catch_up C fetch m n = (y, n1)" by fastforce
  have n1: "R y n n1" by (rule caught_up [OF s])
  have "x = y \<and> n' = n1 \<or> y = None \<and> n' = n1 \<or> y = None \<and> (let (r, n2) = call_engine (handle C m) n1 in apply_locked C r n2) = Some (x, n')"
    using a by (auto simp: on_message_def s Let_def split: option.splits if_splits)
  then show ?thesis using n1 called [OF call_handle, of m n1] trans raises by blast
qed

lemma pushed: "apply_pushed_block_locked C b n = Some (x, n') \<Longrightarrow> R x n n'"
proof -
  assume a: "apply_pushed_block_locked C b n = Some (x, n')"
  obtain y m where m: "append_and_advance C b n = (y, m)" by fastforce
  have "n' = n \<or> verify_finality C b (n_active n) \<and>
      (n' = m \<and> x = y \<or> y = None \<and> repropose C (send [OnCommit b] m) = Some (x, n'))"
    using a by (auto simp: apply_pushed_block_locked_def m split: sum.splits option.splits if_splits)
  then show ?thesis using refl stores [OF _ m] trans [OF trans [OF _ sends] reproposed, of n m] by blast
qed

lemma ingested: "ingest_records C rs g n = Some (x, n') \<Longrightarrow> R x n n'"
proof -
  assume a: "ingest_records C rs g n = Some (x, n')"
  let ?n = "\<lambda>k. n\<lparr>n_metrics := observe_records_dropped k (n_metrics n)\<rparr>"
  have "n' = n \<or> (\<exists>k. n' = ?n k) \<or>
      (\<exists>k ks ps fx. repropose C (send fx ((?n k)\<lparr>n_mempool_seen := n_mempool_seen (?n k) @ ks, n_pending := n_pending (?n k) @ ps\<rparr>)) = Some (x, n'))"
    using a unfolding ingest_records_def
    by (auto simp: Let_def split: sum.splits if_splits) (metis send_Nil)+
  then show ?thesis
    using refl raises [OF counts_dropped] trans [OF trans [OF trans [OF counts_dropped queues] sends] reproposed] by blast
qed

lemma timed_out: "round_timer C start n = Some (x, n') \<Longrightarrow> R x n n'"
proof -
  assume a: "round_timer C start n = Some (x, n')"
  then show ?thesis
  proof (cases rule: round_timer_cases)
    case (fired r m)
    have nm: "R None n m" by (rule trans [OF counts_timeout calls [OF call_on_timeout fired(1)]])
    obtain m' where "apply_locked C r m = Some (x, m')"
        "n' = m' \<or> x = None \<and> n' = m'\<lparr>n_metrics := observe_round (node_round m') (n_metrics m')\<rparr>"
      using fired(2) by (cases "apply_locked C r m") (auto split: if_splits)
    then show ?thesis using trans [OF nm applied] trans [OF trans [OF nm applied] counts_round] by blast
  qed (simp add: refl)
qed

lemma ingested_changes: "ingest_changes C cs g n = Some (x, n') \<Longrightarrow> R x n n'"
proof -
  assume a: "ingest_changes C cs g n = Some (x, n')"
  have "n' = n \<or> (\<exists>cs fx. repropose C (send fx (n\<lparr>n_pending_changes := cs\<rparr>)) = Some (x, n'))"
    using a unfolding ingest_changes_def by (auto simp: Let_def split: if_splits) (metis send_Nil)+
  then show ?thesis using refl trans [OF trans [OF queues_changes sends] reproposed] by blast
qed

theorem stepped: "node_step C n i = Some (x, n') \<Longrightarrow> R x n n'"
proof (cases i)
  case (WorkerTakes fetch)
  assume "node_step C n i = Some (x, n')"
  then show ?thesis
    using WorkerTakes refl trans [OF takes received] by (auto split: list.splits)
qed (use refl ingested ingested_changes pushed reproposed received called [OF call_on_timeout] enqueues timed_out in
      \<open>auto simp: submit_records_def receive_records_def submit_validator_change_def receive_validator_changes_def
         ingest_block_def tick_def force_timeout_def Let_def
         split: option.splits if_splits\<close>)

theorem ran: "run_node C n is = Some (x, n') \<Longrightarrow> R x n n'"
proof (induction "is" arbitrary: n)
  case (Cons i "is")
  then obtain y m where m: "node_step C n i = Some (y, m)" by (auto split: option.splits)
  have nm: "R y n m" by (rule stepped [OF m])
  show ?case
  proof (cases y)
    case None
    then have nm: "R None n m" using nm by simp
    from None show ?thesis using Cons m by (auto intro: trans [OF nm])
  qed (use Cons.prems m nm in auto)
qed (simp add: refl)

end


section \<open>The repository only grows\<close>

text \<open>Blocks are only added, and the records of added blocks are remembered as seen.\<close>

definition extends :: "crypto \<Rightarrow> node \<Rightarrow> node \<Rightarrow> bool" where
  "extends C n n' \<longleftrightarrow> n_private_key n' = n_private_key n \<and> set (n_mempool_seen n) \<subseteq> set (n_mempool_seen n') \<and>
     (\<forall>bs. repo_stores C (n_repo n) bs \<longrightarrow> (\<exists>new. repo_stores C (n_repo n') (bs @ new) \<and>
        (\<forall>b \<in> set new. content_key C ` set (records b) \<subseteq> set (n_mempool_seen n'))))"

lemma extends_same:
  "n_repo n' = n_repo n \<Longrightarrow> n_private_key n' = n_private_key n \<Longrightarrow> set (n_mempool_seen n) \<subseteq> set (n_mempool_seen n') \<Longrightarrow>
     extends C n n'"
  unfolding extends_def by (auto intro: exI [of _ "[]"])

lemma extends_trans:
  assumes "extends C n1 n2" "extends C n2 n3"
  shows "extends C n1 n3"
  unfolding extends_def
proof (intro conjI allI impI)
  fix bs assume "repo_stores C (n_repo n1) bs"
  then obtain new where n: "repo_stores C (n_repo n2) (bs @ new)"
    "\<forall>b \<in> set new. content_key C ` set (records b) \<subseteq> set (n_mempool_seen n2)"
    using assms(1) by (auto simp: extends_def)
  then obtain more where m: "repo_stores C (n_repo n3) ((bs @ new) @ more)"
    "\<forall>b \<in> set more. content_key C ` set (records b) \<subseteq> set (n_mempool_seen n3)"
    using assms(2) unfolding extends_def by blast
  then show "\<exists>new. repo_stores C (n_repo n3) (bs @ new) \<and>
      (\<forall>b \<in> set new. content_key C ` set (records b) \<subseteq> set (n_mempool_seen n3))"
    using n(2) assms(2) by (intro exI [of _ "new @ more"]) (auto simp: extends_def)
qed (use assms in \<open>auto simp: extends_def\<close>)

lemma extends_append:
  assumes "append_and_advance C b n = (x, n')"
  shows "extends C n n'"
  using assms
proof (cases rule: append_and_advance_cases)
  case (stored rows n2)
  have "n_repo n' = rows \<and> n_private_key n' = n_private_key n \<and>
      n_mempool_seen n' = n_mempool_seen n @ map (content_key C) (records b)"
    using stored(2,3) new_engine_repo [of C] new_engine_frame(1,4) [of C]
    by (auto simp: forget_committed_def Let_def dest!: arg_cong [where f = snd])
  then show ?thesis
    using repo_append_Inr [OF _ stored(1)] unfolding extends_def by (auto intro!: exI [of _ "[b]"])
qed (simp add: extends_same)

interpretation growing: node_steps C "\<lambda>_. extends C" for C
proof (unfold_locales, goal_cases)
  case (2 n1 n2 x n3) then show ?case by (rule extends_trans)
next
  case (4 f n r n') then show ?case using call_engine_frame [OF 4(2)] by (simp add: extends_same)
next
  case (5 n x n')
  then show ?case using new_engine_repo [of C n] new_engine_frame(1,4) [of C n] by (simp add: extends_same)
next
  case (6 b n x n') then show ?case by (intro extends_append)
qed (simp_all add: extends_same enqueue_inbound_def observe_inbox_def)


section \<open>The chain is final\<close>

text \<open>
  Independently of what the messages carry: whatever an operation that does not raise adds to
  the repository is final under the set in force, the active set follows the blocks, and the
  engine is the one of the next height.
\<close>

definition engine_next :: "crypto \<Rightarrow> node \<Rightarrow> block list \<Rightarrow> bool" where
  "engine_next C n bs \<longleftrightarrow> (case n_engine n of
     None \<Rightarrow> \<not> contains (n_active n) (n_me C n)
   | Some e \<Rightarrow> contains (n_active n) (n_me C n) \<and>
       static e = (n_active n, n_private_key n, int (length bs), block_hash C (last bs)))"

definition advances :: "crypto \<Rightarrow> node_error option \<Rightarrow> node \<Rightarrow> node \<Rightarrow> bool" where
  "advances C x n n' \<longleftrightarrow> (x = None \<longrightarrow> (\<forall>bs. repo_stores C (n_repo n) bs \<longrightarrow> bs \<noteq> [] \<longrightarrow> engine_next C n bs \<longrightarrow>
     (\<exists>new. repo_stores C (n_repo n') (bs @ new) \<and> follow C (n_active n) new = Some (n_active n') \<and>
        engine_next C n' (bs @ new))))"

lemma advances_same:
  assumes "n_repo n' = n_repo n" "n_active n' = n_active n" "\<And>bs. engine_next C n bs \<Longrightarrow> engine_next C n' bs"
  shows "advances C x n n'"
  unfolding advances_def using assms by (intro impI allI exI [of _ "[]"]) simp

lemma engine_next_cong:
  assumes "engine_next C n bs" "n_active n' = n_active n" "n_private_key n' = n_private_key n" "n_engine n' = n_engine n"
  shows "engine_next C n' bs"
proof -
  have "n_me C n' = n_me C n" using assms(3) by (simp add: n_me_def)
  then show ?thesis using assms by (simp add: engine_next_def split: option.splits)
qed

lemma advances_frame:
  assumes "n_repo n' = n_repo n" "n_active n' = n_active n" "n_private_key n' = n_private_key n" "n_engine n' = n_engine n"
  shows "advances C x n n'"
  using assms engine_next_cong by (intro advances_same)

lemma advances_trans:
  assumes "advances C None n1 n2" "advances C x n2 n3"
  shows "advances C x n1 n3"
  unfolding advances_def
proof (intro impI allI)
  fix bs assume x: "x = None" and bs: "repo_stores C (n_repo n1) bs" "bs \<noteq> []" "engine_next C n1 bs"
  obtain new where new: "repo_stores C (n_repo n2) (bs @ new)" "follow C (n_active n1) new = Some (n_active n2)"
    "engine_next C n2 (bs @ new)"
    using assms(1) bs unfolding advances_def by blast
  then obtain more where "repo_stores C (n_repo n3) ((bs @ new) @ more)" "follow C (n_active n2) more = Some (n_active n3)"
    "engine_next C n3 ((bs @ new) @ more)"
    using assms(2) x bs(2) unfolding advances_def by (metis append_is_Nil_conv)
  then show "\<exists>new. repo_stores C (n_repo n3) (bs @ new) \<and> follow C (n_active n1) new = Some (n_active n3) \<and>
      engine_next C n3 (bs @ new)"
    using new(2) by (intro exI [of _ "new @ more"]) (simp add: follow_append)
qed

lemma accelerate_static [frame]: "static (fst (fst (accelerate C ts st))) = static (fst st)"
  by (induction ts arbitrary: st) (simp_all add: Let_def frame)

lemma process_loop_static: "static (fst (process_loop k C st)) = static (fst st)"
  by (induction k arbitrary: st) (simp_all add: Let_def case_prod_beta frame split: option.splits)

lemma engine_call_static:
  assumes "engine_call C f"
  shows "static (fst (f e)) = static e"
  using assms
proof cases
  case (call_set_pending rs cs)
  have "static (fst (maybe_propose_round0 C st)) = static (fst st)" for st
    by (simp add: maybe_propose_round0_def Let_def case_prod_beta frame) (simp add: build_block_def static_def)
  then show ?thesis using call_set_pending by (simp add: set_pending_def) (simp add: static_def)
next
  case call_on_timeout
  then show ?thesis by (simp add: on_timeout_def Let_def process_round_changes_def process_loop_static frame)
next
  case (call_handle m)
  have "static (fst (handle_pre_prepare_current C m st)) = static (fst st)" for st
    by (simp add: handle_pre_prepare_current_def Let_def frame split: option.splits)
  then show ?thesis
    using call_handle
    by (cases "m_type m")
      (simp_all add: handle_def handle_vote_def handle_pre_prepare_def handle_round_change_def process_round_changes_def
         process_loop_static Let_def frame, simp_all add: static_def)
qed

lemma advances_call:
  assumes "engine_call C f" "call_engine f n = (r, n')"
  shows "advances C None n n'"
proof (rule advances_same)
  fix bs assume "engine_next C n bs"
  then show "engine_next C n' bs"
  proof (cases "n_engine n")
    case (Some e)
    let ?e = "e\<lparr>e_journal := attach_table (n_journal_store n) (e_journal e)\<rparr>"
    obtain e' x where f: "f ?e = (e', x)" by fastforce
    have "static e' = static ?e" using engine_call_static [OF assms(1), of ?e] f by simp
    also have "\<dots> = static e" by (simp add: static_def)
    finally show ?thesis
      using \<open>engine_next C n bs\<close> assms(2) f Some by (auto simp: engine_next_def call_engine_def n_me_def)
  qed (use assms(2) in \<open>simp add: call_engine_def\<close>)
qed (use call_engine_frame [OF assms(2)] in simp_all)

lemma new_engine_engine_next:
  assumes "new_engine C n = (None, n')" "repo_stores C (n_repo n) bs" "bs \<noteq> []"
  shows "engine_next C n' bs"
proof -
  have l: "repo_latest (n_repo n) = Inr (Some (last bs))" using sql.latest_eq [OF assms(2)] assms(3) by simp
  have i: "block_index (last bs) + 1 = int (length bs)" using repo_stores_last [OF assms(2,3)] by simp
  show ?thesis
    using assms(1) make_engine_Inr(1)
    by (auto simp: new_engine_def l i engine_next_def n_me_def Let_def bindr_Inr_iff split: if_splits sum.splits)
qed

lemma advances_new_engine: "new_engine C n = (x, n') \<Longrightarrow> advances C x n n'"
  using new_engine_engine_next [of C n n'] new_engine_repo [of C n] new_engine_frame(5) [of C n]
  unfolding advances_def by (intro impI allI exI [of _ "[]"]) simp

lemma advances_append:
  assumes v: "verify_finality C b (n_active n)" and a: "append_and_advance C b n = (x, n')"
  shows "advances C x n n'"
  unfolding advances_def
proof (intro impI allI)
  fix bs assume x: "x = None" and st: "repo_stores C (n_repo n) bs"
  obtain rows m S k \<mu> where r: "repo_append C (n_fits n) (n_repo n) b = Inr rows"
    and m: "new_engine C m = (None, k)" "n_repo m = rows" "n_active m = S" and k: "n' = k\<lparr>n_metrics := \<mu>\<rparr>"
    and S: "follow C (n_active n) [b] = Some S"
    using a
  proof (cases rule: append_and_advance_cases)
    case (stored rows n2)
    from stored(3) show thesis
    proof (elim disjE exE conjE)
      fix k \<mu> assume "validator_changes b = []" "new_engine C n2 = (x, k)" "n' = k\<lparr>n_metrics := \<mu>\<rparr>"
      then show thesis using stored(1,2) v x by (intro that [of rows n2 k "n_active n" \<mu>]) (auto simp: forget_committed_def Let_def)
    next
      fix k \<mu> S assume "validator_changes b \<noteq> []" "apply_changes C (n_active n) (validator_changes b) = Inr S"
        "new_engine C (n2\<lparr>n_active := S\<rparr>) = (x, k)" "n' = k\<lparr>n_metrics := \<mu>\<rparr>"
      then show thesis
        using stored(1,2) v x by (intro that [of rows "n2\<lparr>n_active := S\<rparr>" k S \<mu>]) (auto simp: forget_committed_def Let_def)
    qed (use x in simp)
  qed (use x in simp)
  have bs': "repo_stores C (n_repo m) (bs @ [b])" using repo_append_Inr [OF st r] m(2) by simp
  have "engine_next C k (bs @ [b])" by (rule new_engine_engine_next [OF m(1) bs']) simp
  then have "engine_next C n' (bs @ [b])" by (rule engine_next_cong) (simp_all add: k)
  moreover have "n_repo k = n_repo m" "n_active k = S" using new_engine_repo [of C m] new_engine_frame(5) [of C m] m(1,3) by simp_all
  ultimately show "\<exists>new. repo_stores C (n_repo n') (bs @ new) \<and> follow C (n_active n) new = Some (n_active n') \<and>
      engine_next C n' (bs @ new)"
    using bs' S k by (intro exI [of _ "[b]"]) (simp del: follow.simps)
qed

interpretation advancing: node_steps C "advances C" for C
proof (unfold_locales, goal_cases)
  case (2 n1 n2 x n3) then show ?case by (rule advances_trans)
next
  case (4 f n r n') then show ?case by (rule advances_call)
next
  case (5 n x n') then show ?case by (rule advances_new_engine)
next
  case (6 b n x n') then show ?case by (rule advances_append)
qed (auto intro!: advances_frame simp: enqueue_inbound_def observe_inbox_def)


section \<open>Records stay until they are stored\<close>

definition stored_in :: "crypto \<Rightarrow> block list \<Rightarrow> integrity_record \<Rightarrow> bool" where
  \<comment> \<open>one of the blocks holds a record with this content\<close>
  "stored_in C bs r \<longleftrightarrow> (\<exists>b \<in> set bs. content_key C r \<in> content_key C ` set (records b))"

definition retains :: "crypto \<Rightarrow> node \<Rightarrow> node \<Rightarrow> bool" where
  "retains C n n' \<longleftrightarrow> (\<forall>bs. repo_stores C (n_repo n) bs \<longrightarrow> (\<exists>new. repo_stores C (n_repo n') (bs @ new) \<and>
     (\<forall>r \<in> set (n_pending n). r \<in> set (n_pending n') \<or> stored_in C new r)))"

lemma retains_same: "n_repo n' = n_repo n \<Longrightarrow> set (n_pending n) \<subseteq> set (n_pending n') \<Longrightarrow> retains C n n'"
  unfolding retains_def by (auto intro: exI [of _ "[]"])

lemma retains_trans:
  assumes "retains C n1 n2" "retains C n2 n3"
  shows "retains C n1 n3"
  unfolding retains_def
proof (intro allI impI)
  fix bs assume "repo_stores C (n_repo n1) bs"
  then obtain new where new: "repo_stores C (n_repo n2) (bs @ new)"
    "\<forall>r \<in> set (n_pending n1). r \<in> set (n_pending n2) \<or> stored_in C new r"
    using assms(1) by (auto simp: retains_def)
  then obtain more where "repo_stores C (n_repo n3) ((bs @ new) @ more)"
    "\<forall>r \<in> set (n_pending n2). r \<in> set (n_pending n3) \<or> stored_in C more r"
    using assms(2) unfolding retains_def by blast
  then show "\<exists>new. repo_stores C (n_repo n3) (bs @ new) \<and>
      (\<forall>r \<in> set (n_pending n1). r \<in> set (n_pending n3) \<or> stored_in C new r)"
    using new(2) by (intro exI [of _ "new @ more"]) (auto simp: stored_in_def)
qed

lemma new_engine_pending: "new_engine C n = (x, n') \<Longrightarrow> n_pending n' = n_pending n \<and> n_repo n' = n_repo n"
  by (auto simp: new_engine_def Let_def split: sum.splits option.splits if_splits)

lemma retains_append:
  assumes "append_and_advance C b n = (x, n')"
  shows "retains C n n'"
  using assms
proof (cases rule: append_and_advance_cases)
  case (stored rows n2)
  have "n_repo n' = rows \<and> n_pending n' = filter (\<lambda>r. content_key C r \<notin> content_key C ` set (records b)) (n_pending n)"
    using stored(2,3) by (auto simp: forget_committed_def Let_def dest!: new_engine_pending)
  then show ?thesis
    using repo_append_Inr [OF _ stored(1)] unfolding retains_def
    by (auto simp: stored_in_def intro!: exI [of _ "[b]"])
qed (simp add: retains_same)

interpretation retaining: node_steps C "\<lambda>_. retains C" for C
proof (unfold_locales, goal_cases)
  case (2 n1 n2 x n3) then show ?case by (rule retains_trans)
next
  case (4 f n r n')
  then show ?case by (intro retains_same) (auto simp: call_engine_def Let_def split: option.splits prod.splits)
next
  case (5 n x n') then show ?case using new_engine_pending [OF 5] by (simp add: retains_same)
next
  case (6 b n x n') then show ?case by (intro retains_append)
qed (simp_all add: retains_same enqueue_inbound_def observe_inbox_def)


section \<open>The inbox is bounded\<close>

definition inbox_bounded :: "node \<Rightarrow> bool" where
  "inbox_bounded n \<longleftrightarrow> 0 < n_max_inbox n \<longrightarrow> int (length (n_inbox n)) \<le> n_max_inbox n"

definition inbox_step :: "node \<Rightarrow> node \<Rightarrow> bool" where
  "inbox_step n n' \<longleftrightarrow> n_max_inbox n' = n_max_inbox n \<and> (inbox_bounded n \<longrightarrow> inbox_bounded n')"

lemma inbox_step_same: "n_inbox n' = n_inbox n \<Longrightarrow> n_max_inbox n' = n_max_inbox n \<Longrightarrow> inbox_step n n'"
  by (simp add: inbox_step_def inbox_bounded_def)

lemma new_engine_inbox: "new_engine C n = (x, n') \<Longrightarrow> n_inbox n' = n_inbox n \<and> n_max_inbox n' = n_max_inbox n"
  by (auto simp: new_engine_def Let_def split: sum.splits option.splits if_splits)

interpretation inbox: node_steps C "\<lambda>_. inbox_step" for C
proof (unfold_locales, goal_cases)
  case (4 f n r n')
  then show ?case by (intro inbox_step_same) (auto simp: call_engine_def Let_def split: option.splits prod.splits)
next
  case (5 n x n') then show ?case using new_engine_inbox [OF 5] by (simp add: inbox_step_same)
next
  case (6 b n x n')
  from 6(2) have "n_inbox n' = n_inbox n \<and> n_max_inbox n' = n_max_inbox n"
    by (cases rule: append_and_advance_cases) (auto simp: forget_committed_def Let_def dest!: new_engine_inbox)
  then show ?case by (simp add: inbox_step_same)
qed (auto simp: inbox_step_def inbox_bounded_def enqueue_inbound_def observe_inbox_def send_def)


section \<open>Every operation returns\<close>

lemma repropose_returns:
  assumes "ed25519_correct C" "private_ok (n_private_key n)"
  shows "\<exists>out. repropose C n = Some out"
proof -
  obtain r n' where s: "node_set_pending C n = (r, n')" by fastforce
  have "n_private_key n' = n_private_key n" using call_engine_frame(2) [OF s [unfolded node_set_pending_def]] .
  then show ?thesis using apply_locked_returns [of C n' r] assms s by (simp add: repropose_def)
qed

lemma call_returns:
  assumes "ed25519_correct C" "private_ok (n_private_key n)"
  shows "\<exists>out. (let (r, n') = call_engine f n in apply_locked C r n') = Some out"
proof -
  obtain r n' where s: "call_engine f n = (r, n')" by fastforce
  show ?thesis using apply_locked_returns [of C n' r] assms s call_engine_frame(2) [OF s] by simp
qed

lemma on_message_returns:
  assumes "ed25519_correct C" "private_ok (n_private_key n)"
  shows "\<exists>out. on_message C fetch m n = Some out"
proof -
  obtain x n1 where s: "catch_up C fetch m n = (x, n1)" by fastforce
  then have k: "n_private_key n1 = n_private_key n" using growing.caught_up [OF s] by (simp add: extends_def)
  show ?thesis
    using call_returns [OF assms(1), of n1 "handle C m"] assms(2) k unfolding on_message_def s
    by (cases x; cases "n_engine n1") auto
qed

lemma pushed_returns:
  assumes "ed25519_correct C" "private_ok (n_private_key n)"
  shows "\<exists>out. apply_pushed_block_locked C b n = Some out"
proof -
  obtain y m where m: "append_and_advance C b n = (y, m)" by fastforce
  have "private_ok (n_private_key (send [OnCommit b] m))" using extends_append [OF m] assms(2) by (simp add: extends_def)
  then show ?thesis
    using repropose_returns [OF assms(1)] unfolding apply_pushed_block_locked_def m
    by (cases y) (auto split: sum.splits option.splits)
qed

lemma step_returns:
  assumes "ed25519_correct C" "private_ok (n_private_key n)"
  shows "\<exists>out. node_step C n i = Some out"
proof (cases i)
  case (WorkerTakes fetch)
  have "\<exists>out. on_message C fetch m (n\<lparr>n_inbox := ms\<rparr>) = Some out" for m ms
    using on_message_returns [OF assms(1)] assms(2) by simp
  then show ?thesis using WorkerTakes by (cases "n_inbox n") simp_all
next
  case (TimerFires start)
  obtain out where out: "round_timer C start n = out" by blast
  then show ?thesis
  proof (cases rule: round_timer_cases)
    case (fired r m)
    have "private_ok (n_private_key m)" using call_engine_frame(2) [OF fired(1)] assms(2) by simp
    then show ?thesis using apply_locked_returns [of C m r] assms(1) fired(2) out TimerFires by auto
  qed (use TimerFires out in simp)
qed (use repropose_returns [OF assms(1)] assms call_returns [OF assms] on_message_returns [OF assms] pushed_returns [OF assms] in
      \<open>simp_all add: submit_records_def receive_records_def ingest_records_def submit_validator_change_def
         receive_validator_changes_def ingest_changes_def tick_def force_timeout_def
         enqueue_inbound_def ingest_block_def Let_def split: sum.splits option.splits\<close>)

lemma run_returns:
  "ed25519_correct C \<Longrightarrow> private_ok (n_private_key n) \<Longrightarrow> \<exists>out. run_node C n is = Some out"
proof (induction "is" arbitrary: n)
  case (Cons i "is")
  obtain x m where m: "node_step C n i = Some (x, m)" using step_returns [OF Cons.prems, of i] by auto
  have "private_ok (n_private_key m)" using growing.stepped [OF m] Cons.prems(2) by (simp add: extends_def)
  then show ?case using m Cons.IH [OF Cons.prems(1)] by (cases x) auto
qed simp


section \<open>Runs without exceptions keep the invariant\<close>

definition message_fits :: "crypto \<Rightarrow> node \<Rightarrow> consensus_message \<Rightarrow> bool" where
  \<comment> \<open>the blocks in votes, round changes and certificates extend the node's last block\<close>
  "message_fits C n m = (case repo_latest (n_repo n) of
     Inr (Some l) \<Rightarrow> deliverable (carries (block_index l + 1) (block_hash C l)) m
   | _ \<Rightarrow> True)"

fun input_fits :: "crypto \<Rightarrow> node \<Rightarrow> node_input \<Rightarrow> bool" where
  "input_fits C n (Message fetch m) = message_fits C (snd (catch_up C fetch m n)) m"
| "input_fits C n (WorkerTakes fetch) =
     (case n_inbox n of [] \<Rightarrow> True
      | m # ms \<Rightarrow> message_fits C (snd (catch_up C fetch m (n\<lparr>n_inbox := ms\<rparr>))) m)"
| "input_fits C n _ = True"

fun run_fits :: "crypto \<Rightarrow> node \<Rightarrow> node_input list \<Rightarrow> bool" where
  "run_fits C n [] = True"
| "run_fits C n (i # is) = (input_fits C n i \<and>
     (case node_step C n i of Some (None, n') \<Rightarrow> run_fits C n' is | _ \<Rightarrow> True))"

lemma message_fits_inv:
  "inv_at C n bs \<Longrightarrow> message_fits C n m \<longleftrightarrow> deliverable (carries (int (length bs)) (block_hash C (last bs))) m"
  using sql.latest_eq repo_stores_last by (auto simp: inv_at_def final_chain_def message_fits_def)

lemma called_apply_inv:
  assumes "(let (r, n') = call_engine f n in apply_locked C r n') = Some (None, n'')" "inv_at C n bs"
    and "\<And>e. runs_at C (int (length bs)) (block_hash C (last bs)) e \<Longrightarrow>
      tip_result C (int (length bs)) (block_hash C (last bs)) e (f e)"
  shows "grown C n'' bs"
proof -
  obtain r n' where s: "call_engine f n = (r, n')" by fastforce
  show ?thesis using called_inv [OF assms(2) s assms(3)] apply_locked_inv [of C r n' n''] assms(1) s by simp
qed

lemma on_message_inv:
  assumes "on_message C fetch m n = Some (None, n')" "inv_at C n bs" "message_fits C (snd (catch_up C fetch m n)) m"
  shows "grown C n' bs"
proof -
  obtain x n1 where s: "catch_up C fetch m n = (x, n1)" by fastforce
  have "x = None" using assms(1) s by (auto simp: on_message_def split: option.splits)
  have "grown C n1 bs"
    using s \<open>x = None\<close> sync_locked_inv [OF _ assms(2)] grown_refl [OF assms(2)] by (auto simp: catch_up_def Let_def split: if_splits)
  then obtain new where new: "inv_at C n1 (bs @ new)" by (auto simp: grown_def)
  have d: "deliverable (carries (int (length (bs @ new))) (block_hash C (last (bs @ new)))) m"
    using message_fits_inv [OF new] assms(3) s by simp
  have "n' = n1 \<or> (let (r, n2) = call_engine (handle C m) n1 in apply_locked C r n2) = Some (None, n')"
    using assms(1) \<open>x = None\<close> unfolding on_message_def s Let_def by (auto split: option.splits if_splits)
  then have "grown C n' (bs @ new)"
    using grown_refl [OF new] called_apply_inv [OF _ new handle_at [OF _ d]] by blast
  then show ?thesis by (rule grown_more)
qed

lemma step_inv:
  assumes "node_step C n i = Some (None, n')" "inv_at C n bs" "input_fits C n i"
  shows "grown C n' bs"
proof (cases i)
  case (Enqueue m)
  then have "inv_at C n' bs"
    using assms(1) by (intro inv_at_cong [OF assms(2)]) (auto simp: enqueue_inbound_def split: if_splits)
  then show ?thesis by (rule grown_refl)
next
  case (WorkerTakes fetch)
  have "inv_at C (n\<lparr>n_inbox := ms\<rparr>) bs" for ms by (rule inv_at_cong [OF assms(2)]) simp_all
  then show ?thesis
    using WorkerTakes assms(1,3) on_message_inv grown_refl [OF assms(2)] by (auto split: list.splits)
next
  case (TimerFires start)
  then have "round_timer C start n = Some (None, n')" using assms(1) by simp
  then show ?thesis
  proof (cases rule: round_timer_cases)
    case (fired r m)
    have i: "inv_at C (n\<lparr>n_metrics := observe_timeout (n_metrics n)\<rparr>) bs" by (rule inv_at_cong [OF assms(2)]) simp_all
    obtain m' where m': "apply_locked C r m = Some (None, m')" "n' = m'\<lparr>n_metrics := observe_round (node_round m') (n_metrics m')\<rparr>"
      using fired(2) by (cases "apply_locked C r m") (auto split: if_splits)
    have "grown C m' bs" using called_apply_inv [OF _ i on_timeout_at, of m'] fired(1) m'(1) by simp
    then obtain new where "inv_at C m' (bs @ new)" by (auto simp: grown_def)
    then have "inv_at C n' (bs @ new)" by (rule inv_at_cong) (simp_all add: m'(2))
    then show ?thesis by (auto simp: grown_def)
  qed (use grown_refl [OF assms(2)] in simp)
qed (use assms ingest_records_inv ingest_changes_inv apply_pushed_inv repropose_inv on_message_inv
      called_apply_inv [OF _ assms(2) on_timeout_at] in
      \<open>auto simp: submit_records_def receive_records_def submit_validator_change_def receive_validator_changes_def
         ingest_block_def tick_def force_timeout_def\<close>)

lemma run_inv:
  "run_node C n is = Some (None, n') \<Longrightarrow> inv_at C n bs \<Longrightarrow> run_fits C n is \<Longrightarrow> grown C n' bs"
proof (induction "is" arbitrary: n bs)
  case (Cons i "is")
  obtain m where m: "node_step C n i = Some (None, m)" "run_node C m is = Some (None, n')"
    using Cons.prems(1) by (auto split: option.splits)
  obtain new where "inv_at C m (bs @ new)" using step_inv [OF m(1) Cons.prems(2)] Cons.prems(3) by (auto simp: grown_def)
  then have "grown C n' (bs @ new)" using Cons.IH [OF m(2)] Cons.prems(3) m(1) by auto
  then show ?case by (rule grown_more)
qed (auto intro: grown_refl)

end
