(* ===== verification/Node_Properties.thy ===== *)
theory Node_Properties
  imports Node_Runs
begin

text \<open>
  The properties of the node: what its chain is after any run, that it returns, that it only
  appends, what a restart and a synchronisation give, and where the code falls short: the
  contents of pushed and fetched blocks are not checked against the header, a block that
  cannot be applied is stored first, and records can be stored twice.
\<close>

section \<open>Starting\<close>

lemma make_node_start:
  assumes "make_node C key V fits [] now reads store max_inbox = Inr n" "ed25519_correct C" "private_ok key"
    and "store_upto 0 store"
  shows "inv_at C n [genesis_block C (Some (vs_validators V)) ZERO_HASH 0] \<and> n_private_key n = key \<and>
    n_inbox n = [] \<and> n_max_inbox n = max_inbox"
proof -
  let ?g = "genesis_block C (Some (vs_validators V)) ZERO_HASH 0"
  obtain rows S m where r: "repo_append C fits [] ?g = Inr rows" and S: "derive_validator_set C (validator_changes ?g) = Inr S"
    and m: "new_engine C m = (None, n)" "n_repo m = rows" "n_active m = S" "n_private_key m = key" "n_journal_store m = store"
      "n_inbox m = []" "n_max_inbox m = max_inbox"
  proof -
    obtain rows where r: "repo_append C fits [] ?g = Inr rows"
      using assms(1) by (auto simp: make_node_def bindr_Inr_iff repo_height_def split: sum.splits)
    have st: "repo_stores C rows [?g]" using repo_append_Inr [OF _ r, of "[]"] by simp
    show thesis
      using assms(1) r sql.load_all_eq [OF st]
      by (auto simp: make_node_def bindr_Inr_iff repo_height_def split: sum.splits prod.splits option.splits intro!: that)
  qed
  have st: "repo_stores C (n_repo m) [?g]" using repo_append_Inr [OF _ r, of "[]"] m(2) by simp
  have "engine_at C n (int (length [?g])) (block_hash C (last [?g])) \<and> n_repo n = n_repo m \<and> n_active n = S \<and> n_private_key n = key"
    using new_engine_next [OF assms(2) _ _ st _ _ m(1)] m assms(3,4) derive_vs_ok [OF S] by simp
  then show ?thesis
    using assms(2,3) st S derive_vs_ok [OF S] new_engine_inbox [OF m(1)] m(6,7) by (simp add: inv_at_def final_chain_def)
qed

lemma inv_at_engine_next: "inv_at C n bs \<Longrightarrow> engine_next C n bs"
  by (auto simp: inv_at_def engine_at_def engine_next_def runs_at_def on_tip_def static_def engine_ok_def
      setup_ok_def n_me_def e_me_def split: option.splits)

lemma follow_apply_blocks:
  "follow C S bs = Some S' \<Longrightarrow> apply_blocks (apply_changes C) S (map validator_changes bs) = Inr S'"
  by (induction C S bs rule: follow.induct) (auto split: if_splits sum.splits)

lemma final_chain_derive:
  assumes "final_chain C bs S" "\<forall>b \<in> set bs. list_all (change_ok C) (validator_changes b)"
  shows "derive_validator_set C (concat (map validator_changes bs)) = Inr S"
proof -
  obtain g rest where bs: "bs = g # rest" using assms(1) by (cases bs) (auto simp: final_chain_def)
  obtain S0 where S0: "derive_validator_set C (validator_changes g) = Inr S0" "follow C S0 rest = Some S"
    using assms(1) bs by (auto simp: final_chain_def)
  show ?thesis
    using chain_set.derive_blocks [OF S0(1) _ follow_apply_blocks [OF S0(2)]] assms(2) bs by (auto simp: list_all_iff)
qed

lemma new_engine_overwrites:
  "new_engine C (n\<lparr>n_engine := e\<rparr>) = (None, n') \<Longrightarrow> new_engine C n = (None, n')"
  by (auto simp: new_engine_def Let_def n_me_def split: sum.splits option.splits if_splits)

lemma restart_inv:
  assumes inv: "inv_at C n bs" and ok: "\<forall>b \<in> set bs. list_all (change_ok C) (validator_changes b)"
  shows "\<exists>n'. make_node C (n_private_key n) V fits (n_repo n) now reads (n_journal_store n) max_inbox = Inr n' \<and>
    inv_at C n' bs \<and> n_active n' = n_active n"
proof -
  have st: "repo_stores C (n_repo n) bs" "bs \<noteq> []" and fc: "final_chain C bs (n_active n)"
    using inv by (auto simp: inv_at_def final_chain_def)
  let ?m = "\<lparr>n_private_key = n_private_key n, n_genesis_validators = V, n_fits = fits, n_repo = n_repo n, n_now_ms = now,
      n_clock_reads = reads, n_journal_store = n_journal_store n, n_pending = [], n_pending_changes = [],
      n_mempool_seen = [], n_inbox = [], n_max_inbox = max_inbox, n_active = n_active n, n_engine = None, n_out = [],
      n_metrics = initial_metrics\<rparr>"
  have "inv_at C (?m\<lparr>n_engine := n_engine n\<rparr>) bs" by (rule inv_at_cong [OF inv]) simp_all
  then obtain n' where n': "new_engine C (?m\<lparr>n_engine := n_engine n\<rparr>) = (None, n')" "inv_at C n' bs"
    using new_engine_same by (metis prod.collapse)
  have "new_engine C ?m = (None, n')" by (rule new_engine_overwrites [OF n'(1)])
  moreover have "\<not> repo_height (n_repo n) < 0" using repo_height_stores [OF st(1)] st(2) by simp
  ultimately have "make_node C (n_private_key n) V fits (n_repo n) now reads (n_journal_store n) max_inbox = Inr n'"
    using sql.load_all_eq [OF st(1)] final_chain_derive [OF fc ok] by (simp add: make_node_def)
  moreover have "n_active n' = n_active n" using new_engine_frame(5) [of C "?m\<lparr>n_engine := n_engine n\<rparr>"] n'(1) by simp
  ultimately show ?thesis using n'(2) by blast
qed


lemma append_final:
  assumes inv: "inv_at C n bs" and fc: "final_chain C (bs @ b # new) S" and i: "block_index b = int (length bs)"
    and h: "distinct (map (block_hash C) (bs @ b # new))" and f: "n_fits n (block_index b)" "n_fits n (bh_timestamp (header b))"
  shows "\<exists>m. append_and_advance C b n = (None, m) \<and> inv_at C m (bs @ [b]) \<and> n_fits m = n_fits n \<and> n_out m = n_out n \<and>
    previous_hash (header b) = block_hash C (last bs) \<and> verify_finality C b (n_active n)"
proof -
  have st: "repo_stores C (n_repo n) bs" "bs \<noteq> []" and c: "ed25519_correct C" "private_ok (n_private_key n)" "vs_ok (n_active n)"
    and ea: "engine_at C n (int (length bs)) (block_hash C (last bs))" and fn: "final_chain C bs (n_active n)"
    using inv by (auto simp: inv_at_def final_chain_def)
  have p: "previous_hash (header b) = block_hash C (last bs)"
    using fc st(2) by (auto simp: final_chain_def successively_append_iff)
  have "follow C (n_active n) (b # new) = Some S"
    using fc fn st(2) by (auto simp: final_chain_def follow_append simp del: follow.simps)
  then have v: "verify_finality C b (n_active n)"
    and S': "\<exists>S'. (if validator_changes b = [] then Inr (n_active n) else apply_changes C (n_active n) (validator_changes b)) = Inr S'"
    by (auto split: if_splits sum.splits)
  obtain rows where rows: "repo_append C (n_fits n) (n_repo n) b = Inr rows"
    using repo_append_iff [OF st(1), of "n_fits n" b] i f h by auto
  have rs: "repo_stores C rows (bs @ [b])" using repo_append_Inr [OF st(1) rows] by simp
  have up: "store_upto (int (length (bs @ [b])) - 1) (prune_below (n_journal_store n) (block_index b + 1))"
    using ea attached_upto [of "n_journal_store n"]
    by (cases "n_journal_store n") (auto simp: engine_at_def runs_at_def split: option.splits)
  obtain x m where m: "append_and_advance C b n = (x, m)" by fastforce
  then have "x = None \<and> n_fits m = n_fits n \<and> n_out m = n_out n"
  proof (cases rule: append_and_advance_cases)
    case (stored rows' n2)
    have n2: "n_repo n2 = rows" "n_private_key n2 = n_private_key n" "n_active n2 = n_active n" "n_fits n2 = n_fits n"
      "n_out n2 = n_out n" "n_journal_store n2 = prune_below (n_journal_store n) (block_index b + 1)"
      using stored(1,2) rows by (simp_all add: forget_committed_def Let_def)
    have ne: "x = None \<and> n_fits k = n_fits n3 \<and> n_out k = n_out n3"
      if "new_engine C n3 = (x, k)" "vs_ok (n_active n3)" "n_repo n3 = n_repo n2" "n_private_key n3 = n_private_key n2"
        "n_journal_store n3 = n_journal_store n2" for n3 k
      using new_engine_next [OF c(1) _ that(2) _ _ _ that(1), of "bs @ [b]"] new_engine_frame(7,8) [of C n3] that n2 rs up c(2) by auto
    from stored(3) show ?thesis
    proof (elim disjE exE conjE)
      fix k \<mu> assume "new_engine C n2 = (x, k)" "m = k\<lparr>n_metrics := \<mu>\<rparr>"
      then show ?thesis using ne [of n2] n2 c(3) by simp
    next
      fix k \<mu> T assume "apply_changes C (n_active n) (validator_changes b) = Inr T" "new_engine C (n2\<lparr>n_active := T\<rparr>) = (x, k)"
        "m = k\<lparr>n_metrics := \<mu>\<rparr>"
      then show ?thesis using ne [of "n2\<lparr>n_active := T\<rparr>"] n2 apply_changes_vs_ok by simp
    qed (use S' in auto)
  qed (use rows in simp)
  then show ?thesis using append_and_advance_inv [OF inv _ p v] m p v by auto
qed


section \<open>The demonstration node\<close>

definition solo_validators :: validator_set where
  "solo_validators = \<lparr>vs_validators = [private_public short_crypto (demo_key (CHR ''a''))]\<rparr>"

definition solo_on :: "repo \<Rightarrow> node_error + node" where
  \<comment> \<open>a node that is the only validator, on the given repository\<close>
  "solo_on rows = make_node short_crypto (demo_key (CHR ''a'')) solo_validators (\<lambda>_. True) rows
     (\<lambda>k. 10 + 10 * int (length rows) + int k) 0 NullJournalStore 2"

definition solo :: node where
  "solo = (case solo_on [] of Inr n \<Rightarrow> n | Inl _ \<Rightarrow> undefined)"

definition completed :: "outcome option \<Rightarrow> (node \<Rightarrow> bool) \<Rightarrow> bool" where
  \<comment> \<open>an operation returned without an exception, in such a state\<close>
  "completed out P = (case out of Some (None, n) \<Rightarrow> P n | _ \<Rightarrow> False)"

lemma completedD: "completed out P \<Longrightarrow> \<exists>n. out = Some (None, n) \<and> P n"
  by (auto simp: completed_def split: option.splits)

definition block_with :: "repo \<Rightarrow> int \<Rightarrow> (block \<Rightarrow> bool) \<Rightarrow> bool" where
  "block_with rows i P = (case repo_get rows i of Inr (Some b) \<Rightarrow> P b | _ \<Rightarrow> False)"

lemma block_withD: "block_with rows i P \<Longrightarrow> \<exists>b. repo_get rows i = Inr (Some b) \<and> P b"
  by (auto simp: block_with_def split: sum.splits option.splits)

lemma solo_made: "solo_on [] = Inr solo"
proof -
  have "(case solo_on [] of Inr _ \<Rightarrow> True | Inl _ \<Rightarrow> False)" by code_simp
  then show ?thesis by (auto simp: solo_def split: sum.splits)
qed

lemma solo_key: "n_private_key solo = demo_key (CHR ''a'')"
  by code_simp

lemma solo_inv: "inv_at short_crypto solo [genesis_block short_crypto (Some (vs_validators solo_validators)) ZERO_HASH 0]"
  "n_inbox solo = []" "n_max_inbox solo = 2"
  using make_node_start [OF solo_made [unfolded solo_on_def] short_crypto_correct demo_key_ok] by simp_all

definition signed_demo :: integrity_record where
  "signed_demo = signed short_crypto demo_record (demo_key (CHR ''a''))"


section \<open>Properties\<close>

text \<open>C1: the chain a node holds. Start a node on an empty repository and let anything happen
  to it: records and changes submitted or gossiped, consensus messages, pushed blocks,
  timeouts, in any order and with any contents. As long as no operation raised, its repository
  holds blocks numbered from 0, the first being the genesis block of the configured set, and
  every later one has a finality certificate of the validator set that the blocks before it
  define. The active set is the one the whole chain defines, and the node runs an engine, for
  the next height and on the last hash, exactly if it is a member. If moreover the blocks that
  votes, round changes and their certificates carried were for the node's tip
  (\<open>run_fits\<close>; the engine does not check that of a block it proposes again from a round-change
  certificate), each block names the hash of the one before.\<close>

theorem node_chain_final:
  assumes "make_node C key V fits [] now reads store max_inbox = Inr n0" "ed25519_correct C" "private_ok key"
    and "store_upto 0 store" "run_node C n0 is = Some (None, n)"
  shows "\<exists>g bs S0. repo_load_all (n_repo n) = Inr (g # bs) \<and> (\<forall>i < length (g # bs). block_index ((g # bs) ! i) = int i) \<and>
    g = genesis_block C (Some (vs_validators V)) ZERO_HASH 0 \<and> derive_validator_set C (validator_changes g) = Inr S0 \<and>
    follow C S0 bs = Some (n_active n) \<and> node_height n = int (length bs) \<and>
    is_validator n = contains (n_active n) (n_me C n) \<and>
    (\<forall>e. n_engine n = Some e \<longrightarrow>
       static e = (n_active n, n_private_key n, int (length bs) + 1, block_hash C (last (g # bs)))) \<and>
    (run_fits C n0 is \<longrightarrow> successively (\<lambda>a b. previous_hash (header b) = block_hash C a) (g # bs))"
proof -
  let ?g = "genesis_block C (Some (vs_validators V)) ZERO_HASH 0"
  have inv: "inv_at C n0 [?g]" using make_node_start [OF assms(1-4)] by simp
  then have st0: "repo_stores C (n_repo n0) [?g]" and S0: "derive_validator_set C (validator_changes ?g) = Inr (n_active n0)"
    by (auto simp: inv_at_def final_chain_def)
  obtain bs where bs: "repo_stores C (n_repo n) (?g # bs)" "follow C (n_active n0) bs = Some (n_active n)" "engine_next C n (?g # bs)"
    using advancing.ran [OF assms(5)] st0 inv_at_engine_next [OF inv] unfolding advances_def by fastforce
  have "successively (\<lambda>a b. previous_hash (header b) = block_hash C a) (?g # bs)" if fits: "run_fits C n0 is"
  proof -
    obtain new where "inv_at C n ([?g] @ new)" using run_inv [OF assms(5) inv fits] by (auto simp: grown_def)
    then have "final_chain C (?g # new) (n_active n)" "new = bs"
      using sql.load_all_eq [OF bs(1)] sql.load_all_eq [of C "n_repo n" "[?g] @ new"] by (auto simp: inv_at_def)
    then show ?thesis by (simp add: final_chain_def)
  qed
  moreover have "is_validator n = contains (n_active n) (n_me C n) \<and> (\<forall>e. n_engine n = Some e \<longrightarrow>
      static e = (n_active n, n_private_key n, int (length bs) + 1, block_hash C (last (?g # bs))))"
    using bs(3) by (auto simp: engine_next_def is_validator_def split: option.splits)
  ultimately show ?thesis
    using sql.load_all_eq [OF bs(1)] sql.height_eq [OF bs(1)] bs S0
    by (intro exI [of _ ?g] exI [of _ bs] exI [of _ "n_active n0"]) (simp add: node_height_def repo_stores_def del: successively.simps)
qed

theorem node_chain_final_witness:
  "\<exists>n g b S0. run_node short_crypto solo [SubmitRecords [demo_record], Tick] = Some (None, n) \<and>
     repo_load_all (n_repo n) = Inr [g, b] \<and> follow short_crypto S0 [b] = Some (n_active n) \<and>
     previous_hash (header b) = block_hash short_crypto g"
proof -
  have "completed (run_node short_crypto solo [SubmitRecords [demo_record], Tick]) (\<lambda>n. node_height n = 1)" by code_simp
  then obtain n where n: "run_node short_crypto solo [SubmitRecords [demo_record], Tick] = Some (None, n)" "node_height n = 1"
    by (blast dest: completedD)
  have fits: "run_fits short_crypto solo [SubmitRecords [demo_record], Tick]"
    by (simp split: option.splits)
  obtain g bs S0 where r: "repo_load_all (n_repo n) = Inr (g # bs)" "follow short_crypto S0 bs = Some (n_active n)"
    "length bs = 1" "successively (\<lambda>a b. previous_hash (header b) = block_hash short_crypto a) (g # bs)"
    using node_chain_final [OF solo_made [unfolded solo_on_def] short_crypto_correct demo_key_ok _ n(1)] n(2) fits
    by (auto simp del: successively.simps follow.simps)
  moreover from r(3) obtain b where "bs = [b]" by (auto simp: length_Suc_conv)
  ultimately show ?thesis
    using n(1) by (intro exI [of _ n] exI [of _ g] exI [of _ b] exI [of _ S0]) (simp del: run_node.simps follow.simps)
qed

text \<open>C10: every operation of the node returns, from any state. In particular the loop that
  commits a block and lets the next engine propose at once does not go on for ever. It needs
  only that signatures verify under the key that made them.\<close>

theorem node_operations_return:
  assumes "ed25519_correct C" "private_ok (n_private_key n)"
  shows "\<exists>x n'. run_node C n is = Some (x, n')"
  using run_returns [OF assms, of "is"] by auto

theorem node_operations_return_witness:
  "\<exists>x n'. run_node short_crypto solo [SubmitRecords [demo_record], ForceTimeout, SubmitRecords [demo_record]] = Some (x, n')"
  by (rule node_operations_return) (simp_all add: short_crypto_correct solo_key demo_key_ok)

text \<open>C11: history is never rewritten. Whatever happens to a node, exceptions included, every
  block it has stored stays where it is; blocks are only added at the end. And it remembers:
  the content of every record in an added block is marked as seen, and stays marked.\<close>

theorem node_append_only:
  assumes "repo_stores C (n_repo n) bs" "run_node C n is = Some (x, n')"
  shows "\<exists>new. repo_load_all (n_repo n') = Inr (bs @ new) \<and>
    (\<forall>i < length bs. repo_get (n_repo n') (int i) = Inr (Some (bs ! i))) \<and>
    set (n_mempool_seen n) \<union> (\<Union>b \<in> set new. content_key C ` set (records b)) \<subseteq> set (n_mempool_seen n')"
proof -
  obtain new where new: "repo_stores C (n_repo n') (bs @ new)" "set (n_mempool_seen n) \<subseteq> set (n_mempool_seen n')"
    "\<forall>b \<in> set new. content_key C ` set (records b) \<subseteq> set (n_mempool_seen n')"
    using growing.ran [OF assms(2)] assms(1) by (auto simp: extends_def)
  have "repo_get (n_repo n') (int i) = Inr (Some (bs ! i))" if "i < length bs" for i
    using sql.get_eq [OF new(1), of "int i"] that by (simp add: nth_append)
  moreover have "(\<Union>b \<in> set new. content_key C ` set (records b)) \<subseteq> set (n_mempool_seen n')" using new(3) by blast
  ultimately show ?thesis using sql.load_all_eq [OF new(1)] new(2) by (intro exI [of _ new]) simp
qed

theorem node_append_only_witness:
  "\<exists>n' new. run_node short_crypto solo [SubmitRecords [demo_record]] = Some (None, n') \<and>
     repo_load_all (n_repo n')
       = Inr ([genesis_block short_crypto (Some (vs_validators solo_validators)) ZERO_HASH 0] @ new)"
proof -
  have "(case run_node short_crypto solo [SubmitRecords [demo_record]] of Some (None, n) \<Rightarrow> True | _ \<Rightarrow> False)" by code_simp
  then obtain n where n: "run_node short_crypto solo [SubmitRecords [demo_record]] = Some (None, n)"
    by (auto split: option.splits)
  show ?thesis using node_append_only [OF _ n] solo_inv(1) n by (fastforce simp: inv_at_def)
qed


text \<open>C12: a restart loses nothing of the chain. Take a node that was started on an empty
  repository and has run without an exception, with messages whose carried blocks were for its
  tip (\<open>run_fits\<close>). If the validator changes on its chain spell their keys canonically, a node
  started on its repository and its journal, with the same key, has the same active validator
  set, and is again in a state from which the chain stays finalized.\<close>

theorem node_restart_agrees:
  assumes "make_node C key V fits [] now reads store max_inbox = Inr n0" "ed25519_correct C" "private_ok key"
    and "store_upto 0 store" "run_fits C n0 is" "run_node C n0 is = Some (None, n)"
    and "repo_load_all (n_repo n) = Inr bs" "\<forall>b \<in> set bs. list_all (change_ok C) (validator_changes b)"
  shows "\<exists>n'. make_node C key V fits' (n_repo n) now' reads' (n_journal_store n) max' = Inr n' \<and>
    n_active n' = n_active n \<and> inv_at C n' bs"
proof -
  obtain cs where inv: "inv_at C n cs"
    using run_inv [OF assms(6) conjunct1 [OF make_node_start [OF assms(1-4)]] assms(5)] by (auto simp: grown_def)
  have "cs = bs" using sql.load_all_eq [of C "n_repo n" cs] inv assms(7) by (simp add: inv_at_def)
  moreover have "n_private_key n0 = key"
    using make_node_start [OF assms(1-4)] by simp
  then have "n_private_key n = key" using growing.ran [OF assms(6)] by (simp add: extends_def)
  ultimately show ?thesis using restart_inv [OF inv] assms(8) by blast
qed

theorem node_restart_agrees_witness:
  "\<exists>n n'. run_node short_crypto solo [SubmitRecords [demo_record]] = Some (None, n) \<and>
     solo_on (n_repo n) = Inr n' \<and> n_active n' = n_active n"
proof -
  have "completed (run_node short_crypto solo [SubmitRecords [demo_record]]) (\<lambda>n.
      n_journal_store n = NullJournalStore \<and> (case repo_load_all (n_repo n) of Inl _ \<Rightarrow> False
        | Inr bs \<Rightarrow> list_all (\<lambda>b. list_all (change_ok short_crypto) (validator_changes b)) bs))" by code_simp
  then obtain n bs where n: "run_node short_crypto solo [SubmitRecords [demo_record]] = Some (None, n)"
    "n_journal_store n = NullJournalStore" "repo_load_all (n_repo n) = Inr bs"
    "\<forall>b \<in> set bs. list_all (change_ok short_crypto) (validator_changes b)"
    by (drule_tac completedD) (fastforce simp: list_all_iff simp del: run_node.simps split: sum.splits)
  have fits: "run_fits short_crypto solo [SubmitRecords [demo_record]]" by (simp split: option.splits)
  show ?thesis
    using node_restart_agrees [OF solo_made [unfolded solo_on_def] short_crypto_correct demo_key_ok _ fits n(1,3,4),
        of "\<lambda>_. True" "\<lambda>k. 10 + 10 * int (length (n_repo n)) + int k" 0 2] n(1,2)
    unfolding solo_on_def by (simp del: run_node.simps) blast
qed

text \<open>C13: what a pushed block contains is not checked. Take any block that a node would accept
  from a peer and replace its records and validator changes by anything else, keeping header
  and seals: the node accepts and stores the changed block, because finality covers the header
  and \<open>ingest_block\<close> never compares the Merkle root in it with the contents.\<close>

theorem pushed_contents_unchecked:
  assumes "inv_at C n bs" "block_index b = int (length bs)" "previous_hash (header b) = block_hash C (last bs)"
    and "verify_finality C b (n_active n)" "block_hash C b \<notin> block_hash C ` set bs"
    and "n_fits n (block_index b)" "n_fits n (bh_timestamp (header b))"
  shows "\<exists>x n'. ingest_block C (b\<lparr>records := rs, validator_changes := cs\<rparr>) n = Some (x, n') \<and>
    repo_get (n_repo n') (block_index b) = Inr (Some (b\<lparr>records := rs, validator_changes := cs\<rparr>))"
proof -
  let ?b = "b\<lparr>records := rs, validator_changes := cs\<rparr>"
  have st: "repo_stores C (n_repo n) bs" "bs \<noteq> []" and c: "ed25519_correct C" "private_ok (n_private_key n)"
    using assms(1) by (auto simp: inv_at_def final_chain_def)
  have same: "block_hash C ?b = block_hash C b" "block_index ?b = block_index b" "verify_finality C ?b (n_active n)"
    using assms(4) by (simp_all add: block_hash_def block_index_def verify_finality_def)
  obtain rows where rows: "repo_append C (n_fits n) (n_repo n) ?b = Inr rows"
    using repo_append_iff [OF st(1), of "n_fits n" ?b] assms(2,5-7) same by auto
  obtain x m where m: "append_and_advance C ?b n = (x, m)" by fastforce
  have mr: "n_repo m = rows"
    using m rows new_engine_repo [of C]
    by (cases rule: append_and_advance_cases) (auto simp: forget_committed_def Let_def dest!: arg_cong [where f = snd])
  have eq: "ingest_block C ?b n = (case x of None \<Rightarrow> repropose C (send [OnCommit ?b] m) | Some e \<Rightarrow> Some (Some e, m))"
    using sql.latest_eq [OF st(1)] st(2) repo_height_stores [OF st(1)] assms(2,3) same m
    by (simp add: ingest_block_def apply_pushed_block_locked_def split: option.splits)
  obtain y n' where n': "ingest_block C ?b n = Some (y, n')"
    using pushed_returns [OF c] unfolding ingest_block_def by fastforce
  have "extends C m n'"
    using n' eq growing.reproposed [of C "send [OnCommit ?b] m"] growing.trans [OF growing.sends] growing.refl
    by (auto split: option.splits)
  then obtain new where "repo_stores C (n_repo n') ((bs @ [?b]) @ new)"
    using repo_append_Inr [OF st(1) rows] mr by (auto simp: extends_def)
  from sql.get_eq [OF this] show ?thesis using n' assms(2) by (auto simp: nth_append)
qed

definition pushed_demo :: block where
  "pushed_demo = sole_seal short_crypto (demo_key (CHR ''a''))
     (block_create short_crypto 1 (block_hash short_crypto
        (genesis_block short_crypto (Some (vs_validators solo_validators)) ZERO_HASH 0)) 7 ''p'' [demo_record] [])"

definition solo_genesis :: block where
  "solo_genesis = genesis_block short_crypto (Some (vs_validators solo_validators)) ZERO_HASH 0"

lemma pushed_demo_header:
  "block_index pushed_demo = 1" "previous_hash (header pushed_demo) = block_hash short_crypto solo_genesis"
  "validator_changes pushed_demo = []"
  by (simp_all add: pushed_demo_def sole_seal_def block_index_def block_create_def solo_genesis_def)

lemma pushed_demo_final:
  "verify_finality short_crypto pushed_demo (n_active solo)"
  "block_hash short_crypto pushed_demo \<noteq> block_hash short_crypto solo_genesis"
  "n_fits solo 1" "n_fits solo (bh_timestamp (header pushed_demo))"
  by code_simp+

lemma pushed_demo_chain:
  "inv_at short_crypto solo [solo_genesis]" "final_chain short_crypto ([solo_genesis] @ [pushed_demo]) (n_active solo)"
proof -
  show inv: "inv_at short_crypto solo [solo_genesis]" using solo_inv(1) by (simp add: solo_genesis_def)
  have "follow short_crypto (n_active solo) [pushed_demo] = Some (n_active solo)"
    using pushed_demo_final(1) pushed_demo_header(3) by simp
  then show "final_chain short_crypto ([solo_genesis] @ [pushed_demo]) (n_active solo)"
    using final_chain_snoc [of short_crypto "[solo_genesis]" "n_active solo" pushed_demo] inv pushed_demo_header(2)
    by (simp add: inv_at_def del: follow.simps)
qed

theorem pushed_contents_unchecked_witness:
  "\<exists>x n'. ingest_block short_crypto (pushed_demo\<lparr>records := [], validator_changes := []\<rparr>) solo = Some (x, n') \<and>
     repo_get (n_repo n') 1 = Inr (Some (pushed_demo\<lparr>records := [], validator_changes := []\<rparr>))"
  using pushed_contents_unchecked [OF solo_inv(1), of pushed_demo "[]" "[]"] pushed_demo_header pushed_demo_final
  by (simp add: solo_genesis_def)

lemma unappliable_changes:
  assumes vs: "vs_ok S" and fc: "final_chain C bs S"
    and "(\<exists>c \<in> set (validator_changes b). vc_action c = ADD \<and> (\<forall>k. public_from_hex C (vc_validator c) \<noteq> Inr k)) \<or>
      (\<forall>a \<in> set (bs @ [b]). list_all (change_ok C) (validator_changes a)) \<and> change_members C (members S) (validator_changes b) = {}"
  shows "validator_changes b \<noteq> [] \<and> apply_changes C S (validator_changes b) = Inl ValueError \<and>
    derive_validator_set C (concat (map validator_changes (bs @ [b]))) = Inl ValueError"
  using assms(3)
proof (elim disjE bexE conjE)
  fix c assume "c \<in> set (validator_changes b)" "vc_action c = ADD" "\<forall>k. public_from_hex C (vc_validator c) \<noteq> Inr k"
  moreover from this have "apply_keys C keys cs = Inl ValueError" if "set (validator_changes b) \<subseteq> set cs" for keys cs
    using apply_keys_malformed [of c cs C keys] that by blast
  ultimately show ?thesis by (auto simp: apply_changes_def derive_validator_set_def)
next
  assume ok: "\<forall>a \<in> set (bs @ [b]). list_all (change_ok C) (validator_changes a)"
    and none: "change_members C (members S) (validator_changes b) = {}"
  have "apply_changes C S (validator_changes b) = Inl ValueError"
    using apply_changes_members [OF vs, of "validator_changes b" C] ok none by (simp add: set_of_members_def list_all_iff)
  moreover have "derive_validator_set C (concat (map validator_changes bs)) = Inr S"
    using final_chain_derive [OF fc] ok by simp
  moreover have "validator_changes b \<noteq> []" using none vs by (auto simp: vs_ok_def members_def)
  ultimately show ?thesis
    using chain_set.derive_append [of C "concat (map validator_changes bs)" S "validator_changes b"] ok
    by (auto simp: list_all_iff)
qed

text \<open>C14: a block that cannot be applied is stored before that is noticed, and the node does
  not recover. Take any finalized block that extends the chain of a node in a regular state, with
  a new hash and numbers the database holds. If its validator changes add a key that cannot be
  read, or if, with all changes on the chain spelled canonically, they remove every member, then
  \<open>ingest_block\<close> raises, the block stays in the repository, and no start on this repository
  succeeds, whatever the key, the configured set, the clock, the journal and the limits. The
  changes are not covered by the seals, so any peer can put them into a finalized block.\<close>

theorem unappliable_block_bricks:
  assumes "inv_at C n bs" "block_index b = int (length bs)" "previous_hash (header b) = block_hash C (last bs)"
    and "verify_finality C b (n_active n)" "block_hash C b \<notin> block_hash C ` set bs"
    and "n_fits n (block_index b)" "n_fits n (bh_timestamp (header b))"
    and "(\<exists>c \<in> set (validator_changes b). vc_action c = ADD \<and> (\<forall>k. public_from_hex C (vc_validator c) \<noteq> Inr k)) \<or>
      (\<forall>a \<in> set (bs @ [b]). list_all (change_ok C) (validator_changes a)) \<and>
        change_members C (members (n_active n)) (validator_changes b) = {}"
  shows "\<exists>n'. ingest_block C b n = Some (Some (Raised ValueError), n') \<and>
    repo_get (n_repo n') (block_index b) = Inr (Some b) \<and>
    (\<forall>key V fits now reads store limit.
       make_node C key V fits (n_repo n') now reads store limit = Inl (Raised ValueError))"
proof -
  have st: "repo_stores C (n_repo n) bs" "bs \<noteq> []" and vs: "vs_ok (n_active n)" and fc: "final_chain C bs (n_active n)"
    using assms(1) by (auto simp: inv_at_def final_chain_def)
  have ne: "validator_changes b \<noteq> []" and fails: "apply_changes C (n_active n) (validator_changes b) = Inl ValueError"
      "derive_validator_set C (concat (map validator_changes (bs @ [b]))) = Inl ValueError"
    using unappliable_changes [OF vs fc assms(8)] by simp_all
  obtain rows where rows: "repo_append C (n_fits n) (n_repo n) b = Inr rows"
    using repo_append_iff [OF st(1), of "n_fits n" b] assms(2,5-7) by auto
  obtain x m where m: "append_and_advance C b n = (x, m)" by fastforce
  then have mr: "x = Some (Raised ValueError)" "n_repo m = rows"
    using rows fails ne by (cases rule: append_and_advance_cases; auto simp: forget_committed_def Let_def)+
  have ib: "ingest_block C b n = Some (Some (Raised ValueError), m)"
    using sql.latest_eq [OF st(1)] st(2) repo_height_stores [OF st(1)] assms(2-4) m mr(1)
    by (simp add: ingest_block_def apply_pushed_block_locked_def)
  have sm: "repo_stores C (n_repo m) (bs @ [b])" using repo_append_Inr [OF st(1) rows] mr(2) by simp
  have "make_node C key V fits (n_repo m) now reads store limit = Inl (Raised ValueError)" for key V fits now reads store limit
    using repo_height_stores [OF sm] sql.load_all_eq [OF sm] fails by (simp add: make_node_def)
  then show ?thesis using ib sql.get_eq [OF sm, of "block_index b"] assms(2) by (auto simp: nth_append)
qed

definition removal_demo :: block where
  "removal_demo = pushed_demo\<lparr>validator_changes :=
     [\<lparr>vc_action = REMOVE, vc_validator = public_to_hex (private_public short_crypto (demo_key (CHR ''a'')))\<rparr>]\<rparr>"

theorem unappliable_block_bricks_witness:
  "\<exists>n'. ingest_block short_crypto removal_demo solo = Some (Some (Raised ValueError), n') \<and>
     solo_on (n_repo n') = Inl (Raised ValueError)"
proof -
  have h: "block_index removal_demo = 1" "previous_hash (header removal_demo) = block_hash short_crypto solo_genesis"
    "block_hash short_crypto removal_demo = block_hash short_crypto pushed_demo"
    "verify_finality short_crypto removal_demo (n_active solo)" "n_fits solo (bh_timestamp (header removal_demo))"
    using pushed_demo_header pushed_demo_final
    by (simp_all add: removal_demo_def block_index_def block_hash_def verify_finality_def)
  have ok: "list_all (change_ok short_crypto) (validator_changes solo_genesis)"
    "list_all (change_ok short_crypto) (validator_changes removal_demo)" by code_simp+
  have "vs_validators (n_active solo) = [private_public short_crypto (demo_key (CHR ''a''))]" by code_simp
  moreover have "public_from_hex short_crypto (public_to_hex (private_public short_crypto (demo_key (CHR ''a''))))
      = Inr (private_public short_crypto (demo_key (CHR ''a'')))" by code_simp
  ultimately have "change_members short_crypto (members (n_active solo)) (validator_changes removal_demo) = {}"
    by (simp add: removal_demo_def members_def)
  then show ?thesis
    using unappliable_block_bricks [OF pushed_demo_chain(1), of removal_demo] h ok pushed_demo_final(2,3)
    unfolding solo_on_def by simp blast
qed

text \<open>It happens without a malicious peer: the only validator of a network submits its own
  removal, which the mempool accepts as effective, and finalizes the block itself.\<close>

theorem removing_last_validator_bricks:
  "\<exists>n'. submit_validator_change short_crypto
       \<lparr>vc_action = REMOVE, vc_validator = public_to_hex (private_public short_crypto (demo_key (CHR ''a'')))\<rparr> solo
     = Some (Some (Raised ValueError), n') \<and>
     node_height n' = 1 \<and> solo_on (n_repo n') = Inl (Raised ValueError)"
proof -
  have "(case submit_validator_change short_crypto
      \<lparr>vc_action = REMOVE, vc_validator = public_to_hex (private_public short_crypto (demo_key (CHR ''a'')))\<rparr> solo of
      None \<Rightarrow> False | Some (x, n') \<Rightarrow> x = Some (Raised ValueError) \<and> node_height n' = 1 \<and>
        (case solo_on (n_repo n') of Inl e \<Rightarrow> e = Raised ValueError | Inr _ \<Rightarrow> False))" by code_simp
  then show ?thesis by (simp split: option.splits prod.splits sum.splits)
qed

text \<open>The mempool filter has gaps, and a record can be stored twice. If a batch of records
  contains the same record twice, both copies are queued and stored in one block. And a
  restarted node has forgotten what it stored: it accepts and stores a record again.\<close>

theorem records_stored_twice:
  "(\<exists>n b. receive_records short_crypto [signed_demo, signed_demo] solo = Some (None, n) \<and>
      repo_get (n_repo n) 1 = Inr (Some b) \<and> records b = [signed_demo, signed_demo]) \<and>
   (\<exists>n n' n'' b b'. receive_records short_crypto [signed_demo] solo = Some (None, n) \<and>
      solo_on (n_repo n) = Inr n' \<and> receive_records short_crypto [signed_demo] n' = Some (None, n'') \<and>
      repo_get (n_repo n'') 1 = Inr (Some b) \<and> records b = [signed_demo] \<and>
      repo_get (n_repo n'') 2 = Inr (Some b') \<and> records b' = [signed_demo])"
proof
  have "completed (receive_records short_crypto [signed_demo, signed_demo] solo)
      (\<lambda>n. block_with (n_repo n) 1 (\<lambda>b. records b = [signed_demo, signed_demo]))" by code_simp
  then show "\<exists>n b. receive_records short_crypto [signed_demo, signed_demo] solo = Some (None, n) \<and>
      repo_get (n_repo n) 1 = Inr (Some b) \<and> records b = [signed_demo, signed_demo]"
    by (blast dest: completedD block_withD)
  have "completed (receive_records short_crypto [signed_demo] solo) (\<lambda>n. case solo_on (n_repo n) of Inl _ \<Rightarrow> False
      | Inr n' \<Rightarrow> completed (receive_records short_crypto [signed_demo] n') (\<lambda>n''.
          block_with (n_repo n'') 1 (\<lambda>b. records b = [signed_demo]) \<and>
          block_with (n_repo n'') 2 (\<lambda>b. records b = [signed_demo])))" by code_simp
  then obtain n where n: "receive_records short_crypto [signed_demo] solo = Some (None, n)"
    "case solo_on (n_repo n) of Inl _ \<Rightarrow> False
      | Inr n' \<Rightarrow> completed (receive_records short_crypto [signed_demo] n') (\<lambda>n''.
          block_with (n_repo n'') 1 (\<lambda>b. records b = [signed_demo]) \<and>
          block_with (n_repo n'') 2 (\<lambda>b. records b = [signed_demo]))"
    by (blast dest: completedD)
  then obtain n' where n': "solo_on (n_repo n) = Inr n'"
    "completed (receive_records short_crypto [signed_demo] n') (\<lambda>n''.
          block_with (n_repo n'') 1 (\<lambda>b. records b = [signed_demo]) \<and>
          block_with (n_repo n'') 2 (\<lambda>b. records b = [signed_demo]))"
    by (cases "solo_on (n_repo n)") simp_all
  then show "\<exists>n n' n'' b b'. receive_records short_crypto [signed_demo] solo = Some (None, n) \<and>
      solo_on (n_repo n) = Inr n' \<and> receive_records short_crypto [signed_demo] n' = Some (None, n'') \<and>
      repo_get (n_repo n'') 1 = Inr (Some b) \<and> records b = [signed_demo] \<and>
      repo_get (n_repo n'') 2 = Inr (Some b') \<and> records b' = [signed_demo]"
    using n(1) by (blast dest: completedD block_withD)
qed

text \<open>What was stored is not stored again, as long as the node keeps running. Records with
  the content of a record in a block that was added during the run are dropped on arrival,
  whoever signed them: \<open>receive_records\<close> leaves the node as it is, but for the counter of
  dropped records.\<close>

theorem stored_records_ignored:
  assumes "repo_stores C (n_repo n) bs" "run_node C n is = Some (x, n')" "repo_load_all (n_repo n') = Inr (bs @ new)"
    and "\<forall>r \<in> set rs. \<exists>b \<in> set new. content_key C r \<in> content_key C ` set (records b)"
  shows "\<exists>y k. receive_records C rs n' = Some (y, n'\<lparr>n_metrics := observe_records_dropped k (n_metrics n')\<rparr>)"
proof -
  obtain new' where n: "repo_stores C (n_repo n') (bs @ new')"
    "\<forall>b \<in> set new'. content_key C ` set (records b) \<subseteq> set (n_mempool_seen n')"
    using growing.ran [OF assms(2)] assms(1) by (auto simp: extends_def)
  have "new' = new" using sql.load_all_eq [OF n(1)] assms(3) by simp
  then have seen: "\<forall>r \<in> set rs. content_key C r \<in> set (n_mempool_seen n')" using assms(4) n(2) by blast
  have "set accepted \<subseteq> set rs" if "authentic_records C S rs = Inr accepted" for S accepted
    using that by (induction rs arbitrary: accepted) (fastforce simp: bindr_Inr_iff split: if_splits)+
  then have none: "filter (\<lambda>r. content_key C r \<notin> set (n_mempool_seen n')) accepted = []"
    if "authentic_records C (n_active n') rs = Inr accepted" for accepted
    using that seen by (auto simp: filter_empty_conv)
  show ?thesis
  proof (cases "authentic_records C (n_active n') rs")
    case (Inl e)
    moreover have "n'\<lparr>n_metrics := observe_records_dropped 0 (n_metrics n')\<rparr> = n'" by (simp add: observe_records_dropped_def)
    ultimately have "receive_records C rs n' = Some (Some (Raised e), n'\<lparr>n_metrics := observe_records_dropped 0 (n_metrics n')\<rparr>)"
      by (simp add: receive_records_def ingest_records_def)
    then show ?thesis by blast
  next
    case (Inr accepted)
    then show ?thesis using none [OF Inr] by (simp add: receive_records_def ingest_records_def) blast
  qed
qed

theorem stored_records_ignored_witness:
  "\<exists>n' y k. run_node short_crypto solo [ReceiveRecords [signed_demo]] = Some (None, n') \<and> node_height n' = 1 \<and>
     receive_records short_crypto [signed_demo] n' = Some (y, n'\<lparr>n_metrics := observe_records_dropped k (n_metrics n')\<rparr>)"
proof -
  let ?g = "genesis_block short_crypto (Some (vs_validators solo_validators)) ZERO_HASH 0"
  have st: "repo_stores short_crypto (n_repo solo) [?g]" using solo_inv(1) by (simp add: inv_at_def)
  have "completed (run_node short_crypto solo [ReceiveRecords [signed_demo]]) (\<lambda>n. node_height n = 1 \<and>
      block_with (n_repo n) 1 (\<lambda>b. records b = [signed_demo]))" by code_simp
  then obtain n b where n: "run_node short_crypto solo [ReceiveRecords [signed_demo]] = Some (None, n)" "node_height n = 1"
    "repo_get (n_repo n) 1 = Inr (Some b)" "records b = [signed_demo]" by (blast dest: completedD block_withD)
  obtain new where new: "repo_load_all (n_repo n) = Inr ([?g] @ new)" "repo_stores short_crypto (n_repo n) ([?g] @ new)"
    using growing.ran [OF n(1)] st sql.load_all_eq unfolding extends_def by blast
  have "b \<in> set new"
    using sql.get_eq [OF new(2), of 1] n(3) by (auto split: if_splits)
  then have "\<forall>r \<in> set [signed_demo]. \<exists>b \<in> set new. content_key short_crypto r \<in> content_key short_crypto ` set (records b)"
    using n(4) by force
  then show ?thesis using stored_records_ignored [OF st n(1) new(1)] n(1,2) by blast
qed

text \<open>The inbox is bounded. With a positive limit, the queue of inbound messages never
  holds more than that many, whatever happens to the node, and \<open>enqueue_inbound\<close> refuses a
  message, reporting backpressure, exactly when the queue is full.\<close>

theorem inbox_never_overflows:
  assumes "make_node C key V fits [] now reads store limit = Inr n0" "ed25519_correct C" "private_ok key"
    and "store_upto 0 store" "0 < limit" "run_node C n0 is = Some (x, n)"
  shows "int (length (n_inbox n)) \<le> limit \<and>
    (\<forall>m. enqueue_inbound m n = (if int (length (n_inbox n)) = limit then (False, observe_inbox n)
       else (True, observe_inbox (n\<lparr>n_inbox := n_inbox n @ [m]\<rparr>))))"
proof -
  have "inbox_bounded n0" "n_max_inbox n0 = limit"
    using make_node_start [OF assms(1-4)] assms(5) by (auto simp: inbox_bounded_def)
  then have "int (length (n_inbox n)) \<le> limit" "n_max_inbox n = limit"
    using inbox.ran [OF assms(6)] assms(5) by (auto simp: inbox_step_def inbox_bounded_def)
  then show ?thesis using assms(5) by (auto simp: enqueue_inbound_def)
qed

theorem inbox_never_overflows_witness:
  "\<exists>x n. run_node short_crypto solo (replicate 3 (Enqueue (message_create short_crypto PREPARE 1 0 ''aa''
       (demo_key (CHR ''a'')) None None [] []))) = Some (x, n) \<and> int (length (n_inbox n)) \<le> 2"
proof -
  let ?is = "replicate 3 (Enqueue (message_create short_crypto PREPARE 1 0 ''aa'' (demo_key (CHR ''a'')) None None [] []))"
  obtain x n where n: "run_node short_crypto solo ?is = Some (x, n)"
    using run_returns [OF short_crypto_correct, of solo ?is] solo_key demo_key_ok by auto
  show ?thesis
    using inbox_never_overflows [OF solo_made [unfolded solo_on_def] short_crypto_correct demo_key_ok _ _ n] n by auto
qed

lemma sync_chain:
  assumes "inv_at C n bs" "final_chain C (bs @ new) S" "\<forall>i < length new. fetch (int (length bs + i)) = Inr (Some (new ! i))"
    and "\<forall>i < length new. block_index (new ! i) = int (length bs + i)" "distinct (map (block_hash C) (bs @ new))"
    and "\<forall>b \<in> set new. n_fits n (block_index b) \<and> n_fits n (bh_timestamp (header b))"
  shows "\<exists>n'. sync_locked C fetch (int (length (bs @ new)) - 1) n = (None, n') \<and>
    repo_load_all (n_repo n') = Inr (bs @ new) \<and> n_active n' = S \<and> n_out n' = n_out n"
  using assms
proof (induction new arbitrary: n bs)
  case Nil
  have st: "repo_stores C (n_repo n) bs" using Nil.prems(1) by (simp add: inv_at_def)
  have "n_active n = S" using Nil.prems(1,2) by (auto simp: inv_at_def final_chain_def)
  then show ?case
    using sql.load_all_eq [OF st] sql.height_eq [OF st] by (subst sync_locked.simps) simp
next
  case (Cons b new)
  obtain m where m: "append_and_advance C b n = (None, m)" "inv_at C m (bs @ [b])" "n_fits m = n_fits n" "n_out m = n_out n"
    "previous_hash (header b) = block_hash C (last bs)" "verify_finality C b (n_active n)"
    using append_final [OF Cons.prems(1) Cons.prems(2)] Cons.prems(4-6) by force
  have st: "repo_stores C (n_repo n) bs" "bs \<noteq> []" using Cons.prems(1) by (auto simp: inv_at_def final_chain_def)
  have "fetch (int (length bs)) = Inr (Some b)" "block_index b = int (length bs)" using Cons.prems(3,4) by force+
  then have step: "sync_locked C fetch (int (length (bs @ b # new)) - 1) n = sync_locked C fetch (int (length (bs @ b # new)) - 1) m"
    using sql.height_eq [OF st(1)] sql.latest_eq [OF st(1)] st(2) m by (subst sync_locked.simps) simp
  have shift: "\<forall>i < length new. f (int (length (bs @ [b]) + i)) = g (new ! i)"
    if "\<forall>i < length (b # new). f (int (length bs + i)) = g ((b # new) ! i)" for f g
    using that by (metis Suc_less_eq add_Suc_right add_Suc_shift length_Cons length_append_singleton nth_Cons_Suc)
  have "\<exists>n'. sync_locked C fetch (int (length ((bs @ [b]) @ new)) - 1) m = (None, n') \<and>
      repo_load_all (n_repo n') = Inr ((bs @ [b]) @ new) \<and> n_active n' = S \<and> n_out n' = n_out m"
  proof (rule Cons.IH [OF m(2)])
    show "\<forall>i < length new. fetch (int (length (bs @ [b]) + i)) = Inr (Some (new ! i))" using shift [OF Cons.prems(3)] .
    show "\<forall>i < length new. block_index (new ! i) = int (length (bs @ [b]) + i)"
      using shift [of "\<lambda>x. x" block_index] Cons.prems(4) by simp
  qed (use Cons.prems(2,5,6) m(3) in simp_all)
  then show ?case using step m(4) by simp
qed

end
