(* ===== verification/Network.thy ===== *)
theory Network
  imports Node_Properties
begin

text \<open>
  \<open>InMemoryNetwork\<close> and \<open>InMemoryTransport\<close> of \<open>network/transport.py\<close>: the bus that connects
  nodes within one process. The handlers that are registered are functions on a state of type
  \<open>'w\<close>, which is whatever the handlers close over. A handler gives the exception it raised,
  if any, what its node sent through its transport, and the new state; it may not return. The
  handlers of a cluster of nodes, wired as the node's own operations, are an instance.
\<close>

section \<open>The bus\<close>

type_synonym 'w handler = "fetcher \<Rightarrow> effect \<Rightarrow> 'w \<Rightarrow> (node_error option \<times> effect list \<times> 'w) option"

record 'w network =
  nw_handlers :: "(string, 'w handler) dict"
  nw_getters :: "(string, 'w \<Rightarrow> fetcher) dict"
  nw_record_handlers :: "(string, 'w handler) dict"
  nw_change_handlers :: "(string, 'w handler) dict"
  nw_block_handlers :: "(string, 'w handler) dict"
  nw_partitioned :: "string list"
  nw_queue :: "(string \<times> effect) list"     \<comment> \<open>sender and payload; the kind is the constructor\<close>

definition empty_network :: "'w network" where
  "empty_network = \<lparr>nw_handlers = [], nw_getters = [], nw_record_handlers = [], nw_change_handlers = [],
     nw_block_handlers = [], nw_partitioned = [], nw_queue = []\<rparr>"

definition opt_set :: "string \<Rightarrow> 'w handler option \<Rightarrow> (string, 'w handler) dict \<Rightarrow> (string, 'w handler) dict" where
  "opt_set i h d = (case h of None \<Rightarrow> d | Some f \<Rightarrow> dict_set i f d)"

definition register ::
    "string \<Rightarrow> 'w handler \<Rightarrow> ('w \<Rightarrow> fetcher) \<Rightarrow> 'w handler option \<Rightarrow> 'w handler option \<Rightarrow> 'w handler option
     \<Rightarrow> 'w network \<Rightarrow> 'w network" where
  "register i handler get_block on_records on_block on_changes nw =
     nw\<lparr>nw_handlers := dict_set i handler (nw_handlers nw),
        nw_getters := dict_set i get_block (nw_getters nw),
        nw_record_handlers := opt_set i on_records (nw_record_handlers nw),
        nw_block_handlers := opt_set i on_block (nw_block_handlers nw),
        nw_change_handlers := opt_set i on_changes (nw_change_handlers nw)\<rparr>"

definition enqueue :: "string \<Rightarrow> effect \<Rightarrow> 'w network \<Rightarrow> 'w network" where
  \<comment> \<open>\<open>_enqueue\<close>\<close>
  "enqueue sender e nw =
     (if sender \<notin> set (nw_partitioned nw) then nw\<lparr>nw_queue := nw_queue nw @ [(sender, e)]\<rparr> else nw)"

fun fetch_from :: "string list \<Rightarrow> string \<Rightarrow> 'w \<Rightarrow> int \<Rightarrow> (string, 'w \<Rightarrow> fetcher) dict \<Rightarrow> block option result" where
  "fetch_from partitioned requester w index [] = Inr None"
| "fetch_from partitioned requester w index ((peer, getter) # gs) =
     (if peer = requester \<or> peer \<in> set partitioned then fetch_from partitioned requester w index gs
      else case getter w index of
          Inl e \<Rightarrow> Inl e
        | Inr (Some b) \<Rightarrow> Inr (Some b)
        | Inr None \<Rightarrow> fetch_from partitioned requester w index gs)"

definition net_fetch :: "'w network \<Rightarrow> 'w \<Rightarrow> string \<Rightarrow> fetcher" where
  \<comment> \<open>\<open>_fetch\<close>\<close>
  "net_fetch nw w requester index =
     (if requester \<in> set (nw_partitioned nw) then Inr None
      else fetch_from (nw_partitioned nw) requester w index (nw_getters nw))"

fun transport_send :: "string \<Rightarrow> effect \<Rightarrow> 'w network \<Rightarrow> 'w network" where
  \<comment> \<open>the methods of \<open>InMemoryTransport\<close>; the commit hook sends nothing\<close>
  "transport_send self (Broadcast m) nw = enqueue self (Broadcast m) nw"
| "transport_send self (GossipRecords rs) nw = enqueue self (GossipRecords rs) nw"
| "transport_send self (GossipChanges cs) nw = enqueue self (GossipChanges cs) nw"
| "transport_send self (GossipBlock b) nw = enqueue self (GossipBlock b) nw"
| "transport_send self (OnCommit b) nw = nw"

fun handlers_by_kind :: "effect \<Rightarrow> 'w network \<Rightarrow> (string, 'w handler) dict" where
  "handlers_by_kind (Broadcast _) nw = nw_handlers nw"
| "handlers_by_kind (GossipRecords _) nw = nw_record_handlers nw"
| "handlers_by_kind (GossipChanges _) nw = nw_change_handlers nw"
| "handlers_by_kind (GossipBlock _) nw = nw_block_handlers nw"
| "handlers_by_kind (OnCommit _) nw = []"

datatype bus_error = NotQuiescent | HandlerRaised node_error

fun deliver ::
    "string \<Rightarrow> effect \<Rightarrow> (string, 'w handler) dict \<Rightarrow> 'w network \<Rightarrow> 'w \<Rightarrow> (bus_error option \<times> 'w network \<times> 'w) option" where
  \<comment> \<open>the inner loop of \<open>run_until_idle\<close>\<close>
  "deliver sender e [] nw w = Some (None, nw, w)"
| "deliver sender e ((i, handler) # hs) nw w =
     (if i = sender \<or> i \<in> set (nw_partitioned nw) then deliver sender e hs nw w
      else case handler (net_fetch nw w i) e w of
          None \<Rightarrow> None
        | Some (err, fx, w') \<Rightarrow>
            let nw' = fold (transport_send i) fx nw in
            (case err of
               Some x \<Rightarrow> Some (Some (HandlerRaised x), nw', w')
             | None \<Rightarrow> deliver sender e hs nw' w'))"

fun run_until_idle :: "nat \<Rightarrow> 'w network \<Rightarrow> 'w \<Rightarrow> (bus_error option \<times> 'w network \<times> 'w) option" where
  \<comment> \<open>the argument is \<open>max_steps\<close>, less the steps done\<close>
  "run_until_idle k nw w =
     (case nw_queue nw of
        [] \<Rightarrow> Some (None, nw, w)
      | (sender, e) # queue \<Rightarrow>
          (case k of
             0 \<Rightarrow> Some (Some NotQuiescent, nw, w)
           | Suc k' \<Rightarrow>
               let nw1 = nw\<lparr>nw_queue := queue\<rparr> in
               (case deliver sender e (handlers_by_kind e nw1) nw1 w of
                  None \<Rightarrow> None
                | Some (Some err, nw2, w2) \<Rightarrow> Some (Some err, nw2, w2)
                | Some (None, nw2, w2) \<Rightarrow> run_until_idle k' nw2 w2)))"

declare run_until_idle.simps [simp del]


section \<open>What delivery preserves\<close>

definition handlers_of :: "'w network \<Rightarrow> (string \<times> 'w handler) set" where
  "handlers_of nw = set (nw_handlers nw) \<union> set (nw_record_handlers nw) \<union> set (nw_change_handlers nw) \<union> set (nw_block_handlers nw)"

definition same_wiring :: "'w network \<Rightarrow> 'w network \<Rightarrow> bool" where
  "same_wiring nw nw' \<longleftrightarrow> nw\<lparr>nw_queue := []\<rparr> = nw'\<lparr>nw_queue := []\<rparr>"

lemma same_wiring_simps:
  "same_wiring nw nw' \<Longrightarrow> handlers_of nw' = handlers_of nw \<and> nw_partitioned nw' = nw_partitioned nw \<and>
     nw_getters nw' = nw_getters nw"
  by (cases nw; cases nw') (simp add: same_wiring_def handlers_of_def)

lemma same_wiring_intros:
  "same_wiring nw nw" "same_wiring nw nw' \<Longrightarrow> same_wiring nw' nw'' \<Longrightarrow> same_wiring nw nw''"
  "same_wiring (nw\<lparr>nw_queue := q\<rparr>) nw' \<longleftrightarrow> same_wiring nw nw'" "same_wiring nw (transport_send i e nw)"
proof -
  show "same_wiring nw (transport_send i e nw)" by (cases e) (auto simp: same_wiring_def enqueue_def)
qed (auto simp: same_wiring_def)

lemma same_wiring_fold: "same_wiring nw (fold (transport_send i) fx nw)"
  by (induction fx arbitrary: nw) (auto intro: same_wiring_intros)

lemma handlers_by_kind_subset: "set (handlers_by_kind e nw) \<subseteq> handlers_of nw"
  by (cases e) (auto simp: handlers_of_def)

definition senders_ok :: "'w network \<Rightarrow> bool" where
  "senders_ok nw \<longleftrightarrow> (\<forall>(i, e) \<in> set (nw_queue nw). i \<notin> set (nw_partitioned nw))"

lemma senders_ok_send: "senders_ok nw \<Longrightarrow> senders_ok (transport_send i e nw)"
  by (cases e) (auto simp: senders_ok_def enqueue_def)

lemma senders_ok_fold: "senders_ok nw \<Longrightarrow> senders_ok (fold (transport_send i) fx nw)"
  by (induction fx arbitrary: nw) (auto intro: senders_ok_send)

text \<open>
  A relation on states that every handler of a connected node establishes holds across the
  whole delivery, also one that ends in an exception.
\<close>

locale bus_steps =
  fixes wired :: "string \<Rightarrow> 'w handler \<Rightarrow> bool"    \<comment> \<open>the handlers that may be registered\<close>
    and off :: "string set"                        \<comment> \<open>the partitioned nodes\<close>
    and R :: "'w \<Rightarrow> 'w \<Rightarrow> bool"
  assumes refl: "R w w" and trans: "R w1 w2 \<Longrightarrow> R w2 w3 \<Longrightarrow> R w1 w3"
    and handled: "wired i h \<Longrightarrow> i \<notin> off \<Longrightarrow> h fetch e w = Some (x, fx, w') \<Longrightarrow> R w w'"
begin

lemma delivered:
  assumes "deliver sender e hs nw w = Some (x, nw', w')" "\<forall>(i, h) \<in> set hs. wired i h" "set (nw_partitioned nw) = off"
  shows "R w w' \<and> same_wiring nw nw' \<and> (senders_ok nw \<longrightarrow> senders_ok nw')"
  using assms
proof (induction sender e hs nw w rule: deliver.induct)
  case (1 sender e nw w)
  then show ?case by (simp add: refl same_wiring_intros)
next
  case (2 sender e i h hs nw w)
  show ?case
  proof (cases "i = sender \<or> i \<in> set (nw_partitioned nw)")
    case True
    then show ?thesis using 2 by simp
  next
    case False
    obtain err fx w1 where h: "h (net_fetch nw w i) e w = Some (err, fx, w1)"
      using "2.prems"(1) False by (auto split: option.splits)
    let ?nw = "fold (transport_send i) fx nw"
    have w1: "R w w1" using handled [of i h "net_fetch nw w i" e w err fx w1] h "2.prems"(2,3) False by auto
    have p: "set (nw_partitioned ?nw) = off" using "2.prems"(3) same_wiring_simps [OF same_wiring_fold [of nw i fx]] by simp
    show ?thesis
    proof (cases err)
      case None
      then have "R w1 w' \<and> same_wiring ?nw nw' \<and> (senders_ok ?nw \<longrightarrow> senders_ok nw')"
        using "2.IH"(2) [OF False h HOL.refl HOL.refl HOL.refl None] "2.prems"(1,2) False h p by simp
      then show ?thesis using w1 trans same_wiring_intros(2) [OF same_wiring_fold] senders_ok_fold by blast
    next
      case (Some y)
      then have "w' = w1 \<and> nw' = ?nw" using "2.prems"(1) False h by simp
      then show ?thesis using w1 same_wiring_fold senders_ok_fold by blast
    qed
  qed
qed

theorem idle:
  assumes "run_until_idle k nw w = Some (x, nw', w')" "\<forall>(i, h) \<in> handlers_of nw. wired i h" "set (nw_partitioned nw) = off"
  shows "R w w' \<and> same_wiring nw nw' \<and> (senders_ok nw \<longrightarrow> senders_ok nw')"
  using assms
proof (induction k arbitrary: nw w)
  case 0
  then show ?case by (subst (asm) run_until_idle.simps) (auto simp: refl same_wiring_intros split: list.splits)
next
  case (Suc k)
  show ?case
  proof (cases "nw_queue nw")
    case Nil
    then show ?thesis using Suc.prems(1) by (subst (asm) run_until_idle.simps) (simp add: refl same_wiring_intros)
  next
    case (Cons p queue)
    obtain sender e where p: "p = (sender, e)" by fastforce
    let ?nw = "nw\<lparr>nw_queue := queue\<rparr>"
    obtain y nw2 w2 where d: "deliver sender e (handlers_by_kind e ?nw) ?nw w = Some (y, nw2, w2)"
      and r: "case y of Some err \<Rightarrow> x = Some err \<and> nw' = nw2 \<and> w' = w2 | None \<Rightarrow> run_until_idle k nw2 w2 = Some (x, nw', w')"
      using Suc.prems(1) Cons p by (subst (asm) (2) run_until_idle.simps) (auto simp: Let_def split: option.splits)
    have hs: "\<forall>(i, h) \<in> set (handlers_by_kind e ?nw). wired i h"
      using Suc.prems(2) handlers_by_kind_subset [of e ?nw] by (auto simp: handlers_of_def)
    have one: "R w w2" "same_wiring nw nw2" "senders_ok nw \<longrightarrow> senders_ok nw2"
      using delivered [OF d hs] Suc.prems(3) Cons by (auto simp: same_wiring_intros(3) senders_ok_def)
    show ?thesis
    proof (cases y)
      case None
      then have "R w2 w' \<and> same_wiring nw2 nw' \<and> (senders_ok nw2 \<longrightarrow> senders_ok nw')"
        using Suc.IH [of nw2 w2] r Suc.prems(2,3) same_wiring_simps [OF one(2)] by simp
      then show ?thesis using one trans same_wiring_intros(2) by blast
    qed (use one r in simp)
  qed
qed

end


section \<open>What delivery does not see\<close>

definition wired_as :: "(string \<Rightarrow> 'w handler) \<Rightarrow> (string \<Rightarrow> 'w \<Rightarrow> fetcher) \<Rightarrow> 'w network \<Rightarrow> bool" where
  "wired_as H G nw \<longleftrightarrow> (\<forall>(i, h) \<in> handlers_of nw. h = H i) \<and> (\<forall>(i, g) \<in> set (nw_getters nw). g = G i)"

lemma wired_as_same: "same_wiring nw nw' \<Longrightarrow> wired_as H G nw \<Longrightarrow> wired_as H G nw'"
  using same_wiring_simps [of nw nw'] by (simp add: wired_as_def)

text \<open>
  Two states that the handlers and getters of connected nodes cannot tell apart: then the bus
  cannot either, and a delivery runs in the same way on both.
\<close>

locale bus_noninterference =
  fixes H :: "string \<Rightarrow> 'w handler" and G :: "string \<Rightarrow> 'w \<Rightarrow> fetcher" and off :: "string set" and E :: "'w \<Rightarrow> 'w \<Rightarrow> bool"
  assumes handled: "i \<notin> off \<Longrightarrow> E w v \<Longrightarrow> H i fetch e w = Some (x, fx, w') \<Longrightarrow> \<exists>v'. H i fetch e v = Some (x, fx, v') \<and> E w' v'"
    and got: "i \<notin> off \<Longrightarrow> E w v \<Longrightarrow> G i w = G i v"
begin

lemma fetched_from:
  assumes "E w v" "\<forall>(i, g) \<in> set gs. g = G i" "set partitioned = off"
  shows "fetch_from partitioned requester w index gs = fetch_from partitioned requester v index gs"
  using assms(2)
proof (induction gs)
  case (Cons p gs)
  then show ?case using got [of "fst p" w v] assms(1,3) by (cases p) (auto split: sum.splits option.splits)
qed simp

lemma fetched:
  assumes "E w v" "wired_as H G nw" "set (nw_partitioned nw) = off"
  shows "net_fetch nw w i = net_fetch nw v i"
  using fetched_from [OF assms(1) _ assms(3)] assms(2) by (auto simp: net_fetch_def wired_as_def)

lemma delivered:
  assumes "deliver sender e hs nw w = Some (x, nw', w')" "\<forall>(i, h) \<in> set hs. h = H i" "wired_as H G nw"
    "set (nw_partitioned nw) = off" "E w v"
  shows "\<exists>v'. deliver sender e hs nw v = Some (x, nw', v') \<and> E w' v' \<and> same_wiring nw nw'"
  using assms
proof (induction hs arbitrary: nw w v)
  case Nil
  then show ?case by (simp add: same_wiring_intros)
next
  case (Cons p hs)
  obtain i h where p: "p = (i, h)" by fastforce
  show ?case
  proof (cases "i = sender \<or> i \<in> set (nw_partitioned nw)")
    case True
    then show ?thesis using Cons p by simp
  next
    case False
    have h: "h = H i" using Cons.prems(2) p by simp
    obtain err fx w1 where hw: "h (net_fetch nw w i) e w = Some (err, fx, w1)"
      using Cons.prems(1) False p by (auto split: option.splits)
    have f: "net_fetch nw v i = net_fetch nw w i" using fetched [OF Cons.prems(5,3,4)] by simp
    obtain v1 where hv: "h (net_fetch nw v i) e v = Some (err, fx, v1)" "E w1 v1"
      using handled [of i w v "net_fetch nw w i" e err fx w1] Cons.prems(4,5) False hw unfolding h f by auto
    let ?nw = "fold (transport_send i) fx nw"
    note sw = same_wiring_fold [of nw i fx]
    show ?thesis
    proof (cases err)
      case None
      then have d: "deliver sender e hs ?nw w1 = Some (x, nw', w')" using Cons.prems(1) False p hw by simp
      have "set (nw_partitioned ?nw) = off" using Cons.prems(4) same_wiring_simps [OF sw] by simp
      then obtain v' where "deliver sender e hs ?nw v1 = Some (x, nw', v')" "E w' v'" "same_wiring ?nw nw'"
        using Cons.IH [OF d _ wired_as_same [OF sw Cons.prems(3)] _ hv(2)] Cons.prems(2) by auto
      then show ?thesis using None False p hv(1) same_wiring_intros(2) [OF sw] by auto
    next
      case (Some y)
      then show ?thesis using Cons.prems(1) False p hw hv sw by auto
    qed
  qed
qed

theorem idle:
  assumes "run_until_idle k nw w = Some (x, nw', w')" "wired_as H G nw" "set (nw_partitioned nw) = off" "E w v"
  shows "\<exists>v'. run_until_idle k nw v = Some (x, nw', v') \<and> E w' v'"
  using assms
proof (induction k arbitrary: nw w v)
  case 0
  then show ?case by (subst run_until_idle.simps, subst (asm) run_until_idle.simps) (auto split: list.splits)
next
  case (Suc k)
  show ?case
  proof (cases "nw_queue nw")
    case Nil
    then show ?thesis
      using Suc.prems(1,4) by (subst run_until_idle.simps, subst (asm) run_until_idle.simps) simp
  next
    case (Cons p queue)
    obtain sender e where p: "p = (sender, e)" by fastforce
    let ?nw = "nw\<lparr>nw_queue := queue\<rparr>"
    obtain y nw2 w2 where d: "deliver sender e (handlers_by_kind e ?nw) ?nw w = Some (y, nw2, w2)"
      and r: "case y of Some err \<Rightarrow> x = Some err \<and> nw' = nw2 \<and> w' = w2 | None \<Rightarrow> run_until_idle k nw2 w2 = Some (x, nw', w')"
      using Suc.prems(1) Cons p by (subst (asm) (2) run_until_idle.simps) (auto simp: Let_def split: option.splits)
    have wa: "wired_as H G ?nw" using Suc.prems(2) by (simp add: wired_as_def handlers_of_def)
    have hs: "\<forall>(i, h) \<in> set (handlers_by_kind e ?nw). h = H i"
      using wa handlers_by_kind_subset [of e ?nw] by (auto simp: wired_as_def)
    obtain v2 where v2: "deliver sender e (handlers_by_kind e ?nw) ?nw v = Some (y, nw2, v2)" "E w2 v2" "same_wiring ?nw nw2"
      using delivered [OF d hs wa _ Suc.prems(4)] Suc.prems(3) by auto
    show ?thesis
    proof (cases y)
      case None
      have "set (nw_partitioned nw2) = off" using same_wiring_simps [OF v2(3)] Suc.prems(3) by simp
      then obtain v' where v': "run_until_idle k nw2 v2 = Some (x, nw', v')" "E w' v'"
        using Suc.IH [OF _ wired_as_same [OF v2(3) wa] _ v2(2)] r None by auto
      have "run_until_idle (Suc k) nw v = run_until_idle k nw2 v2"
        using Cons p v2(1) None by (subst run_until_idle.simps) simp
      then show ?thesis using v' by simp
    next
      case (Some err)
      have "run_until_idle (Suc k) nw v = Some (Some err, nw2, v2)"
        using Cons p v2(1) Some by (subst run_until_idle.simps) simp
      then show ?thesis using Some r v2(2) by simp
    qed
  qed
qed

end


section \<open>Quiescence\<close>

lemma idle_empty: "run_until_idle k nw w = Some (None, nw', w') \<Longrightarrow> nw_queue nw' = []"
proof (induction k arbitrary: nw w)
  case 0
  then show ?case by (subst (asm) run_until_idle.simps) (auto split: list.splits)
next
  case (Suc k)
  then show ?case
    by (subst (asm) (2) run_until_idle.simps) (auto simp: Let_def split: list.splits option.splits)
qed


section \<open>A cluster of nodes\<close>

text \<open>
  The state of a cluster is the state of each of its nodes. A node's handlers decode the
  payload and call the node's operation; the getter reads its repository.
\<close>

fun input_of :: "fetcher \<Rightarrow> effect \<Rightarrow> node_input option result" where
  "input_of fetch (Broadcast m) = Inr (Some (Message fetch m))"
| "input_of fetch (GossipRecords js) = bindr (mapr record_from_dict js) (\<lambda>rs. Inr (Some (ReceiveRecords rs)))"
| "input_of fetch (GossipChanges js) = bindr (mapr change_from_dict js) (\<lambda>cs. Inr (Some (ReceiveChanges cs)))"
| "input_of fetch (GossipBlock j) = bindr (block_from_dict j) (\<lambda>b. Inr (Some (PushedBlock b)))"
| "input_of fetch (OnCommit b) = Inr None"

definition node_handler :: "crypto \<Rightarrow> string \<Rightarrow> (string \<Rightarrow> node) handler" where
  "node_handler C i fetch e w =
     (case input_of fetch e of
        Inl x \<Rightarrow> Some (Some (Raised x), [], w)
      | Inr None \<Rightarrow> Some (None, [], w)
      | Inr (Some inp) \<Rightarrow>
          (case node_step C (w i) inp of
             None \<Rightarrow> None
           | Some (err, n) \<Rightarrow> Some (err, drop (length (n_out (w i))) (n_out n), w(i := n))))"

definition node_getter :: "string \<Rightarrow> (string \<Rightarrow> node) \<Rightarrow> fetcher" where
  "node_getter i w index = repo_get (n_repo (w i)) index"

definition register_node :: "crypto \<Rightarrow> string \<Rightarrow> (string \<Rightarrow> node) network \<Rightarrow> (string \<Rightarrow> node) network" where
  "register_node C i = register i (node_handler C i) (node_getter i) (Some (node_handler C i)) (Some (node_handler C i))
     (Some (node_handler C i))"

fun cluster :: "crypto \<Rightarrow> string list \<Rightarrow> (string \<Rightarrow> node) network" where
  "cluster C [] = empty_network"
| "cluster C (i # is) = register_node C i (cluster C is)"

lemma node_handler_local:
  assumes "node_handler C i fetch e w = Some (x, fx, w')"
  shows "w' = w \<or> (\<exists>inp n. node_step C (w i) inp = Some (x, n) \<and> w' = w(i := n))"
  using assms by (auto simp: node_handler_def split: sum.splits option.splits)

lemma cluster_handlers: "(i, h) \<in> handlers_of (cluster C is) \<Longrightarrow> h = node_handler C i"
proof (induction "is")
  case (Cons j js)
  have "handlers_of (register_node C j nw) \<subseteq> insert (j, node_handler C j) (handlers_of nw)" for nw
    using set_dict_set_subset [of j "node_handler C j"]
    by (fastforce simp: register_node_def register_def opt_set_def handlers_of_def)
  from subsetD [OF this] Cons show ?case by auto
qed (simp add: empty_network_def handlers_of_def)

lemma cluster_queue [simp]: "nw_queue (cluster C is) = []" "nw_partitioned (cluster C is) = []"
  by (induction "is") (simp_all add: empty_network_def register_node_def register_def)

lemma cluster_getters: "(i, g) \<in> set (nw_getters (cluster C is)) \<Longrightarrow> g = node_getter i"
proof (induction "is")
  case (Cons j js)
  have "set (nw_getters (register_node C j nw)) \<subseteq> insert (j, node_getter j) (set (nw_getters nw))" for nw
    using set_dict_set_subset [of j "node_getter j"] by (fastforce simp: register_node_def register_def)
  from subsetD [OF this] Cons show ?case by auto
qed (simp add: empty_network_def)

definition send_all :: "(string \<times> effect) list \<Rightarrow> 'w network \<Rightarrow> 'w network" where
  \<comment> \<open>nodes use their transports\<close>
  "send_all sends = fold (\<lambda>(i, e). transport_send i e) sends"

fun is_sent :: "effect \<Rightarrow> bool" where
  "is_sent (OnCommit b) = False"
| "is_sent _ = True"

lemma send_all_wiring: "same_wiring nw (send_all sends nw)"
  by (induction sends arbitrary: nw) (auto simp: send_all_def intro: same_wiring_intros)

lemma send_all_queue:
  "nw_queue (send_all sends nw) = nw_queue nw @ filter (\<lambda>(i, e). is_sent e \<and> i \<notin> set (nw_partitioned nw)) sends"
proof (induction sends arbitrary: nw)
  case (Cons p sends)
  obtain i e where p: "p = (i, e)" by fastforce
  have q: "nw_partitioned (transport_send i e nw) = nw_partitioned nw"
    using same_wiring_simps [OF same_wiring_intros(4)] by blast
  have "nw_queue (transport_send i e nw) = nw_queue nw @ (if is_sent e \<and> i \<notin> set (nw_partitioned nw) then [(i, e)] else [])"
    by (cases e) (simp_all add: enqueue_def)
  then show ?case using Cons.IH [of "transport_send i e nw"] p q by (simp add: send_all_def)
qed (simp add: send_all_def)

interpretation blind: bus_noninterference "node_handler C" node_getter off "\<lambda>w v. \<forall>i. i \<notin> off \<longrightarrow> w i = v i" for C off
proof (unfold_locales, goal_cases)
  case (1 i w v fetch e x fx w')
  then show ?case by (auto simp: node_handler_def split: sum.splits option.splits)
next
  case (2 i w v)
  then show ?case by (auto simp: node_getter_def)
qed

interpretation untouched: bus_steps "\<lambda>i h. h = node_handler C i" off "\<lambda>w w'. \<forall>i \<in> off. w' i = w i" for C off
  by unfold_locales (auto dest: node_handler_local)

interpretation appending: bus_steps "\<lambda>i h. h = node_handler C i" off "\<lambda>w w'. \<forall>i. extends C (w i) (w' i)" for C off
proof (unfold_locales, goal_cases)
  case (3 i h fetch e w x fx w')
  then show ?case
    using node_handler_local [of C i fetch e w x fx w'] growing.stepped [of C "w i"] growing.refl [of C] by auto
qed (use growing.refl growing.trans in blast)+


section \<open>Properties\<close>

text \<open>C39: a partition isolates in both directions. Partition some nodes of a cluster, then let any
  nodes, also partitioned ones, send anything, and let the bus run, for any number of steps and
  also if a handler raises. The messages of the partitioned nodes never enter the queue, their
  states are untouched, and a block fetch of theirs finds nothing. Nor do they influence the
  others: had the partitioned nodes been in any other state, with other chains, the run would
  have ended in the same way, with the same queue and the same states of the connected nodes.
  Every node's chain extends the one it had, and if the run ends without an exception, the queue is
  empty.\<close>

theorem partition_isolates:
  assumes "nw = send_all sends ((cluster C is)\<lparr>nw_partitioned := off\<rparr>)" "run_until_idle k nw w = Some (x, nw', w')"
    "\<forall>i. i \<notin> set off \<longrightarrow> w i = v i"
  shows "nw_queue nw = filter (\<lambda>(i, e). is_sent e \<and> i \<notin> set off) sends \<and>
    (\<forall>(sender, e) \<in> set (nw_queue nw'). sender \<notin> set off) \<and> (\<forall>i \<in> set off. w' i = w i) \<and>
    (\<forall>i \<in> set off. \<forall>u index. net_fetch nw' u i index = Inr None) \<and>
    (\<exists>v'. run_until_idle k nw v = Some (x, nw', v') \<and> (\<forall>i. i \<notin> set off \<longrightarrow> w' i = v' i)) \<and>
    (\<forall>i. extends C (w i) (w' i)) \<and> (x = None \<longrightarrow> nw_queue nw' = [])"
proof -
  let ?nw0 = "(cluster C is)\<lparr>nw_partitioned := off\<rparr>"
  have sw: "same_wiring ?nw0 nw" unfolding assms(1) by (rule send_all_wiring)
  have q: "nw_queue nw = filter (\<lambda>(i, e). is_sent e \<and> i \<notin> set off) sends" unfolding assms(1) by (simp add: send_all_queue)
  have "wired_as (node_handler C) node_getter ?nw0"
    using cluster_handlers [of _ _ C "is"] cluster_getters [of _ _ C "is"] by (auto simp: wired_as_def handlers_of_def)
  then have wa: "wired_as (node_handler C) node_getter nw" by (rule wired_as_same [OF sw])
  then have h: "\<forall>(i, h) \<in> handlers_of nw. h = node_handler C i" by (simp add: wired_as_def)
  have c: "set (nw_partitioned nw) = set off" using same_wiring_simps [OF sw] by simp
  have so: "senders_ok nw" using q c by (auto simp: senders_ok_def)
  note a = untouched.idle [OF assms(2) h c] and b = appending.idle [OF assms(2) h c]
  have p': "set (nw_partitioned nw') = set off" using a c same_wiring_simps [of nw nw'] by simp
  have "\<forall>(sender, e) \<in> set (nw_queue nw'). sender \<notin> set off" using a so p' by (auto simp: senders_ok_def)
  moreover have "\<forall>i \<in> set off. \<forall>u index. net_fetch nw' u i index = Inr None" using p' by (simp add: net_fetch_def)
  moreover have "x = None \<longrightarrow> nw_queue nw' = []" using idle_empty [of k nw w nw' w'] assms(2) by blast
  ultimately show ?thesis using a b q blind.idle [OF assms(2) wa c assms(3)] by blast
qed

theorem partition_isolates_witness:
  "\<exists>nw' w'. run_until_idle 5 (send_all [(''a'', GossipRecords []), (''b'', GossipRecords [])]
       ((cluster short_crypto [''a'', ''b'', ''c''])\<lparr>nw_partitioned := [''b'']\<rparr>))
     (\<lambda>_. solo) = Some (None, nw', w') \<and> w' ''b'' = solo \<and> nw_queue nw' = []"
proof -
  let ?nw = "send_all [(''a'', GossipRecords []), (''b'', GossipRecords [])]
    ((cluster short_crypto [''a'', ''b'', ''c''])\<lparr>nw_partitioned := [''b'']\<rparr>)"
  have "\<exists>nw' w'. run_until_idle 5 ?nw (\<lambda>_. solo) = Some (None, nw', w')"
    by (simp add: run_until_idle.simps register_node_def register_def opt_set_def empty_network_def node_handler_def
        receive_records_def ingest_records_def send_all_def enqueue_def)
  then obtain nw' w' where r: "run_until_idle 5 ?nw (\<lambda>_. solo) = Some (None, nw', w')" by blast
  from partition_isolates [OF HOL.refl r, of "\<lambda>_. solo"] r show ?thesis by auto
qed

end
