(* ===== verification/Config.thy ===== *)
theory Config
  imports Crypto
begin

text \<open>
  \<open>config.py\<close> and \<open>tls.py\<close>: peers and their textual form, secrets, the accepted tokens,
  and the keyword arguments for TLS. Reading the environment is pydantic's work and not
  modelled: a settings object is given. The file system is the argument \<open>read_text\<close>.
\<close>

section \<open>Secrets\<close>

definition read_secret :: "(string \<Rightarrow> string result) \<Rightarrow> string \<Rightarrow> string \<Rightarrow> string result" where
  \<comment> \<open>\<open>_read_secret\<close>\<close>
  "read_secret read_text inline file =
     (if file \<noteq> [] then bindr (read_text file) (\<lambda>t. Inr (strip t)) else Inr inline)"

record secret_settings =
  private_key_hex :: string
  private_key_file :: string
  cluster_token :: string
  cluster_token_file :: string
  commit_key_hex :: string
  commit_key_file :: string

definition resolved_private_key_hex :: "(string \<Rightarrow> string result) \<Rightarrow> secret_settings \<Rightarrow> string result" where
  "resolved_private_key_hex read_text s = read_secret read_text (private_key_hex s) (private_key_file s)"

definition resolved_cluster_token :: "(string \<Rightarrow> string result) \<Rightarrow> secret_settings \<Rightarrow> string result" where
  "resolved_cluster_token read_text s = read_secret read_text (cluster_token s) (cluster_token_file s)"

definition resolved_commit_key :: "(string \<Rightarrow> string result) \<Rightarrow> secret_settings \<Rightarrow> bytes option result" where
  "resolved_commit_key read_text s =
     bindr (read_secret read_text (commit_key_hex s) (commit_key_file s)) (\<lambda>hexkey.
       if hexkey \<noteq> [] then bindr (bytes_fromhex hexkey) (\<lambda>k. Inr (Some k)) else Inr None)"


section \<open>Peers\<close>

record peer =
  p_node_id :: string
  p_host :: string
  p_port :: int
  p_public_key :: public_key

definition option_result :: "'a option \<Rightarrow> 'a result" where
  "option_result x = (case x of None \<Rightarrow> Inl ValueError | Some y \<Rightarrow> Inr y)"

definition parse_fields :: "crypto \<Rightarrow> string \<Rightarrow> peer result" where
  \<comment> \<open>the \<open>try\<close> block of \<open>Peer.parse\<close>\<close>
  "parse_fields C s =
     bindr (option_result (split_first (CHR ''@'') s)) (\<lambda>(ident, rest).
     bindr (option_result (split_first (CHR ''|'') rest)) (\<lambda>(hostport, pubkey_hex).
     bindr (option_result (split_last (CHR '':'') hostport)) (\<lambda>(host, port).
     bindr (int_of_str port) (\<lambda>n.
     bindr (public_from_hex C (strip pubkey_hex)) (\<lambda>k.
       Inr \<lparr>p_node_id = strip ident, p_host = strip host, p_port = n, p_public_key = k\<rparr>)))))"

definition peer_parse :: "crypto \<Rightarrow> string \<Rightarrow> peer result" where
  "peer_parse C s =
     (case parse_fields C s of
        Inl e \<Rightarrow> if e = ValueError \<or> e = KeyError then Inl ValueError else Inl e
      | Inr p \<Rightarrow> Inr p)"

definition base_url :: "peer \<Rightarrow> string" where
  "base_url p = ''http://'' @ p_host p @ '':'' @ show_int (p_port p)"

definition split_peers :: "crypto \<Rightarrow> string \<Rightarrow> peer list result" where
  \<comment> \<open>\<open>ConsensusSettings._split_peers\<close> on a string\<close>
  "split_peers C v = mapr (peer_parse C) (filter (\<lambda>s. strip s \<noteq> []) (split_all (CHR '','') v))"

definition peer_spec :: "peer \<Rightarrow> string" where
  \<comment> \<open>\<open>PeerRegistry._spec\<close>\<close>
  "peer_spec p = p_node_id p @ ''@'' @ p_host p @ '':'' @ show_int (p_port p) @ ''|'' @ public_to_hex (p_public_key p)"


section \<open>Tokens\<close>

definition accepted_tokens :: "string \<Rightarrow> string list" where
  \<comment> \<open>\<open>[t.strip() for t in cluster_token.split(",") if t.strip()]\<close>\<close>
  "accepted_tokens token = map strip (filter (\<lambda>t. strip t \<noteq> []) (split_all (CHR '','') token))"

definition primary_token :: "string \<Rightarrow> string" where
  \<comment> \<open>the first of them, or the empty string\<close>
  "primary_token token = (case accepted_tokens token of [] \<Rightarrow> [] | t # _ \<Rightarrow> t)"


section \<open>TLS\<close>

record tls_settings =
  tls_enabled :: bool
  cert_file :: string
  key_file :: string
  ca_file :: string
  mutual :: bool
  client_cert_file :: string
  client_key_file :: string

definition effective_client_cert :: "tls_settings \<Rightarrow> string" where
  "effective_client_cert t = (if client_cert_file t \<noteq> [] then client_cert_file t else cert_file t)"

definition effective_client_key :: "tls_settings \<Rightarrow> string" where
  "effective_client_key t = (if client_key_file t \<noteq> [] then client_key_file t else key_file t)"

definition scheme :: "tls_settings \<Rightarrow> string" where
  "scheme t = (if tls_enabled t then ''https'' else ''http'')"

datatype kwarg = Text string | Flag bool | Pair string string | CERT_REQUIRED

definition uvicorn_ssl_kwargs :: "tls_settings \<Rightarrow> (string, kwarg) dict result" where
  "uvicorn_ssl_kwargs t =
     (if \<not> tls_enabled t then Inr []
      else if cert_file t = [] \<or> key_file t = [] then Inl ValueError
      else
        let kwargs = [(''ssl_certfile'', Text (cert_file t)), (''ssl_keyfile'', Text (key_file t))];
            kwargs = (if ca_file t \<noteq> [] then dict_set ''ssl_ca_certs'' (Text (ca_file t)) kwargs else kwargs);
            kwargs = (if mutual t then dict_set ''ssl_cert_reqs'' CERT_REQUIRED kwargs else kwargs)
        in Inr kwargs)"

definition httpx_tls_kwargs :: "tls_settings \<Rightarrow> (string, kwarg) dict result" where
  "httpx_tls_kwargs t =
     (if \<not> tls_enabled t then Inr []
      else
        let kwargs = [(''verify'', if ca_file t \<noteq> [] then Text (ca_file t) else Flag True)]
        in if mutual t
           then (let cert = effective_client_cert t; key = effective_client_key t in
                 if cert = [] \<or> key = [] then Inl ValueError
                 else Inr (dict_set ''cert'' (Pair cert key) kwargs))
           else Inr kwargs)"


section \<open>Stripping and splitting\<close>

lemma split_first_Some:
  "split_first c s = Some (a, b) \<longleftrightarrow> s = a @ c # b \<and> c \<notin> set a"
  by (induction s arbitrary: a b) (auto simp: Cons_eq_append_conv)

lemma split_last_Some:
  "split_last c s = Some (a, b) \<longleftrightarrow> s = a @ c # b \<and> c \<notin> set b"
proof -
  have "split_last c s = Some (a, b) \<longleftrightarrow> split_first c (rev s) = Some (rev b, rev a)"
    by (force simp: split_last_def)
  also have "\<dots> \<longleftrightarrow> rev s = rev (a @ c # b) \<and> c \<notin> set b" by (simp add: split_first_Some)
  finally show ?thesis by (simp only: rev_is_rev_conv)
qed

lemma strip_subset: "set (strip s) \<subseteq> set s"
  by (auto simp: strip_def dest!: set_dropWhileD)

lemma strip_fixed: "s = [] \<or> \<not> str_space (hd s) \<and> \<not> str_space (last s) \<Longrightarrow> strip s = s"
proof -
  have drop: "dropWhile str_space t = t" if "t = [] \<or> \<not> str_space (hd t)" for t
    using that by (cases t) auto
  assume "s = [] \<or> \<not> str_space (hd s) \<and> \<not> str_space (last s)"
  then show ?thesis using drop [of s] drop [of "rev s"] by (auto simp: strip_def hd_rev)
qed

lemma strip_ends: "strip s = [] \<or> \<not> str_space (hd (strip s)) \<and> \<not> str_space (last (strip s))"
proof -
  define t where "t = dropWhile str_space s"
  define u where "u = dropWhile str_space (rev t)"
  have st: "strip s = rev u" by (simp add: strip_def t_def u_def)
  obtain v where v: "rev t = v @ u" unfolding u_def by (metis takeWhile_dropWhile_id)
  have "hd t = last u" if "u \<noteq> []" using arg_cong [OF v, of last] that v by (cases t) (auto simp: last_rev)
  moreover have "\<not> str_space (hd t)" if "t \<noteq> []" using that hd_dropWhile unfolding t_def by blast
  moreover have "t \<noteq> []" if "u \<noteq> []" using v that by auto
  moreover have "\<not> str_space (hd u)" if "u \<noteq> []" using that hd_dropWhile unfolding u_def by blast
  ultimately show ?thesis by (auto simp: st hd_rev last_rev)
qed

lemma strip_strip [simp]: "strip (strip s) = strip s"
  by (rule strip_fixed) (rule strip_ends)

lemma split_all_not_in: "c \<notin> set s \<Longrightarrow> split_all c s = [s]"
  by (induction s) auto

lemma split_all_append: "c \<notin> set s \<Longrightarrow> split_all c (s @ c # t) = s # split_all c t"
  by (induction s) auto


section \<open>The text of a peer\<close>

definition printable :: "crypto \<Rightarrow> peer \<Rightarrow> bool" where
  "printable C p \<longleftrightarrow> CHR ''@'' \<notin> set (p_node_id p) \<and> strip (p_node_id p) = p_node_id p \<and>
     CHR ''|'' \<notin> set (p_host p) \<and> strip (p_host p) = p_host p \<and> public_bytes_ok C (raw_public (p_public_key p))"

lemma option_result_Inr [simp]: "option_result x = Inr y \<longleftrightarrow> x = Some y"
  by (simp add: option_result_def split: option.splits)

lemma option_result_Inl: "option_result x = Inl e \<Longrightarrow> e = ValueError"
  by (simp add: option_result_def split: option.splits)

lemma hex_chars: "c \<in> set (hex_of_bytes bs) \<Longrightarrow> c \<in> set hex_digits"
proof (induction bs)
  case (Cons b bs)
  have "length hex_digits = 16" by (simp add: hex_digits_def)
  then have "(of_char b :: nat) mod 16 < length hex_digits" "(of_char b :: nat) div 16 < length hex_digits"
    by simp_all
  with Cons show ?case by (auto simp: nibble_char_def dest: nth_mem)
qed simp

lemma hex_no_space: "strip (hex_of_bytes bs) = hex_of_bytes bs"
proof (rule strip_id)
  have "\<forall>c \<in> set hex_digits. \<not> str_space c" by code_simp
  then show "c \<in> set (hex_of_bytes bs) \<Longrightarrow> \<not> str_space c" for c using hex_chars by blast
qed

lemma show_int_chars: "c \<in> set (show_int i) \<Longrightarrow> c = CHR ''-'' \<or> is_digit c"
  by (auto simp: show_int_def dest: show_nat_digits split: if_splits)

lemma not_in_show_int: "c \<noteq> CHR ''-'' \<and> \<not> is_digit c \<Longrightarrow> c \<notin> set (show_int i)"
  using show_int_chars [of c i] by auto

lemma show_int_plain: "CHR ''|'' \<notin> set (show_int i)" "CHR '':'' \<notin> set (show_int i)"
  by (rule not_in_show_int, code_simp)+

lemma public_from_to_hex:
  "public_bytes_ok C (raw_public k) \<Longrightarrow> public_from_hex C (public_to_hex k) = Inr k"
  by (simp add: public_from_hex_def public_to_hex_def)

lemma peer_parse_fields: "peer_parse C s = Inr p \<longleftrightarrow> parse_fields C s = Inr p"
  by (auto simp: peer_parse_def split: sum.splits if_splits)

lemma int_of_str_error: "int_of_str t = Inl e \<Longrightarrow> e = ValueError"
  by (auto simp: int_of_str_def Let_def split: list.splits if_splits option.splits)

lemma parse_fields_error: "parse_fields C s = Inl e \<Longrightarrow> e = ValueError"
  by (auto simp: parse_fields_def bindr_Inl_iff
      dest: public_from_hex_error int_of_str_error option_result_Inl split: if_splits)

lemma peer_parse_error: "peer_parse C s = Inl e \<Longrightarrow> e = ValueError"
  using parse_fields_error by (auto simp: peer_parse_def split: sum.splits if_splits)

lemma peer_parse_printable:
  assumes "peer_parse C s = Inr p"
  shows "printable C p"
proof -
  obtain ident rest hostport hex host port where
    s: "split_first (CHR ''@'') s = Some (ident, rest)" "split_first (CHR ''|'') rest = Some (hostport, hex)"
      "split_last (CHR '':'') hostport = Some (host, port)"
    and p: "p_node_id p = strip ident" "p_host p = strip host" "public_from_hex C (strip hex) = Inr (p_public_key p)"
    using assms unfolding peer_parse_fields parse_fields_def by (auto simp: bindr_Inr_iff option_result_Inr)
  have "CHR ''@'' \<notin> set ident" "CHR ''|'' \<notin> set host"
    using s by (auto simp: split_first_Some split_last_Some)
  moreover have "public_bytes_ok C (raw_public (p_public_key p))"
    using p(3) by (cases "p_public_key p") (auto simp: public_from_hex_def bindr_Inr_iff split: if_splits)
  ultimately show ?thesis
    using p(1,2) strip_subset [of ident] strip_subset [of host] by (auto simp: printable_def)
qed

lemma peer_parse_spec:
  assumes "printable C p"
  shows "peer_parse C (peer_spec p) = Inr p"
proof -
  let ?k = "public_to_hex (p_public_key p)" and ?n = "show_int (p_port p)"
  have "split_first (CHR ''@'') (peer_spec p) = Some (p_node_id p, p_host p @ '':'' @ ?n @ ''|'' @ ?k)"
    using assms by (simp add: split_first_Some peer_spec_def printable_def)
  moreover have "split_first (CHR ''|'') (p_host p @ '':'' @ ?n @ ''|'' @ ?k) = Some (p_host p @ '':'' @ ?n, ?k)"
    using assms show_int_plain by (simp add: split_first_Some printable_def)
  moreover have "split_last (CHR '':'') (p_host p @ '':'' @ ?n) = Some (p_host p, ?n)"
    using show_int_plain by (simp add: split_last_Some)
  moreover have "strip ?k = ?k" by (simp add: public_to_hex_def hex_no_space)
  ultimately show ?thesis
    using assms unfolding peer_parse_fields
    by (simp add: parse_fields_def option_result_def int_of_str_show_int public_from_to_hex printable_def)
qed


section \<open>Properties\<close>

text \<open>Peers survive being announced, exactly if they are printable. The text that a node
  announces for a peer parses back to the same peer if and only if the identifier has no \<open>@\<close>,
  the host no \<open>|\<close>, neither has white space at its ends, and the key is loadable; a colon in
  the host does no harm.\<close>

theorem peer_roundtrip: "peer_parse C (peer_spec p) = Inr p \<longleftrightarrow> printable C p"
  using peer_parse_spec peer_parse_printable by blast

end
