(* ===== verification/Tools.thy ===== *)
theory Tools
  imports Config
begin

text \<open>
  The command-line tools: \<^verbatim>\<open>tools/keygen.py\<close>, \<^verbatim>\<open>scripts/gen_dev_secrets.py\<close> and
  \<^verbatim>\<open>tools/gen_certs.py\<close>. What they draw at random (keys, tokens) is an argument. Of a certificate
  the fields are modelled that the tool sets; an RSA key pair is a value of which a certificate
  holds the public half and a key file the private one. Files are named relative to the output
  directory.
\<close>

section \<open>Key generation\<close>

definition keygen_main :: "crypto \<Rightarrow> private_key \<Rightarrow> string list \<Rightarrow> int \<times> string list" where
  \<comment> \<open>the exit code and the lines printed\<close>
  "keygen_main C key argv =
     (let node_id = (if length argv > 0 then argv ! 0 else ''node-1'');
          hostport = (if length argv > 1 then argv ! 1 else ''HOST:PORT'');
          pub_hex = public_to_hex (private_public C key)
      in (0, [''# Private (keep secret '' @ [CHR 0xE2, CHR 0x80, CHR 0x94] @ '' this node'' @ [CHR 0x27] @ ''s .env):'',
              ''HELIX_NODE__PRIVATE_KEY_HEX='' @ private_to_hex key,
              [],
              ''# Public peer spec (share with other validators):'',
              node_id @ ''@'' @ hostport @ ''|'' @ pub_hex]))"

definition dev_secrets_lines :: "crypto \<Rightarrow> private_key list \<Rightarrow> string \<Rightarrow> string \<Rightarrow> string list" where
  \<comment> \<open>the lines of \<open>.env\<close> for the drawn keys, cluster token and commit key\<close>
  "dev_secrets_lines C keys token commit_key =
     [''# DEV-ONLY secrets generated by scripts/gen_dev_secrets.py '' @ [CHR 0xE2, CHR 0x80, CHR 0x94] @ '' DO NOT COMMIT''] @
     concat (map (\<lambda>(i, key). [''NODE'' @ show_int i @ ''_KEY='' @ private_to_hex key,
                               ''NODE'' @ show_int i @ ''_PUB='' @ public_to_hex (private_public C key)])
               (zip [1..int (length keys)] keys)) @
     [''CLUSTER_TOKEN='' @ token, ''COMMIT_KEY='' @ commit_key]"

definition dev_secrets_main ::
    "crypto \<Rightarrow> private_key list \<Rightarrow> string \<Rightarrow> string \<Rightarrow> string option \<Rightarrow> int \<times> string option" where
  \<comment> \<open>the content of \<open>.env\<close>, if there is one, before and after\<close>
  "dev_secrets_main C keys token commit_key env =
     (if env \<noteq> None then (1, env)
      else (0, Some (concat (map (\<lambda>l. l @ [CHR 0x0A]) (dev_secrets_lines C (take 3 keys) token commit_key)))))"


section \<open>Certificates\<close>

datatype key_usage = SERVER_AUTH | CLIENT_AUTH

record 'key certificate =
  c_subject :: string
  c_issuer :: string
  c_public :: 'key
  c_not_before :: int                 \<comment> \<open>in seconds\<close>
  c_not_after :: int
  c_ca :: bool
  c_sans :: "string list"             \<comment> \<open>as given, each an IP address or a DNS name by its form\<close>
  c_usage :: "key_usage list"
  c_signer :: 'key

definition DAY :: int where
  "DAY = 86400"

definition generate_ca :: "'key \<Rightarrow> int \<Rightarrow> string \<Rightarrow> 'key certificate \<times> 'key" where
  "generate_ca key now common_name =
     (\<lparr>c_subject = common_name, c_issuer = common_name, c_public = key, c_not_before = now - DAY, c_not_after = now + 3650 * DAY,
       c_ca = True, c_sans = [], c_usage = [], c_signer = key\<rparr>, key)"

definition generate_cert ::
    "'key \<Rightarrow> int \<Rightarrow> 'key certificate \<Rightarrow> 'key \<Rightarrow> string \<Rightarrow> string list \<Rightarrow> 'key certificate \<times> 'key" where
  "generate_cert key now ca_cert ca_key common_name sans =
     (\<lparr>c_subject = common_name, c_issuer = c_subject ca_cert, c_public = key, c_not_before = now - DAY, c_not_after = now + 825 * DAY,
       c_ca = False, c_sans = sans, c_usage = [SERVER_AUTH, CLIENT_AUTH], c_signer = ca_key\<rparr>, key)"

datatype 'key pem_file = CertFile "'key certificate" | KeyFile 'key

fun write_nodes ::
    "(nat \<Rightarrow> 'key) \<Rightarrow> (nat \<Rightarrow> int) \<Rightarrow> 'key certificate \<Rightarrow> 'key \<Rightarrow> nat \<Rightarrow> string list \<Rightarrow> (string, 'key pem_file) dict \<Rightarrow> (string, 'key pem_file) dict" where
  \<comment> \<open>the loop over the nodes; the \<open>i\<close>-th key drawn and the \<open>i\<close>-th reading of the clock\<close>
  "write_nodes keys now ca_cert ca_key i [] files = files"
| "write_nodes keys now ca_cert ca_key i (node # nodes) files =
     (let (cert, key) = generate_cert (keys i) (now i) ca_cert ca_key node [node, ''localhost'', ''127.0.0.1'']
      in write_nodes keys now ca_cert ca_key (i + 1) nodes
           (dict_set (node @ ''.key'') (KeyFile key) (dict_set (node @ ''.crt'') (CertFile cert) files)))"

definition gen_certs_main ::
    "(nat \<Rightarrow> 'key) \<Rightarrow> (nat \<Rightarrow> int) \<Rightarrow> string list \<Rightarrow> (string, 'key pem_file) dict \<Rightarrow> int \<times> (string, 'key pem_file) dict" where
  \<comment> \<open>the exit code and the files of the output directory\<close>
  "gen_certs_main keys now argv files =
     (if length argv < 2 then (1, files)
      else let (ca_cert, ca_key) = generate_ca (keys 0) (now 0) ''Helix Dev CA''
           in (0, write_nodes keys now ca_cert ca_key 1 (tl argv)
                    (dict_set ''ca.key'' (KeyFile ca_key) (dict_set ''ca.crt'' (CertFile ca_cert) files))))"


section \<open>What the tools produce is usable\<close>

lemma keygen_key_loads:
  assumes "private_ok key"
  shows "\<exists>t. snd (keygen_main C key argv) ! 1 = ''HELIX_NODE__PRIVATE_KEY_HEX='' @ t \<and> private_from_hex t = Inr key"
  using private_from_hex_to_hex [OF assms] by (simp add: keygen_main_def)

lemma keygen_peer_parses:
  \<comment> \<open>the printed peer is the node with its public key, if the arguments are printable\<close>
  assumes "argv = [node_id, host @ '':'' @ show_int port]"
    "printable C \<lparr>p_node_id = node_id, p_host = host, p_port = port, p_public_key = private_public C key\<rparr>"
  shows "peer_parse C (last (snd (keygen_main C key argv)))
    = Inr \<lparr>p_node_id = node_id, p_host = host, p_port = port, p_public_key = private_public C key\<rparr>"
  using peer_parse_spec [OF assms(2)] by (simp add: keygen_main_def assms(1) peer_spec_def)

lemma keygen_default_rejected:
  \<comment> \<open>without arguments, the placeholder for the port is no number\<close>
  "peer_parse C (last (snd (keygen_main C key []))) = Inl ValueError"
proof -
  have "split_first (CHR ''@'') (''node-1@HOST:PORT|'' @ s) = Some (''node-1'', ''HOST:PORT|'' @ s)"
    "split_first (CHR ''|'') (''HOST:PORT|'' @ s) = Some (''HOST:PORT'', s)" for s by simp_all
  moreover have "split_last (CHR '':'') ''HOST:PORT'' = Some (''HOST'', ''PORT'')" "int_of_str ''PORT'' = Inl ValueError"
    by code_simp+
  ultimately show ?thesis by (simp add: keygen_main_def peer_parse_def parse_fields_def option_result_def)
qed

lemma dev_secrets_keep: "dev_secrets_main C keys token commit_key (Some old) = (1, Some old)"
  by (simp add: dev_secrets_main_def)


section \<open>The certificates of one run\<close>

definition certified :: "'key certificate \<Rightarrow> (string, 'key pem_file) dict \<Rightarrow> string \<Rightarrow> bool" where
  \<comment> \<open>the node's two files hold a certificate for both roles that the authority issued, and its key\<close>
  "certified ca files node \<longleftrightarrow> (\<exists>cert key. dict_get files (node @ ''.crt'') = Some (CertFile cert) \<and>
     dict_get files (node @ ''.key'') = Some (KeyFile key) \<and> c_public cert = key \<and> c_issuer cert = c_subject ca \<and>
     c_signer cert = c_public ca \<and> c_subject cert = node \<and> node \<in> set (c_sans cert) \<and>
     set (c_usage cert) = {SERVER_AUTH, CLIENT_AUTH} \<and> c_not_after cert \<le> c_not_before cert + 826 * DAY)"

lemma file_names_inj [simp]:
  "a @ ''.crt'' = b @ ''.crt'' \<longleftrightarrow> a = b" "a @ ''.key'' = b @ ''.key'' \<longleftrightarrow> a = b"
  "a @ ''.crt'' \<noteq> b @ ''.key''" "a @ ''.key'' \<noteq> b @ ''.crt''"
  by (auto dest: arg_cong [of _ _ last])

lemma ca_names [simp]:
  "''ca.crt'' = a @ ''.crt'' \<longleftrightarrow> a = ''ca''" "''ca.crt'' \<noteq> a @ ''.key''"
  using file_names_inj(1) [of "''ca''" a] file_names_inj(3) [of "''ca''" a] by auto

lemma write_nodes_certify:
  assumes "ca_key = c_public ca"
  shows "(\<forall>node. node \<in> set nodes \<or> certified ca files node \<longrightarrow> certified ca (write_nodes keys now ca ca_key i nodes files) node) \<and>
    (''ca'' \<notin> set nodes \<longrightarrow> dict_get (write_nodes keys now ca ca_key i nodes files) ''ca.crt'' = dict_get files ''ca.crt'')"
proof (induction nodes arbitrary: i files)
  case (Cons n nodes)
  define f where "f = dict_set (n @ ''.key'') (KeyFile (snd (generate_cert (keys i) (now i) ca ca_key n [n, ''localhost'', ''127.0.0.1''])))
    (dict_set (n @ ''.crt'') (CertFile (fst (generate_cert (keys i) (now i) ca ca_key n [n, ''localhost'', ''127.0.0.1'']))) files)"
  have n: "certified ca f n" using assms by (auto simp: f_def certified_def generate_cert_def DAY_def)
  have "certified ca f m" if "certified ca files m" for m
    using that n by (cases "m = n") (auto simp: f_def certified_def)
  moreover have "dict_get f ''ca.crt'' = dict_get files ''ca.crt''" if "n \<noteq> ''ca''" using that by (auto simp: f_def)
  moreover have "write_nodes keys now ca ca_key i (n # nodes) files = write_nodes keys now ca ca_key (i + 1) nodes f"
    by (simp add: f_def case_prod_beta Let_def)
  ultimately show ?case using Cons.IH [of f "i + 1"] n by auto
qed simp

lemma gen_certs_certify:
  \<comment> \<open>if no node is called \<open>ca\<close>, the directory holds the authority and a certificate for every node\<close>
  assumes "gen_certs_main keys now (dir # nodes) files = (code, files')" "nodes \<noteq> []" "''ca'' \<notin> set nodes"
  shows "code = 0 \<and> (\<exists>ca. dict_get files' ''ca.crt'' = Some (CertFile ca) \<and> c_ca ca \<and> c_signer ca = c_public ca \<and>
    (\<forall>node \<in> set nodes. certified ca files' node))"
proof -
  let ?ca = "fst (generate_ca (keys 0) (now 0) ''Helix Dev CA'')"
  let ?f = "dict_set ''ca.key'' (KeyFile (c_public ?ca)) (dict_set ''ca.crt'' (CertFile ?ca) files)"
  have "files' = write_nodes keys now ?ca (c_public ?ca) 1 nodes ?f" "code = 0"
    using assms(1,2) by (auto simp: gen_certs_main_def generate_ca_def Let_def split: if_splits)
  then show ?thesis
    using write_nodes_certify [OF HOL.refl, of nodes ?ca ?f keys now 1] assms(3)
    by (intro conjI exI [of _ ?ca]) (auto simp: generate_ca_def)
qed

lemma gen_certs_overwrites_ca:
  \<comment> \<open>a node called \<open>ca\<close> replaces the authority, whose other certificates then have no issuer\<close>
  "\<exists>cert. dict_get (snd (gen_certs_main keys now [dir, ''ca''] files)) ''ca.crt'' = Some (CertFile cert) \<and> \<not> c_ca cert"
  by (simp add: gen_certs_main_def generate_ca_def generate_cert_def Let_def)

end
