(* ===== verification/Collectors.thy ===== *)
theory Collectors
  imports Node Complex_Main
begin

text \<open>
  \<open>collectors/integrity.py\<close>, the parsing part of \<open>collectors/orion.py\<close>,
  \<open>domain/confidentiality.py\<close> and the monitoring step of \<open>app.py\<close>: observations of the
  brokers are compared with the main broker, turned into records, filtered and submitted.

  The values of attributes are JSON values, compared as Python compares them: a Boolean is a
  number, an integer equals a float of the same value, and dictionaries are equal whatever
  their order. What the databases hold is an argument; \<open>urllib.parse\<close> is the argument
  \<open>hostname\<close>.
\<close>

section \<open>Confidentiality\<close>

record confidentiality =
  c_key :: "bytes option"
  c_pseudonymize :: bool

definition make_confidentiality :: "bytes option \<Rightarrow> bool \<Rightarrow> confidentiality" where
  \<comment> \<open>\<open>key or None\<close>: an empty key is no key\<close>
  "make_confidentiality key ps =
     \<lparr>c_key = (case key of None \<Rightarrow> None | Some k \<Rightarrow> if k = [] then None else Some k), c_pseudonymize = ps\<rparr>"

definition conf_enabled :: "confidentiality \<Rightarrow> bool" where
  "conf_enabled cf = (c_key cf \<noteq> None)"

definition commit_value :: "crypto \<Rightarrow> confidentiality \<Rightarrow> json \<Rightarrow> string" where
  "commit_value C cf v =
     (let data = canonical_bytes v in
      case c_key cf of
        Some k \<Rightarrow> hex_of_bytes (hmac_sha256 C k data)
      | None \<Rightarrow> hex_of_bytes (sha256 C data))"

definition entity_ref :: "crypto \<Rightarrow> confidentiality \<Rightarrow> string \<Rightarrow> string" where
  "entity_ref C cf eid =
     (case c_key cf of
        Some k \<Rightarrow> if c_pseudonymize cf then ''pid:'' @ hex_of_bytes (hmac_sha256 C k eid) else eid
      | None \<Rightarrow> eid)"


section \<open>Python equality of JSON values\<close>

definition float_value :: "string \<Rightarrow> rat option" where
  \<comment> \<open>the value of the text of a finite float\<close>
  "float_value t =
     (let (neg, u) = (case t of c # r \<Rightarrow> if c = CHR ''-'' then (True, r) else (False, t) | [] \<Rightarrow> (False, t));
          (mant, ex) = (case split_first (CHR ''e'') u of Some (m, e) \<Rightarrow> (m, int_of_str e) | None \<Rightarrow> (u, Inr 0));
          (whole, frac) = (case split_first (CHR ''.'') mant of Some p \<Rightarrow> p | None \<Rightarrow> (mant, []))
      in if whole = [] \<or> \<not> list_all is_digit (whole @ frac) then None
         else case ex of
             Inl _ \<Rightarrow> None
           | Inr k \<Rightarrow>
               let n = of_nat (read_nat (whole @ frac)); d = k - int (length frac);
                   x = (if d \<ge> 0 then n * 10 ^ nat d else n / 10 ^ nat (- d))
               in Some (if neg then - x else x))"

fun number_value :: "json \<Rightarrow> rat option" where
  "number_value (JBool b) = Some (if b then 1 else 0)"
| "number_value (JInt i) = Some (of_int i)"
| "number_value (JFloat t) = float_value t"
| "number_value _ = None"

fun py_eq :: "json \<Rightarrow> json \<Rightarrow> bool" and py_eq_list :: "json list \<Rightarrow> json list \<Rightarrow> bool"
  and py_eq_items :: "(string \<times> json) list \<Rightarrow> (string, json) dict \<Rightarrow> bool" where
  \<comment> \<open>\<open>a == b\<close>\<close>
  "py_eq JNull w = (w = JNull)"
| "py_eq (JStr s) w = (w = JStr s)"
| "py_eq (JList xs) w = (case w of JList ys \<Rightarrow> py_eq_list xs ys | _ \<Rightarrow> False)"
| "py_eq (JObj d) w = (case w of JObj e \<Rightarrow> length d = length e \<and> py_eq_items d e | _ \<Rightarrow> False)"
| "py_eq (JFloat s) w =
     (case w of
        JFloat t \<Rightarrow> (case (float_value s, float_value t) of
            (Some a, Some b) \<Rightarrow> a = b | _ \<Rightarrow> s = t \<and> s \<noteq> ''nan'')
      | _ \<Rightarrow> float_value s \<noteq> None \<and> number_value w = float_value s)"
| "py_eq v w = (number_value w = number_value v)"
| "py_eq_list [] ys = (ys = [])"
| "py_eq_list (x # xs) ys = (case ys of [] \<Rightarrow> False | y # zs \<Rightarrow> py_eq x y \<and> py_eq_list xs zs)"
| "py_eq_items [] e = True"
| "py_eq_items ((k, v) # d) e = ((case dict_get e k of None \<Rightarrow> False | Some w \<Rightarrow> py_eq v w) \<and> py_eq_items d e)"


section \<open>The Orion gateway\<close>

record entity_observation =
  o_entity_id :: string
  o_attribute :: string
  o_value :: json
  o_broker :: string

fun truthy :: "json \<Rightarrow> bool" where
  "truthy JNull = False"
| "truthy (JBool b) = b"
| "truthy (JInt i) = (i \<noteq> 0)"
| "truthy (JFloat t) = (float_value t \<noteq> Some 0)"
| "truthy (JStr s) = (s \<noteq> [])"
| "truthy (JList xs) = (xs \<noteq> [])"
| "truthy (JObj d) = (d \<noteq> [])"

definition json_get :: "json \<Rightarrow> string \<Rightarrow> json result" where
  \<comment> \<open>\<open>d.get(k)\<close>\<close>
  "json_get d k = get_default d k JNull"

definition or_empty :: "json \<Rightarrow> json" where
  \<comment> \<open>\<open>x or {}\<close>\<close>
  "or_empty v = (if truthy v then v else JObj [])"

definition doc_entity_id :: "json \<Rightarrow> json result" where
  \<comment> \<open>\<open>_entity_id\<close>; \<open>JNull\<close> is \<open>None\<close>\<close>
  "doc_entity_id doc =
     bindr (json_get doc ''_id'') (\<lambda>raw. case raw of JObj d \<Rightarrow> json_get raw ''id'' | _ \<Rightarrow> Inr JNull)"

definition entity_id_from_change :: "json \<Rightarrow> json result" where
  "entity_id_from_change change =
     bindr (json_get change ''documentKey'') (\<lambda>key0.
     bindr (json_get (or_empty key0) ''_id'') (\<lambda>raw.
     bindr (case raw of JObj d \<Rightarrow> json_get raw ''id'' | _ \<Rightarrow> Inr JNull) (\<lambda>i.
       if truthy i then Inr i
       else bindr (json_get change ''fullDocument'') (\<lambda>full0.
            bindr (json_get (or_empty full0) ''_id'') (\<lambda>raw'.
              case raw' of JObj d \<Rightarrow> json_get raw' ''id'' | _ \<Rightarrow> Inr JNull)))))"

fun json_items :: "json \<Rightarrow> (string \<times> json) list result" where
  "json_items (JObj d) = Inr d"
| "json_items _ = Inl AttributeError"

fun attr_value :: "json \<Rightarrow> json" where
  \<comment> \<open>\<open>attr_body.get("value") if isinstance(attr_body, dict) else attr_body\<close>\<close>
  "attr_value (JObj d) = (case dict_get d ''value'' of None \<Rightarrow> JNull | Some v \<Rightarrow> v)"
| "attr_value v = v"

definition doc_observations :: "string \<Rightarrow> json \<Rightarrow> entity_observation list result" where
  \<comment> \<open>the body of the loop of \<open>observations\<close>\<close>
  "doc_observations host doc =
     bindr (doc_entity_id doc) (\<lambda>eid.
       if eid = JNull then Inr []
       else bindr (as_str eid) (\<lambda>e.
            bindr (json_get doc ''attrs'') (\<lambda>attrs.
            bindr (json_items (or_empty attrs)) (\<lambda>items.
              Inr (map (\<lambda>(a, body). \<lparr>o_entity_id = e, o_attribute = a, o_value = attr_value body, o_broker = host\<rparr>)
                     items)))))"

definition observations :: "string \<Rightarrow> json list \<Rightarrow> entity_observation list result" where
  "observations host docs = bindr (mapr (doc_observations host) docs) (\<lambda>oss. Inr (concat oss))"

definition host_from_reference :: "(string \<Rightarrow> string option) \<Rightarrow> string \<Rightarrow> string option" where
  "host_from_reference hostname ref =
     (case hostname ref of
        Some h \<Rightarrow> if h \<noteq> [] then Some h else hostname (''//'' @ ref)
      | None \<Rightarrow> hostname (''//'' @ ref))"

fun federated_hosts :: "(string \<Rightarrow> string option) \<Rightarrow> string \<Rightarrow> string list \<Rightarrow> string list \<Rightarrow> string list" where
  \<comment> \<open>the loop of \<open>federated_brokers\<close>\<close>
  "federated_hosts hostname main hosts [] = hosts"
| "federated_hosts hostname main hosts (ref # refs) =
     federated_hosts hostname main
       (case host_from_reference hostname ref of
          Some h \<Rightarrow> if h \<noteq> [] \<and> h \<noteq> main \<and> h \<notin> set hosts then hosts @ [h] else hosts
        | None \<Rightarrow> hosts) refs"


section \<open>Checking\<close>

definition obs_key :: "entity_observation \<Rightarrow> string \<times> string" where
  "obs_key ob = (o_entity_id ob, o_attribute ob)"

fun main_index :: "(string \<times> string, json) dict \<Rightarrow> entity_observation list \<Rightarrow> (string \<times> string, json) dict" where
  \<comment> \<open>the dictionary comprehension of \<open>check\<close>: a later observation overwrites\<close>
  "main_index d [] = d"
| "main_index d (ob # obs) = main_index (dict_set (obs_key ob) (o_value ob) d) obs"

definition observed_record ::
    "crypto \<Rightarrow> confidentiality \<Rightarrow> int \<Rightarrow> string \<Rightarrow> entity_observation \<Rightarrow> verdict \<Rightarrow> integrity_record" where
  "observed_record C cf now broker ob v =
     \<lparr>entity_id = entity_ref C cf (o_entity_id ob), attribute = o_attribute ob,
      value_hash = commit_value C cf (o_value ob), source_broker = broker, r_verdict = v,
      observed_at = now, observer = [], r_signature = []\<rparr>"

definition check ::
    "crypto \<Rightarrow> confidentiality \<Rightarrow> int \<Rightarrow> entity_observation list \<Rightarrow> string list \<Rightarrow> (string \<Rightarrow> entity_observation list)
     \<Rightarrow> integrity_record list" where
  \<comment> \<open>\<open>IntegrityChecker.check\<close> on what the gateway returns\<close>
  "check C cf now main brokers obs =
     (let idx = main_index [] main in
      concat (map (\<lambda>broker. map (\<lambda>ob.
        observed_record C cf now broker ob
          (case dict_get idx (obs_key ob) of
             None \<Rightarrow> TAMPERED
           | Some expected \<Rightarrow> if \<not> py_eq expected (o_value ob) then TAMPERED else OK)) (obs broker)) brokers))"

definition dedup_key :: "crypto \<Rightarrow> integrity_record \<Rightarrow> string" where
  "dedup_key C r = record_id C (r\<lparr>observed_at := 0, observer := [], r_signature := []\<rparr>)"

fun filter_new :: "crypto \<Rightarrow> string list \<Rightarrow> integrity_record list \<Rightarrow> string list \<times> integrity_record list" where
  \<comment> \<open>the deduper's set and the fresh records\<close>
  "filter_new C seen [] = (seen, [])"
| "filter_new C seen (r # rs) =
     (if dedup_key C r \<notin> set seen
      then (let (seen', fresh) = filter_new C (dedup_key C r # seen) rs in (seen', r # fresh))
      else filter_new C seen rs)"

definition run_check ::
    "crypto \<Rightarrow> confidentiality \<Rightarrow> int \<Rightarrow> entity_observation list \<Rightarrow> string list \<Rightarrow> (string \<Rightarrow> entity_observation list)
     \<Rightarrow> string list \<Rightarrow> node \<Rightarrow> (string list \<times> outcome) option" where
  \<comment> \<open>\<open>run_check\<close> of \<open>monitor_loop\<close>: check, filter, submit, tick\<close>
  "run_check C cf now main brokers obs seen n =
     (let (seen', fresh) = filter_new C seen (check C cf now main brokers obs) in
      case (if fresh \<noteq> [] then submit_records C fresh n else Some (None, n)) of
        None \<Rightarrow> None
      | Some (Some e, n') \<Rightarrow> Some (seen', (Some e, n'))
      | Some (None, n') \<Rightarrow> map_option (\<lambda>out. (seen', out)) (tick C n'))"


section \<open>Checking: the reference\<close>

text \<open>
  The main broker may have several observations of one entity and attribute (Orion identifies
  entities by id and type); the last one counts.
\<close>

definition last_agrees :: "entity_observation list \<Rightarrow> entity_observation \<Rightarrow> bool" where
  \<comment> \<open>the last observation of the same entity and attribute has an equal value\<close>
  "last_agrees main ob \<longleftrightarrow> (\<exists>before m after. main = before @ m # after \<and> obs_key m = obs_key ob \<and>
     (\<forall>x \<in> set after. obs_key x \<noteq> obs_key ob) \<and> py_eq (o_value m) (o_value ob))"

lemma last_agrees_Nil [simp]: "\<not> last_agrees [] ob"
  by (simp add: last_agrees_def)

lemma last_agrees_snoc [simp]:
  "last_agrees (main @ [m]) ob \<longleftrightarrow> (if obs_key m = obs_key ob then py_eq (o_value m) (o_value ob) else last_agrees main ob)"
proof (cases "obs_key m = obs_key ob")
  case True
  have "py_eq (o_value m) (o_value ob)" if la: "last_agrees (main @ [m]) ob"
  proof -
    obtain before x after where x: "main @ [m] = before @ x # after" "\<forall>y \<in> set after. obs_key y \<noteq> obs_key ob"
      "py_eq (o_value x) (o_value ob)" using la unfolding last_agrees_def by blast
    then have "after = []" using True by (cases after rule: rev_cases) auto
    then show ?thesis using x by simp
  qed
  moreover have "last_agrees (main @ [m]) ob" if "py_eq (o_value m) (o_value ob)"
    unfolding last_agrees_def using True that by (intro exI [of _ main] exI [of _ m] exI [of _ "[]"]) simp
  ultimately show ?thesis using True by auto
next
  case False
  have "last_agrees main ob" if la: "last_agrees (main @ [m]) ob"
  proof -
    obtain before x after where x: "main @ [m] = before @ x # after" "obs_key x = obs_key ob" "\<forall>y \<in> set after. obs_key y \<noteq> obs_key ob"
      "py_eq (o_value x) (o_value ob)" using la unfolding last_agrees_def by blast
    then obtain after' where "after = after' @ [m]" using False by (cases after rule: rev_cases) auto
    then show ?thesis using x unfolding last_agrees_def by auto
  qed
  moreover have "last_agrees (main @ [m]) ob" if la: "last_agrees main ob"
  proof -
    obtain before x after where "main = before @ x # after" "obs_key x = obs_key ob" "\<forall>y \<in> set after. obs_key y \<noteq> obs_key ob"
      "py_eq (o_value x) (o_value ob)" using la unfolding last_agrees_def by blast
    then show ?thesis unfolding last_agrees_def using False
      by (intro exI [of _ before] exI [of _ x] exI [of _ "after @ [m]"]) simp
  qed
  ultimately show ?thesis using False by auto
qed

lemma last_agrees_single [simp]:
  "last_agrees [m] ob \<longleftrightarrow> obs_key m = obs_key ob \<and> py_eq (o_value m) (o_value ob)"
  using last_agrees_snoc [of "[]" m ob] by simp

lemma main_index_append: "main_index d (obs @ [ob]) = dict_set (obs_key ob) (o_value ob) (main_index d obs)"
  by (induction d obs rule: main_index.induct) simp_all

lemma main_index_last:
  "(case dict_get (main_index [] main) (obs_key ob) of None \<Rightarrow> False | Some v \<Rightarrow> py_eq v (o_value ob)) = last_agrees main ob"
  by (induction main rule: rev_induct) (simp_all add: main_index_append)

lemma check_verdict_eq:
  "check C cf now main brokers obs = concat (map (\<lambda>broker. map (\<lambda>ob.
     observed_record C cf now broker ob (if last_agrees main ob then OK else TAMPERED)) (obs broker)) brokers)"
proof -
  have "(case dict_get (main_index [] main) (obs_key ob) of
        None \<Rightarrow> TAMPERED | Some expected \<Rightarrow> if \<not> py_eq expected (o_value ob) then TAMPERED else OK)
      = (if last_agrees main ob then OK else TAMPERED)" for ob
    using main_index_last [where main = main and ob = ob] by (cases "dict_get (main_index [] main) (obs_key ob)") simp_all
  then show ?thesis by (simp add: check_def)
qed


section \<open>Filtering\<close>

definition keys_of :: "crypto \<Rightarrow> integrity_record list \<Rightarrow> string set" where
  "keys_of C rs = dedup_key C ` set rs"

lemma keys_of_simps [simp]:
  "keys_of C [] = {}" "keys_of C (rs @ ss) = keys_of C rs \<union> keys_of C ss" "keys_of C rs = {} \<longleftrightarrow> rs = []"
  by (auto simp: keys_of_def)

lemma filter_new_spec:
  "filter_new C seen rs = (seen', fresh) \<Longrightarrow>
     set seen' = set seen \<union> keys_of C rs \<and> keys_of C fresh = keys_of C rs - set seen \<and>
     distinct (map (dedup_key C) fresh) \<and> set fresh \<subseteq> set rs"
proof (induction C seen rs arbitrary: seen' fresh rule: filter_new.induct)
  case (2 C seen r rs)
  show ?case
  proof (cases "dedup_key C r \<in> set seen")
    case True
    with "2.prems" have f: "filter_new C seen rs = (seen', fresh)" by simp
    have "keys_of C (r # rs) = insert (dedup_key C r) (keys_of C rs)" by (simp add: keys_of_def)
    with "2.IH"(2) [OF _ f] True show ?thesis by auto
  next
    case False
    obtain fr where f: "filter_new C (dedup_key C r # seen) rs = (seen', fr)" "fresh = r # fr"
      using "2.prems" False by (auto simp: Let_def split: prod.splits)
    from "2.IH"(1) [OF False f(1)] have
      "set seen' = insert (dedup_key C r) (set seen) \<union> keys_of C rs" "set fr \<subseteq> set rs" "distinct (map (dedup_key C) fr)"
      "keys_of C fr = keys_of C rs - insert (dedup_key C r) (set seen)" by simp_all
    moreover have "keys_of C (r # xs) = insert (dedup_key C r) (keys_of C xs)" for xs by (simp add: keys_of_def)
    moreover have "dedup_key C r \<notin> set (map (dedup_key C) fr)" using calculation(4) by (auto simp: keys_of_def)
    ultimately show ?thesis using f(2) False by auto
  qed
qed (auto simp: keys_of_def)

fun filter_batches :: "crypto \<Rightarrow> string list \<Rightarrow> integrity_record list list \<Rightarrow> integrity_record list list" where
  \<comment> \<open>the outputs of successive calls of \<open>filter_new\<close> on one deduper\<close>
  "filter_batches C seen [] = []"
| "filter_batches C seen (rs # rss) =
     (let (seen', fresh) = filter_new C seen rs in fresh # filter_batches C seen' rss)"

lemma filter_batches_spec:
  "keys_of C (concat (filter_batches C seen rss)) = keys_of C (concat rss) - set seen \<and>
     distinct (map (dedup_key C) (concat (filter_batches C seen rss)))"
proof (induction C seen rss rule: filter_batches.induct)
  case (2 C seen rs rss)
  obtain seen' fresh where f: "filter_new C seen rs = (seen', fresh)" by fastforce
  note a = filter_new_spec [OF f] and b = "2.IH" [OF f [symmetric] refl]
  have "keys_of C fresh \<inter> keys_of C (concat (filter_batches C seen' rss)) = {}" using a b by blast
  then have "distinct (map (dedup_key C) (fresh @ concat (filter_batches C seen' rss)))"
    using a b unfolding keys_of_def by (simp only: map_append distinct_append set_map)
  moreover have "keys_of C (fresh @ concat (filter_batches C seen' rss)) = keys_of C (rs @ concat rss) - set seen"
    using a b by auto
  ultimately show ?case by (simp add: f del: keys_of_simps map_append)
qed simp

lemma filter_batches_seen:
  "keys_of C (concat rss) \<subseteq> set seen \<Longrightarrow> concat (filter_batches C seen rss) = []"
proof -
  assume "keys_of C (concat rss) \<subseteq> set seen"
  then have "keys_of C (concat (filter_batches C seen rss)) = {}" using filter_batches_spec [of C seen rss] by blast
  then show ?thesis by (simp only: keys_of_simps)
qed

lemma filter_batches_append:
  "\<exists>seen'. filter_batches C seen (rss @ tss) = filter_batches C seen rss @ filter_batches C seen' tss \<and>
     set seen' = set seen \<union> keys_of C (concat rss)"
proof (induction C seen rss rule: filter_batches.induct)
  case (2 C seen rs rss)
  obtain seen' fresh where f: "filter_new C seen rs = (seen', fresh)" by fastforce
  obtain s where "filter_batches C seen' (rss @ tss) = filter_batches C seen' rss @ filter_batches C s tss"
    "set s = set seen' \<union> keys_of C (concat rss)" using "2.IH" [OF f [symmetric] refl] by blast
  then show ?case using filter_new_spec [OF f] f by (intro exI [of _ s]) auto
qed auto


section \<open>Properties\<close>

definition demo_obs :: "json \<Rightarrow> string \<Rightarrow> entity_observation" where
  "demo_obs v broker = \<lparr>o_entity_id = ''urn:s1'', o_attribute = ''open'', o_value = v, o_broker = broker\<rparr>"

text \<open>A change of type can go unnoticed. The values are compared with Python's equality, by
  which \<open>True\<close> equals 1: a federated broker that reports \<open>true\<close> where the main broker has
  1 gets the verdict OK, although the committed value is another one.\<close>

theorem type_change_undetected:
  "\<exists>main fed. o_value main \<noteq> o_value fed \<and>
     commit_value demo_crypto (make_confidentiality None False) (o_value main)
       \<noteq> commit_value demo_crypto (make_confidentiality None False) (o_value fed) \<and>
     map r_verdict (check demo_crypto (make_confidentiality None False) 5 [main] [''f''] (\<lambda>_. [fed])) = [OK]"
  by (intro exI [of _ "demo_obs (JInt 1) ''main''"] exI [of _ "demo_obs (JBool True) ''f''"]) code_simp

text \<open>C36: the deduper forwards each content once, for ever. Over any sequence of batches, the
  forwarded records have pairwise different content keys, and exactly the contents that occurred
  are forwarded; a batch whose contents have all occurred before is dropped entirely, also if
  the observed value changed in between and changed back.\<close>

theorem dedup_forwards_once:
  assumes "filter_batches C [] (rss @ [rs]) = outs @ [last_out]"
  shows "distinct (map (dedup_key C) (concat (outs @ [last_out]))) \<and>
    keys_of C (concat (outs @ [last_out])) = keys_of C (concat (rss @ [rs])) \<and>
    (keys_of C rs \<subseteq> keys_of C (concat rss) \<longrightarrow> last_out = [])"
proof -
  obtain seen' where s: "filter_batches C [] (rss @ [rs]) = filter_batches C [] rss @ filter_batches C seen' [rs]"
    "set seen' = keys_of C (concat rss)"
    using filter_batches_append [of C "[]" rss "[rs]"] by auto
  have "last_out = concat (filter_batches C seen' [rs])"
    using assms s(1) by (auto simp: Let_def split: prod.splits)
  then have "keys_of C rs \<subseteq> keys_of C (concat rss) \<longrightarrow> last_out = []"
    using filter_batches_seen [of C "[rs]" seen'] s(2) by (simp del: filter_batches.simps)
  then show ?thesis using filter_batches_spec [of C "[]" "rss @ [rs]"] unfolding assms by simp
qed

theorem dedup_forwards_once_witness:
  "\<exists>outs. filter_batches demo_crypto [] ([[demo_record], [demo_record\<lparr>r_verdict := TAMPERED\<rparr>]] @ [[demo_record]])
     = outs @ [[]]"
proof -
  let ?b = "[[demo_record], [demo_record\<lparr>r_verdict := TAMPERED\<rparr>]]"
  have "filter_batches demo_crypto [] (?b @ [[demo_record]]) \<noteq> []" by (simp add: Let_def split: prod.splits)
  then obtain outs l where o: "filter_batches demo_crypto [] (?b @ [[demo_record]]) = outs @ [l]"
    by (cases "filter_batches demo_crypto [] (?b @ [[demo_record]])" rule: rev_cases) blast+
  from dedup_forwards_once [OF o] have "l = []" by (simp add: keys_of_def del: concat_append)
  with o show ?thesis by blast
qed

end
