(* ===== verification/Legacy.thy ===== *)
theory Legacy
  imports Collectors Config
begin

text \<open>
  The first version of the system, kept under \<^verbatim>\<open>src/legacy\<close> as the reference of the domain: the
  proof-of-work chain of \<^verbatim>\<open>Block.py\<close> and its genesis block (\<^verbatim>\<open>Principal.py\<close>), and of
  \<^verbatim>\<open>Funcoes.py\<close> the detection of new and of adulterated documents. Queries to MongoDB are
  arguments, given by their results; so is \<open>str\<close> of a document, which prints values of the
  driver's types. \<open>findBlock\<close> searches without a bound: not returning is \<open>None\<close>.
\<close>

section \<open>The chain\<close>

record legacy_block =
  lb_index :: int
  previousHash :: string
  lb_timestamp :: int
  lb_data :: string
  lb_hash :: string
  difficulty :: int
  nonce :: int

type_synonym legacy_chain = "legacy_block list"

definition make_legacy_chain :: "legacy_block \<Rightarrow> legacy_chain" where
  "make_legacy_chain genesisBlock = [genesisBlock]"

definition DIFFICULTY_ADJUSTMENT :: int where
  "DIFFICULTY_ADJUSTMENT = 50"

definition BLOCK_INTERVAL :: int where
  "BLOCK_INTERVAL = 120"

definition calculateHash :: "crypto \<Rightarrow> int \<Rightarrow> string \<Rightarrow> int \<Rightarrow> string \<Rightarrow> int \<Rightarrow> int \<Rightarrow> string" where
  "calculateHash C i prev ts d diff non =
     sha256_hex C (show_int i @ prev @ show_int ts @ d @ show_int diff @ show_int non)"

definition getLastestBlock :: "legacy_chain \<Rightarrow> legacy_block" where
  "getLastestBlock bc = bc ! (length bc - 1)"

definition py_nth :: "'a list \<Rightarrow> int \<Rightarrow> 'a result" where
  \<comment> \<open>\<open>xs[i]\<close>, with a negative index counted from the end\<close>
  "py_nth xs i =
     (let j = (if i < 0 then i + int (length xs) else i) in
      if 0 \<le> j \<and> j < int (length xs) then Inr (xs ! nat j) else Inl IndexError)"

definition getAdjustedDifficulty :: "legacy_chain \<Rightarrow> int result" where
  "getAdjustedDifficulty bc =
     bindr (py_nth bc (int (length bc) - DIFFICULTY_ADJUSTMENT)) (\<lambda>prevAdjustmentBlock.
       let timeExpected = BLOCK_INTERVAL * DIFFICULTY_ADJUSTMENT;
           timeTaken = lb_timestamp (getLastestBlock bc) - lb_timestamp prevAdjustmentBlock
       in Inr (if timeTaken < timeExpected * 2 then difficulty prevAdjustmentBlock + 1
               else if timeTaken > timeExpected * 2 then difficulty prevAdjustmentBlock - 1
               else difficulty prevAdjustmentBlock))"

definition getDifficulty :: "legacy_chain \<Rightarrow> int result" where
  "getDifficulty bc =
     (let latestBlock = getLastestBlock bc in
      if lb_index latestBlock mod DIFFICULTY_ADJUSTMENT = 0 \<and> lb_index latestBlock \<noteq> 0
      then getAdjustedDifficulty bc else Inr (difficulty latestBlock))"

definition a2b_hex :: "string \<Rightarrow> bytes result" where
  \<comment> \<open>\<open>binascii.a2b_hex\<close>: unlike \<open>bytes.fromhex\<close>, it accepts no white space; its error is a \<open>ValueError\<close>\<close>
  "a2b_hex s = (if list_ex is_space s then Inl ValueError else bytes_fromhex s)"

definition hashMatchesDifficulty :: "string \<Rightarrow> int \<Rightarrow> bool result" where
  "hashMatchesDifficulty h diff =
     bindr (a2b_hex h) (\<lambda>hashBinary.
     bindr (a2b_hex (strip (replicate (nat diff) (CHR ''0'')))) (\<lambda>requiredPrefix.
       Inr (take (length requiredPrefix) hashBinary = requiredPrefix)))"

partial_function (option) find_from ::
    "crypto \<Rightarrow> legacy_chain \<Rightarrow> int \<Rightarrow> string \<Rightarrow> int \<Rightarrow> string \<Rightarrow> int \<Rightarrow> int \<Rightarrow> legacy_block result option" where
  \<comment> \<open>the loop of \<open>findBlock\<close>\<close>
  "find_from C bc i prev ts d diff non =
     (let h = calculateHash C i prev ts d diff non in
      case bindr (getDifficulty bc) (hashMatchesDifficulty h) of
        Inl e \<Rightarrow> Some (Inl e)
      | Inr found \<Rightarrow>
          if found then Some (Inr \<lparr>lb_index = i, previousHash = prev, lb_timestamp = ts, lb_data = d, lb_hash = h,
                                   difficulty = diff, nonce = non\<rparr>)
          else find_from C bc i prev ts d diff (non + 1))"

definition findBlock ::
    "crypto \<Rightarrow> legacy_chain \<Rightarrow> int \<Rightarrow> string \<Rightarrow> int \<Rightarrow> string \<Rightarrow> int \<Rightarrow> legacy_block result option" where
  "findBlock C bc i prev ts d diff = find_from C bc i prev ts d diff 0"

definition validatingBlock :: "legacy_block \<Rightarrow> legacy_chain \<Rightarrow> bool" where
  "validatingBlock newBlock bc =
     (let previousBlock = getLastestBlock bc in
      if lb_index previousBlock + 1 \<noteq> lb_index newBlock then False
      else if lb_hash previousBlock \<noteq> previousHash newBlock then False
      else True)"

definition generateNextBlock :: "crypto \<Rightarrow> int \<Rightarrow> string \<Rightarrow> legacy_chain \<Rightarrow> legacy_chain result option" where
  \<comment> \<open>\<open>now\<close> is the clock in milliseconds; an exception leaves the chain as it is\<close>
  "generateNextBlock C now d bc =
     (let previousBlock = getLastestBlock bc; nextIndex = lb_index previousBlock + 1;
          nextPreviousHash = lb_hash previousBlock
      in case getDifficulty bc of
           Inl e \<Rightarrow> Some (Inl e)
         | Inr nextdifficulty \<Rightarrow>
             let newBlock = \<lparr>lb_index = nextIndex, previousHash = nextPreviousHash, lb_timestamp = now, lb_data = d,
                   lb_hash = calculateHash C nextIndex nextPreviousHash now d nextdifficulty 0,
                   difficulty = nextdifficulty, nonce = 0\<rparr>
             in if validatingBlock newBlock bc
                then map_option (\<lambda>r. bindr r (\<lambda>b. Inr (bc @ [b])))
                       (findBlock C bc nextIndex nextPreviousHash now d nextdifficulty)
                else Some (Inr bc))"

definition legacy_genesis :: "crypto \<Rightarrow> int \<Rightarrow> legacy_block" where
  \<comment> \<open>of \<open>main\<close>: hashed with an empty previous hash, stored with a blank\<close>
  "legacy_genesis C ts = \<lparr>lb_index = 0, previousHash = '' '', lb_timestamp = ts, lb_data = ''Genesis block'',
     lb_hash = calculateHash C 0 '''' ts ''Genesis block'' 2 0, difficulty = 2, nonce = 0\<rparr>"

fun banco_from ::
    "(legacy_block \<Rightarrow> py_error option) \<Rightarrow> nat \<Rightarrow> legacy_chain \<Rightarrow> nat list \<Rightarrow> legacy_block list
     \<Rightarrow> py_error option \<times> nat list \<times> legacy_block list" where
  "banco_from execute k [] lastreslt table = (None, lastreslt, table)"
| "banco_from execute k (b # bs) lastreslt table =
     (if k \<notin> set lastreslt
      then (case execute b of
              Some e \<Rightarrow> (Some e, lastreslt, table)
            | None \<Rightarrow> banco_from execute (k + 1) bs (lastreslt @ [k]) (table @ [b]))
      else banco_from execute (k + 1) bs lastreslt table)"

definition bancoBlockChain ::
    "(legacy_block \<Rightarrow> py_error option) \<Rightarrow> legacy_chain \<Rightarrow> nat list \<Rightarrow> legacy_block list
     \<Rightarrow> py_error option \<times> nat list \<times> legacy_block list" where
  \<comment> \<open>blocks are compared by identity: an object is its position in the chain. The default
      argument \<open>lastreslt\<close> persists between calls; \<open>execute\<close> is the answer of the database\<close>
  "bancoBlockChain execute bc lastreslt table = banco_from execute 0 bc lastreslt table"


section \<open>Detecting changes\<close>

fun monitora :: "json list \<Rightarrow> json list \<Rightarrow> json list \<times> json list" where
  \<comment> \<open>the default argument \<open>lastreslt\<close>, which all calls share, and the new documents\<close>
  "monitora lastreslt [] = (lastreslt, [])"
| "monitora lastreslt (x # xs) =
     (if \<not> list_ex (\<lambda>y. py_eq x y) lastreslt
      then (let (seen, prova) = monitora (lastreslt @ [x]) xs in (seen, x # prova))
      else monitora lastreslt xs)"

fun validaFederados :: "(json \<Rightarrow> string) \<Rightarrow> json list \<Rightarrow> json list \<Rightarrow> (json list \<times> string list) result" where
  \<comment> \<open>the confirmed documents, and the devices reported as adulterated\<close>
  "validaFederados str [] helix2 = Inr ([], [])"
| "validaFederados str (x # xs) helix2 =
     (if list_ex (\<lambda>y. py_eq x y) helix2
      then bindr (validaFederados str xs helix2) (\<lambda>(ok, reported). Inr (x # ok, reported))
      else bindr (py_nth (split_all (CHR 0x27) (str x)) 5) (\<lambda>a.
           bindr (validaFederados str xs helix2) (\<lambda>(ok, reported). Inr (ok, a # reported))))"

fun atualizar :: "crypto \<Rightarrow> (json \<Rightarrow> string) \<Rightarrow> (json \<times> int) list \<Rightarrow> legacy_chain \<Rightarrow> (py_error option \<times> legacy_chain) option" where
  \<comment> \<open>each document with the clock at its turn\<close>
  "atualizar C str [] bc = Some (None, bc)"
| "atualizar C str ((x, now) # xs) bc =
     (case generateNextBlock C now (str x) bc of
        None \<Rightarrow> None
      | Some (Inl e) \<Rightarrow> Some (Some e, bc)
      | Some (Inr bc') \<Rightarrow> atualizar C str xs bc')"

definition federado_host :: "string \<Rightarrow> string result" where
  "federado_host srt =
     bindr (py_nth (split_all (CHR ''/'') srt) 2) (\<lambda>s. py_nth (split_all (CHR '':'') s) 0)"

definition findFederado :: "string list \<Rightarrow> string list result" where
  "findFederado references = mapr federado_host references"


section \<open>Mining\<close>

lemma getLastestBlock_snoc [simp]: "getLastestBlock (bc @ [b]) = b"
  by (simp add: getLastestBlock_def)

lemma zero_digit: "\<not> is_space (CHR ''0'')" "\<not> str_space (CHR ''0'')" "nibble_val (CHR ''0'') = Some 0"
  by code_simp+

lemma zeros_no_space: "\<not> list_ex is_space (replicate n (CHR ''0''))"
  by (induction n) (simp_all add: zero_digit)

lemma strip_zeros: "strip (replicate n (CHR ''0'')) = replicate n (CHR ''0'')"
  by (rule strip_id) (simp add: zero_digit)

lemma fromhex_zeros_odd: "bytes_fromhex (replicate (2 * n + 1) (CHR ''0'')) = Inl ValueError"
  by (induction n) (simp_all add: zero_digit)

lemma a2b_hex_hex [simp]: "a2b_hex (hex_of_bytes bs) = Inr bs"
proof -
  have "\<not> list_ex is_space (hex_of_bytes bs)" by (induction bs) simp_all
  then show ?thesis by (simp add: a2b_hex_def)
qed

lemma odd_difficulty_raises:
  assumes "0 < diff" "odd diff"
  shows "hashMatchesDifficulty (hex_of_bytes x) diff = Inl ValueError"
proof -
  have "odd (nat diff)" using assms by (simp add: even_nat_iff)
  then have "nat diff = 2 * (nat diff div 2) + 1" by simp
  then have "a2b_hex (strip (replicate (nat diff) (CHR ''0''))) = Inl ValueError"
    using fromhex_zeros_odd [of "nat diff div 2"] by (metis a2b_hex_def strip_zeros zeros_no_space)
  then show ?thesis by (simp add: hashMatchesDifficulty_def)
qed

lemma hash_two: "hashMatchesDifficulty (hex_of_bytes x) 2 = Inr (take 1 x = [CHR 0x00])"
proof -
  have "a2b_hex (strip (replicate (nat 2) (CHR ''0''))) = Inr [CHR 0x00]" by code_simp
  then show ?thesis by (simp add: hashMatchesDifficulty_def)
qed

definition mined_from :: "crypto \<Rightarrow> legacy_chain \<Rightarrow> legacy_block \<Rightarrow> bool" where
  \<comment> \<open>the block has its own hash, which meets the difficulty at the end of the chain\<close>
  "mined_from C bc b \<longleftrightarrow>
     lb_hash b = calculateHash C (lb_index b) (previousHash b) (lb_timestamp b) (lb_data b) (difficulty b) (nonce b) \<and>
     bindr (getDifficulty bc) (hashMatchesDifficulty (lb_hash b)) = Inr True"

lemma find_from_result:
  assumes "find_from C bc i prev ts d diff non = Some r"
  shows "\<forall>b. r = Inr b \<longrightarrow> mined_from C bc b \<and> lb_index b = i \<and> previousHash b = prev \<and> lb_timestamp b = ts \<and>
    lb_data b = d \<and> difficulty b = diff"
proof (rule find_from.raw_induct [OF _ assms], goal_cases)
  case (1 rec C bc i prev ts d diff non r)
  let ?m = "bindr (getDifficulty bc) (hashMatchesDifficulty (calculateHash C i prev ts d diff non))"
  show ?case
  proof (cases ?m)
    case (Inr found)
    show ?thesis
    proof (cases found)
      case True
      then show ?thesis using 1(2) Inr by (auto simp: mined_from_def Let_def)
    next
      case False
      then have "rec C bc i prev ts d diff (non + 1) = Some r" using 1(2) Inr by (simp add: Let_def)
      from 1(1) [OF this] show ?thesis .
    qed
  qed (use 1 in \<open>auto simp: Let_def\<close>)
qed

lemma find_from_returns:
  assumes "\<And>k. k \<le> n \<Longrightarrow> bindr (getDifficulty bc) (hashMatchesDifficulty (calculateHash C i prev ts d diff (non + int k))) = Inr (k = n)"
  shows "\<exists>b. find_from C bc i prev ts d diff non = Some (Inr b) \<and> nonce b = non + int n"
  using assms
proof (induction n arbitrary: non)
  case 0
  then show ?case by (subst find_from.simps) (simp add: Let_def)
next
  case (Suc n)
  have "\<exists>b. find_from C bc i prev ts d diff (non + 1) = Some (Inr b) \<and> nonce b = (non + 1) + int n"
  proof (rule Suc.IH)
    fix k assume "k \<le> n"
    then show "bindr (getDifficulty bc) (hashMatchesDifficulty (calculateHash C i prev ts d diff (non + 1 + int k))) = Inr (k = n)"
      using Suc.prems [of "Suc k"] by (simp add: algebra_simps)
  qed
  then show ?case using Suc.prems [of 0] by (subst find_from.simps) (simp add: Let_def ac_simps)
qed

lemma calculateHash_hex: "\<exists>x. calculateHash C i prev ts d diff non = hex_of_bytes x"
  by (auto simp: calculateHash_def sha256_hex_def)

lemma find_from_odd:
  assumes "getDifficulty bc = Inr dd" "0 < dd" "odd dd"
  shows "find_from C bc i prev ts d diff non = Some (Inl ValueError)"
proof -
  obtain x where "calculateHash C i prev ts d diff non = hex_of_bytes x" using calculateHash_hex by blast
  then show ?thesis using odd_difficulty_raises [OF assms(2,3)] assms(1) by (subst find_from.simps) (simp add: Let_def)
qed

lemma generate_validates [simp]:
  "validatingBlock \<lparr>lb_index = lb_index (getLastestBlock bc) + 1, previousHash = lb_hash (getLastestBlock bc), lb_timestamp = t,
     lb_data = d, lb_hash = h, difficulty = diff, nonce = non\<rparr> bc"
  by (simp add: validatingBlock_def)

lemma generate_cases:
  assumes "generateNextBlock C now d bc = Some (Inr bc')"
  shows "\<exists>b diff. bc' = bc @ [b] \<and> mined_from C bc b \<and> getDifficulty bc = Inr diff \<and> difficulty b = diff \<and>
    lb_index b = lb_index (getLastestBlock bc) + 1 \<and> previousHash b = lb_hash (getLastestBlock bc) \<and> lb_timestamp b = now \<and> lb_data b = d"
proof (cases "getDifficulty bc")
  case (Inr diff)
  then obtain r where r: "findBlock C bc (lb_index (getLastestBlock bc) + 1) (lb_hash (getLastestBlock bc)) now d diff = Some r"
    "bindr r (\<lambda>b. Inr (bc @ [b])) = Inr bc'"
    using assms by (auto simp: generateNextBlock_def Let_def)
  then obtain b where "r = Inr b" "bc' = bc @ [b]" by (auto simp: bindr_Inr_iff)
  then show ?thesis using find_from_result [OF r(1) [unfolded findBlock_def]] Inr by simp
qed (use assms in \<open>simp add: generateNextBlock_def\<close>)


section \<open>Chains of the program\<close>

inductive mined :: "crypto \<Rightarrow> legacy_chain \<Rightarrow> bool" for C where
  start: "mined C (make_legacy_chain (legacy_genesis C ts))"
| generate: "mined C bc \<Longrightarrow> generateNextBlock C now d bc = Some (Inr bc') \<Longrightarrow> mined C bc'"

definition linked :: "crypto \<Rightarrow> legacy_chain \<Rightarrow> bool" where
  \<comment> \<open>positions, links, own hashes, and the one difficulty with which a chain can grow\<close>
  "linked C bc \<longleftrightarrow> bc \<noteq> [] \<and> (\<forall>i < length bc. lb_index (bc ! i) = int i \<and> difficulty (bc ! i) = 2) \<and>
     (\<forall>i. Suc i < length bc \<longrightarrow> previousHash (bc ! Suc i) = lb_hash (bc ! i) \<and> mined_from C (take (Suc i) bc) (bc ! Suc i))"

lemma linked_difficulty:
  assumes "linked C bc" "getDifficulty bc = Inr diff"
  shows "diff \<in> {1, 2, 3} \<and> (diff = 2 \<or> lb_index (getLastestBlock bc) mod 50 = 0 \<and> lb_index (getLastestBlock bc) \<noteq> 0)"
proof -
  have d: "\<And>i. i < length bc \<Longrightarrow> difficulty (bc ! i) = 2" and n: "bc \<noteq> []" using assms(1) by (auto simp: linked_def)
  have p: "difficulty b = 2" if "py_nth bc i = Inr b" for i b
    using that d by (auto simp: py_nth_def Let_def split: if_splits)
  have l: "difficulty (getLastestBlock bc) = 2" using d [of "length bc - 1"] n by (simp add: getLastestBlock_def)
  show ?thesis
  proof (cases "lb_index (getLastestBlock bc) mod 50 = 0 \<and> lb_index (getLastestBlock bc) \<noteq> 0")
    case True
    then have "getAdjustedDifficulty bc = Inr diff" using assms(2) by (simp add: getDifficulty_def DIFFICULTY_ADJUSTMENT_def)
    then obtain b where "py_nth bc (int (length bc) - DIFFICULTY_ADJUSTMENT) = Inr b" "diff \<in> {difficulty b + 1, difficulty b - 1, difficulty b}"
      by (auto simp: getAdjustedDifficulty_def Let_def bindr_Inr_iff)
    then show ?thesis using p True by auto
  next
    case False
    then have "getDifficulty bc = Inr 2" using l by (auto simp: getDifficulty_def DIFFICULTY_ADJUSTMENT_def)
    then show ?thesis using assms(2) by simp
  qed
qed

lemma mined_linked: "mined C bc \<Longrightarrow> linked C bc"
proof (induction rule: mined.induct)
  case (start ts)
  then show ?case by (simp add: linked_def make_legacy_chain_def legacy_genesis_def)
next
  case (generate bc now d bc')
  obtain b diff where b: "bc' = bc @ [b]" "mined_from C bc b" "getDifficulty bc = Inr diff" "difficulty b = diff"
    "lb_index b = lb_index (getLastestBlock bc) + 1" "previousHash b = lb_hash (getLastestBlock bc)"
    using generate_cases [OF generate.hyps(2)] by blast
  obtain x where x: "lb_hash b = hex_of_bytes x" using b(2) calculateHash_hex unfolding mined_from_def by metis
  have "diff = 2"
  proof (rule ccontr)
    assume "diff \<noteq> 2"
    then have "0 < diff" "odd diff" using linked_difficulty [OF generate.IH b(3)] by auto
    then show False using odd_difficulty_raises [of diff x] b(2,3) x by (simp add: mined_from_def)
  qed
  moreover have "bc \<noteq> []" "lb_index b = int (length bc - 1) + 1"
    using b(5) generate.IH by (auto simp: linked_def getLastestBlock_def)
  then have "lb_index b = int (length bc)" by (cases bc) simp_all
  moreover have "lb_hash (bc ! i) = lb_hash (getLastestBlock bc)" if "Suc i = length bc" for i
    using that by (simp add: getLastestBlock_def flip: that)
  ultimately show ?case using generate.IH b \<open>lb_index b = int (length bc)\<close>
    by (auto simp: linked_def nth_append less_Suc_eq)
qed

lemma mined_adjusts:
  assumes "mined C bc" "int (length bc) mod 50 = 1" "1 < length bc"
  shows "getDifficulty bc = Inr (let t = lb_timestamp (last bc) - lb_timestamp (bc ! (length bc - 50)) in
    if t < 12000 then 3 else if 12000 < t then 1 else 2)"
proof -
  have l: "linked C bc" by (rule mined_linked [OF assms(1)])
  then have i: "lb_index (getLastestBlock bc) = int (length bc) - 1" using assms(3) by (auto simp: linked_def getLastestBlock_def)
  have n: "51 \<le> length bc" using assms(2,3) by presburger
  then have "py_nth bc (int (length bc) - 50) = Inr (bc ! (length bc - 50))"
    by (auto simp: py_nth_def Let_def nat_diff_distrib)
  moreover have "difficulty (bc ! (length bc - 50)) = 2" using l n by (simp add: linked_def)
  moreover have "(int (length bc) - 1) mod 50 = 0" "int (length bc) - 1 \<noteq> 0" using assms(2,3) by presburger+
  moreover have "last bc = getLastestBlock bc" using n by (cases bc) (simp_all add: getLastestBlock_def last_conv_nth)
  ultimately show ?thesis
    using i by (simp add: getDifficulty_def getAdjustedDifficulty_def DIFFICULTY_ADJUSTMENT_def BLOCK_INTERVAL_def Let_def)
qed

lemma hash_ambiguous: "calculateHash C i prev 1 (CHR ''2'' # d) diff non = calculateHash C i prev 12 d diff non"
  \<comment> \<open>the fields are concatenated without separators: a digit of the data can belong to the timestamp\<close>
proof -
  have "show_int 1 = ''1''" "show_int 12 = ''12''" by code_simp+
  then show ?thesis by (simp add: calculateHash_def)
qed


section \<open>Persisting, monitoring, validating\<close>

lemma banco_from_keeps:
  assumes "banco_from execute k (drop k bc) [0..<max n k] (take (max n k) bc) = (e, seen, table)" "k \<le> length bc" "n \<le> length bc"
  shows "\<exists>m \<le> length bc. n \<le> m \<and> seen = [0..<m] \<and> table = take m bc \<and> (e = None \<longrightarrow> m = length bc)"
  using assms
proof (induction "length bc - k" arbitrary: k)
  case 0
  then show ?case by (intro exI [of _ "max n k"]) auto
next
  case (Suc l)
  then have d: "drop k bc = bc ! k # drop (k + 1) bc" by (simp add: Cons_nth_drop_Suc)
  have k: "k + 1 \<le> length bc" "l = length bc - (k + 1)" using Suc.hyps(2) by simp_all
  note IH = Suc.hyps(1) [OF k(2) _ k(1) Suc.prems(3)]
  show ?case
  proof (cases "k < n")
    case True
    then have "max n k = max n (k + 1)" "k \<in> set [0..<max n (k + 1)]" by auto
    then show ?thesis using IH Suc.prems(1) unfolding d by (simp only: banco_from.simps if_False not_True_eq_False)
  next
    case False
    then have m: "max n k = k" "max n (k + 1) = k + 1" by simp_all
    have u: "[0..<k] @ [k] = [0..<k + 1]" "take k bc @ [bc ! k] = take (k + 1) bc" "k \<notin> set [0..<k]"
      using k(1) by (simp_all add: take_Suc_conv_app_nth)
    show ?thesis
    proof (cases "execute (bc ! k)")
      case None
      then have "banco_from execute (k + 1) (drop (k + 1) bc) [0..<k + 1] (take (k + 1) bc) = (e, seen, table)"
        using Suc.prems(1) u(3) unfolding d m by (simp only: banco_from.simps u if_True not_False_eq_True option.case)
      then show ?thesis using IH unfolding m by blast
    next
      case (Some x)
      then have "e = Some x \<and> seen = [0..<k] \<and> table = take k bc"
        using Suc.prems(1) u(3) unfolding d m by (simp only: banco_from.simps if_True not_False_eq_True option.case) blast
      then show ?thesis using False Suc.prems(2) by (intro exI [of _ k]) simp
    qed
  qed
qed

lemma banco_writes_once:
  \<comment> \<open>the table holds the first blocks of the chain, each once; all of them after a call without error\<close>
  assumes "bancoBlockChain execute bc [0..<n] (take n bc) = (e, seen, table)" "n \<le> length bc"
  shows "\<exists>m \<le> length bc. n \<le> m \<and> seen = [0..<m] \<and> table = take m bc \<and> (e = None \<longrightarrow> m = length bc)"
  using banco_from_keeps [of execute 0 bc n] assms by (simp add: bancoBlockChain_def)

lemma monitora_spec:
  "monitora seen xs = (seen', prova) \<Longrightarrow>
     seen' = seen @ prova \<and> set prova \<subseteq> set xs \<and> (\<forall>x \<in> set xs. x \<in> set prova \<or> (\<exists>y \<in> set seen'. py_eq x y))"
proof (induction seen xs arbitrary: seen' prova rule: monitora.induct)
  case (2 seen x xs)
  show ?case
  proof (cases "list_ex (\<lambda>y. py_eq x y) seen")
    case True
    then show ?thesis using "2.IH"(2) "2.prems" by (auto simp: list_ex_iff)
  next
    case False
    then obtain p where "monitora (seen @ [x]) xs = (seen', p)" "prova = x # p"
      using "2.prems" by (auto simp: Let_def split: prod.splits)
    with "2.IH"(1) [OF False, of seen' p] show ?thesis by (simp only: append_assoc append.simps set_simps) blast
  qed
qed simp

lemma monitora_revert:
  \<comment> \<open>a value that returns to an earlier one is not reported\<close>
  "x \<in> set seen \<Longrightarrow> py_eq x x \<Longrightarrow> monitora seen [x] = (seen, [])"
  by (auto simp: list_ex_iff)

lemma validaFederados_spec:
  "validaFederados str h1 h2 = Inr (ok, reported) \<Longrightarrow>
     ok = filter (\<lambda>x. list_ex (\<lambda>y. py_eq x y) h2) h1 \<and> length ok + length reported = length h1"
proof (induction h1 arbitrary: ok reported)
  case (Cons x xs)
  show ?case
  proof (cases "list_ex (\<lambda>y. py_eq x y) h2")
    case True
    with Cons.prems obtain ok' where "validaFederados str xs h2 = Inr (ok', reported)" "ok = x # ok'"
      by (auto simp: bindr_Inr_iff)
    with Cons.IH True show ?thesis by auto
  next
    case False
    with Cons.prems obtain a rep' where "validaFederados str xs h2 = Inr (ok, rep')" "reported = a # rep'"
      by (auto simp: bindr_Inr_iff)
    with Cons.IH False show ?thesis by auto
  qed
qed simp

lemma validaFederados_missing:
  \<comment> \<open>a subscribed entity that the main broker does not hold is \<open>None\<close>, and its report raises\<close>
  assumes "str JNull = ''None''" "JNull \<notin> set h2"
  shows "validaFederados str (JNull # xs) h2 = Inl IndexError"
proof -
  have "split_all (CHR 0x27) ''None'' = [''None'']" by code_simp
  then show ?thesis using assms by (auto simp: list_ex_iff py_nth_def)
qed

lemma federado_host_url:
  assumes "CHR ''/'' \<notin> set h" "CHR '':'' \<notin> set h" "CHR ''/'' \<notin> set port"
  shows "federado_host (''http://'' @ h @ '':'' @ port @ ''/'' @ path) = Inr h"
proof -
  have "split_all (CHR ''/'') (''http://'' @ h @ '':'' @ port @ ''/'' @ path)
      = ''http:'' # [] # (h @ '':'' @ port) # split_all (CHR ''/'') path"
    using split_all_append [of "CHR ''/''" "h @ '':'' @ port" path] assms by simp
  moreover have "split_all (CHR '':'') (h @ '':'' @ port) = h # split_all (CHR '':'') port"
    using split_all_append [OF assms(2)] by simp
  ultimately show ?thesis by (simp add: federado_host_def py_nth_def del: split_all.simps)
qed

lemma atualizar_mined:
  "mined C bc \<Longrightarrow> atualizar C str xs bc = Some (e, bc') \<Longrightarrow> mined C bc' \<and> length bc' \<le> length bc + length xs \<and>
     (e = None \<longrightarrow> length bc' = length bc + length xs)"
proof (induction C str xs bc rule: atualizar.induct)
  case (2 C str x now xs bc)
  show ?case
  proof (cases "generateNextBlock C now (str x) bc")
    case (Some r)
    show ?thesis
    proof (cases r)
      case (Inl e')
      then show ?thesis using "2.prems" Some by auto
    next
      case (Inr bc1)
      with Some have g: "generateNextBlock C now (str x) bc = Some (Inr bc1)" by simp
      have "length bc1 = length bc + 1" using generate_cases [OF g] by auto
      then show ?thesis using "2.IH" [OF Some Inr] mined.generate [OF "2.prems"(1) g] "2.prems"(2) g by simp
    qed
  qed (use "2.prems" in simp)
qed auto


section \<open>Properties\<close>

text \<open>C40: the first version of the chain stops. Its chains are linked, with the index of each block
  its position, and every block but the first carries its own hash, of difficulty 2. After every
  fifty blocks the difficulty is adjusted by one; unless these blocks took exactly 12 seconds it
  becomes odd, and then the required prefix has an odd number of digits, which cannot be decoded:
  adding a block raises \<open>ValueError\<close> for all data, at all times, and the chain never grows again.\<close>

theorem adjustment_stops_chain:
  assumes "mined C bc" "int (length bc) mod 50 = 1" "1 < length bc"
    "lb_timestamp (last bc) - lb_timestamp (bc ! (length bc - 50)) \<noteq> 12000"
  shows "linked C bc \<and> generateNextBlock C now d bc = Some (Inl ValueError)"
proof -
  obtain dd where dd: "getDifficulty bc = Inr dd" "0 < dd" "odd dd"
    using mined_adjusts [OF assms(1-3)] assms(4) by (auto simp: Let_def)
  have "findBlock C bc i prev ts d dd = Some (Inl ValueError)" for i prev ts
    unfolding findBlock_def by (rule find_from_odd [OF dd])
  then show ?thesis using dd(1) mined_linked [OF assms(1)] by (simp add: generateNextBlock_def Let_def)
qed

definition zero_crypto :: crypto where
  \<comment> \<open>every digest meets the difficulty\<close>
  "zero_crypto = short_crypto\<lparr>sha256 := (\<lambda>_. [CHR 0x00])\<rparr>"

lemma zero_crypto_grows:
  "n \<le> 50 \<Longrightarrow> \<exists>bc. mined zero_crypto bc \<and> length bc = Suc n \<and> (\<forall>b \<in> set bc. lb_timestamp b = 0)"
proof (induction n)
  case 0
  show ?case using mined.start [of zero_crypto 0] by (auto simp: make_legacy_chain_def legacy_genesis_def)
next
  case (Suc n)
  then obtain bc where bc: "mined zero_crypto bc" "length bc = Suc n" "\<forall>b \<in> set bc. lb_timestamp b = 0" by auto
  have l: "lb_index (getLastestBlock bc) = int n" "difficulty (getLastestBlock bc) = 2"
    using mined_linked [OF bc(1)] bc(2) by (auto simp: linked_def getLastestBlock_def)
  have "int n mod 50 \<noteq> 0 \<or> n = 0" using Suc.prems by auto
  then have g: "getDifficulty bc = Inr 2" using l by (auto simp: getDifficulty_def DIFFICULTY_ADJUSTMENT_def)
  have "hashMatchesDifficulty (calculateHash zero_crypto i prev ts d diff non) 2 = Inr True" for i prev ts d diff non
    using hash_two [of "[CHR 0x00]"] by (simp add: calculateHash_def sha256_hex_def zero_crypto_def)
  then obtain b where "findBlock zero_crypto bc (int n + 1) (lb_hash (getLastestBlock bc)) 0 [] 2 = Some (Inr b)"
    using find_from_returns [of 0 bc zero_crypto "int n + 1" "lb_hash (getLastestBlock bc)" 0 "[]" 2 0] g by (auto simp: findBlock_def)
  then have gen: "generateNextBlock zero_crypto 0 [] bc = Some (Inr (bc @ [b]))"
    using g generate_validates [of bc 0 "[]"] l by (simp add: generateNextBlock_def Let_def)
  then have "lb_timestamp b = 0" using generate_cases [OF gen] by auto
  then show ?case using mined.generate [OF bc(1) gen] bc(2,3) by (intro exI [of _ "bc @ [b]"]) auto
qed

theorem adjustment_stops_chain_witness:
  "\<exists>bc. mined zero_crypto bc \<and> length bc = 51 \<and> generateNextBlock zero_crypto 1 ''x'' bc = Some (Inl ValueError)"
proof -
  obtain bc where bc: "mined zero_crypto bc" "length bc = 51" "\<forall>b \<in> set bc. lb_timestamp b = 0"
    using zero_crypto_grows [of 50] by auto
  have "bc \<noteq> []" using bc(2) by auto
  then have "last bc \<in> set bc" "bc ! 1 \<in> set bc" using bc(2) by simp_all
  then have "lb_timestamp (last bc) = 0" "lb_timestamp (bc ! 1) = 0" using bc(3) by blast+
  then show ?thesis using adjustment_stops_chain [OF bc(1), of 1 "''x''"] bc(1,2) by auto
qed

end
