(* ===== verification/Discovery.thy ===== *)
theory Discovery
  imports Config Node
begin

text \<open>
  \<open>network/discovery.py\<close>, the HTTP transport of \<open>network/transport.py\<close> and the discovery
  loop of \<open>network/node.py\<close>: the registry of peers, how it is exchanged, and what the
  transport posts and fetches.

  \<open>httpx\<close> is not code of the repository. What a request answers is an argument \<open>get\<close> from the
  URL to the response; a posted request is a value of the list of posts, since its answer is
  ignored and its failure suppressed.
\<close>

section \<open>The registry\<close>

record registry =
  reg_self :: string
  reg_self_peer :: "peer option"
  reg_peers :: "(string, peer) dict"

definition make_registry :: "string \<Rightarrow> peer option \<Rightarrow> registry" where
  "make_registry self p = \<lparr>reg_self = self, reg_self_peer = p, reg_peers = []\<rparr>"

definition registry_add :: "peer \<Rightarrow> registry \<Rightarrow> bool \<times> registry" where
  \<comment> \<open>\<open>_add\<close>\<close>
  "registry_add p R =
     (let key = public_to_hex (p_public_key p) in
      if key = reg_self R then (False, R)
      else (dict_get (reg_peers R) key = None, R\<lparr>reg_peers := dict_set key p (reg_peers R)\<rparr>))"

fun seed :: "peer list \<Rightarrow> registry \<Rightarrow> registry" where
  "seed [] R = R"
| "seed (p # ps) R = seed ps (snd (registry_add p R))"

fun merge_from :: "int \<Rightarrow> peer list \<Rightarrow> registry \<Rightarrow> int \<times> registry" where
  \<comment> \<open>the loop of \<open>merge\<close>\<close>
  "merge_from added [] R = (added, R)"
| "merge_from added (p # ps) R =
     (let (new, R') = registry_add p R in merge_from (if new then added + 1 else added) ps R')"

definition registry_merge :: "peer list \<Rightarrow> registry \<Rightarrow> int \<times> registry" where
  "registry_merge ps R = merge_from 0 ps R"

definition current :: "registry \<Rightarrow> peer list" where
  "current R = dict_values (reg_peers R)"

definition specs :: "registry \<Rightarrow> string list" where
  "specs R = map peer_spec (dict_values (reg_peers R)) @
     (case reg_self_peer R of None \<Rightarrow> [] | Some p \<Rightarrow> [peer_spec p])"

definition self_spec :: "registry \<Rightarrow> string option" where
  "self_spec R = map_option peer_spec (reg_self_peer R)"


section \<open>The HTTP transport\<close>

datatype http_response =
    HTTPError                      \<comment> \<open>the request failed\<close>
  | Response int "json result"     \<comment> \<open>status, and \<open>resp.json()\<close>\<close>

record http_transport =
  t_scheme :: string
  t_authorization :: "string option"    \<comment> \<open>the header of every request\<close>
  t_tls :: "(string, kwarg) dict"

definition make_http_transport :: "string \<Rightarrow> tls_settings option \<Rightarrow> http_transport result" where
  "make_http_transport token tls =
     (let primary = primary_token token in
      bindr (case tls of None \<Rightarrow> Inr [] | Some t \<Rightarrow> httpx_tls_kwargs t) (\<lambda>kwargs.
        Inr \<lparr>t_scheme = (case tls of None \<Rightarrow> ''http'' | Some t \<Rightarrow> scheme t),
             t_authorization = (if primary \<noteq> [] then Some (''Bearer '' @ primary) else None),
             t_tls = kwargs\<rparr>))"

definition url :: "http_transport \<Rightarrow> peer \<Rightarrow> string \<Rightarrow> string" where
  \<comment> \<open>\<open>_url\<close>\<close>
  "url T p path = t_scheme T @ ''://'' @ p_host p @ '':'' @ show_int (p_port p) @ path"

definition post_all :: "http_transport \<Rightarrow> registry \<Rightarrow> string \<Rightarrow> json \<Rightarrow> (string \<times> json) list" where
  "post_all T R path payload = map (\<lambda>p. (url T p path, payload)) (current R)"

fun transport_posts :: "http_transport \<Rightarrow> registry \<Rightarrow> effect \<Rightarrow> (string \<times> json) list" where
  \<comment> \<open>\<open>broadcast\<close>, \<open>gossip_records\<close>, \<open>gossip_changes\<close>, \<open>gossip_block\<close>\<close>
  "transport_posts T R (Broadcast m) = post_all T R ''/consensus'' (message_to_dict m)"
| "transport_posts T R (GossipRecords rs) = post_all T R ''/mempool'' (JObj [(''records'', JList rs)])"
| "transport_posts T R (GossipChanges cs) = post_all T R ''/membership'' (JObj [(''changes'', JList cs)])"
| "transport_posts T R (GossipBlock b) = post_all T R ''/block'' b"
| "transport_posts T R (OnCommit b) = []"

fun fetch_block_from :: "(string \<Rightarrow> http_response) \<Rightarrow> http_transport \<Rightarrow> int \<Rightarrow> peer list \<Rightarrow> block option result" where
  \<comment> \<open>the loop of \<open>fetch_block\<close>: only \<open>httpx.HTTPError\<close> is caught\<close>
  "fetch_block_from get T index [] = Inr None"
| "fetch_block_from get T index (p # ps) =
     (case get (url T p (''/blocks/'' @ show_int index)) of
        HTTPError \<Rightarrow> fetch_block_from get T index ps
      | Response status body \<Rightarrow>
          if status = 200 then bindr body (\<lambda>j. bindr (block_from_dict j) (\<lambda>b. Inr (Some b)))
          else fetch_block_from get T index ps)"

definition fetch_block :: "(string \<Rightarrow> http_response) \<Rightarrow> http_transport \<Rightarrow> registry \<Rightarrow> int \<Rightarrow> block option result" where
  "fetch_block get T R index = fetch_block_from get T index (current R)"

fun parse_item :: "crypto \<Rightarrow> json \<Rightarrow> peer result" where
  \<comment> \<open>\<open>Peer.parse(spec)\<close> of a JSON value: only a string has \<open>split\<close>\<close>
  "parse_item C (JStr s) = peer_parse C s"
| "parse_item C _ = Inl AttributeError"

fun parse_known :: "crypto \<Rightarrow> json list \<Rightarrow> peer list result" where
  \<comment> \<open>the inner loop of \<open>fetch_peers\<close>: a \<open>ValueError\<close> is suppressed\<close>
  "parse_known C [] = Inr []"
| "parse_known C (j # js) =
     (case parse_item C j of
        Inr p \<Rightarrow> bindr (parse_known C js) (\<lambda>ps. Inr (p # ps))
      | Inl e \<Rightarrow> if e = ValueError then parse_known C js else Inl e)"

fun fetch_peers_from :: "crypto \<Rightarrow> (string \<Rightarrow> http_response) \<Rightarrow> http_transport \<Rightarrow> peer list \<Rightarrow> peer list result" where
  "fetch_peers_from C get T [] = Inr []"
| "fetch_peers_from C get T (p # ps) =
     (case get (url T p ''/peers'') of
        HTTPError \<Rightarrow> fetch_peers_from C get T ps
      | Response status body \<Rightarrow>
          if status = 200
          then bindr body (\<lambda>j. bindr (get_default j ''peers'' (JList [])) (\<lambda>v. bindr (as_list v) (\<lambda>items.
               bindr (parse_known C items) (\<lambda>here.
               bindr (fetch_peers_from C get T ps) (\<lambda>rest. Inr (here @ rest))))))
          else fetch_peers_from C get T ps)"

definition fetch_peers :: "crypto \<Rightarrow> (string \<Rightarrow> http_response) \<Rightarrow> http_transport \<Rightarrow> registry \<Rightarrow> peer list result" where
  "fetch_peers C get T R = fetch_peers_from C get T (current R)"

definition announce :: "http_transport \<Rightarrow> registry \<Rightarrow> string list \<Rightarrow> (string \<times> json) list" where
  "announce T R ss = post_all T R ''/peers'' (JObj [(''peers'', JList (map JStr ss))])"


section \<open>The discovery loop\<close>

definition announce_self :: "http_transport \<Rightarrow> registry \<Rightarrow> (string \<times> json) list" where
  "announce_self T R = (if specs R \<noteq> [] then announce T R (specs R) else [])"

definition discovery_iteration ::
    "crypto \<Rightarrow> (string \<Rightarrow> http_response) \<Rightarrow> http_transport \<Rightarrow> registry \<Rightarrow> (string \<times> json) list \<times> registry" where
  \<comment> \<open>one iteration of \<open>discovery_loop\<close>; an exception is logged and dropped\<close>
  "discovery_iteration C get T R =
     (announce_self T R,
      case fetch_peers C get T R of
        Inl _ \<Rightarrow> R
      | Inr discovered \<Rightarrow> if discovered \<noteq> [] then snd (registry_merge discovered R) else R)"

definition post_peers :: "crypto \<Rightarrow> json \<Rightarrow> registry \<Rightarrow> (int \<times> registry) result" where
  \<comment> \<open>the body of the endpoint \<open>POST /peers\<close>\<close>
  "post_peers C payload R =
     bindr (bindr (get_item payload ''peers'') as_list) (\<lambda>items.
     bindr (mapr (parse_item C) items) (\<lambda>peers. Inr (registry_merge peers R)))"


section \<open>What a registry knows\<close>

definition peer_key :: "peer \<Rightarrow> string" where
  "peer_key p = public_to_hex (p_public_key p)"

definition peers_map :: "registry \<Rightarrow> string \<rightharpoonup> peer" where
  "peers_map R = dict_get (reg_peers R)"

definition known :: "registry \<Rightarrow> string \<rightharpoonup> peer" where
  \<comment> \<open>with its own address, as \<open>specs\<close> gives it\<close>
  "known R = (case reg_self_peer R of None \<Rightarrow> peers_map R | Some p \<Rightarrow> (peers_map R)(peer_key p \<mapsto> p))"

definition learnt :: "peer list \<Rightarrow> string \<rightharpoonup> peer" where
  \<comment> \<open>what a list of peers says: the last entry for a key counts\<close>
  "learnt ps = map_of (rev (map (\<lambda>p. (peer_key p, p)) ps))"

definition registry_ok :: "crypto \<Rightarrow> registry \<Rightarrow> bool" where
  "registry_ok C R \<longleftrightarrow> dict_ok (reg_peers R) \<and>
     (\<forall>(k, p) \<in> set (reg_peers R). k = peer_key p \<and> k \<noteq> reg_self R \<and> printable C p) \<and>
     (\<forall>p. reg_self_peer R = Some p \<longrightarrow> peer_key p = reg_self R \<and> printable C p)"

lemma learnt_simps [simp]: "learnt [] = Map.empty" "learnt (ps @ qs) = learnt ps ++ learnt qs"
  by (simp_all add: learnt_def)

lemma learnt_Cons: "learnt (p # ps) = [peer_key p \<mapsto> p] ++ learnt ps"
  using learnt_simps(2) [of "[p]" ps] by (simp add: learnt_def)

lemma dom_learnt: "dom (learnt ps) = peer_key ` set ps"
  by (force simp: learnt_def dom_map_of_conv_image_fst)

lemma registry_add_fields [simp]:
  "reg_self (snd (registry_add p R)) = reg_self R" "reg_self_peer (snd (registry_add p R)) = reg_self_peer R"
  by (simp_all add: registry_add_def Let_def)

lemma registry_add_map:
  "peers_map (snd (registry_add p R)) = peers_map R ++ ([peer_key p \<mapsto> p] |` (- {reg_self R}))"
  "fst (registry_add p R) \<longleftrightarrow> peer_key p \<noteq> reg_self R \<and> peer_key p \<notin> dom (peers_map R)"
  by (auto simp: registry_add_def Let_def peers_map_def peer_key_def restrict_map_def map_add_def fun_eq_iff split: option.splits)

lemma registry_add_ok:
  assumes "registry_ok C R" "printable C p"
  shows "registry_ok C (snd (registry_add p R))"
proof (cases "peer_key p = reg_self R")
  case False
  have "\<forall>(k, q) \<in> insert (peer_key p, p) (set (reg_peers R)). k = peer_key q \<and> k \<noteq> reg_self R \<and> printable C q"
    using assms False by (simp add: registry_ok_def)
  then have "\<forall>(k, q) \<in> set (dict_set (peer_key p) p (reg_peers R)). k = peer_key q \<and> k \<noteq> reg_self R \<and> printable C q"
    using set_dict_set_subset [of "peer_key p" p "reg_peers R"] by blast
  then show ?thesis using assms False
    by (simp add: registry_add_def Let_def registry_ok_def dict_ok_set flip: peer_key_def)
qed (use assms in \<open>simp add: registry_add_def flip: peer_key_def\<close>)

lemma merge_from_Cons:
  "merge_from n (p # ps) R = merge_from (n + of_bool (fst (registry_add p R))) ps (snd (registry_add p R))"
  by (simp add: Let_def split: prod.splits)

lemma merge_fields:
  "reg_self (snd (merge_from n ps R)) = reg_self R \<and> reg_self_peer (snd (merge_from n ps R)) = reg_self_peer R"
  by (induction ps arbitrary: n R) (simp_all add: merge_from_Cons del: merge_from.simps(2))

lemma restrict_map_add: "(m ++ n) |` A = (m |` A) ++ (n |` A)"
  by (auto simp: restrict_map_def map_add_def fun_eq_iff)

lemma merge_map:
  "peers_map (snd (merge_from n ps R)) = peers_map R ++ (learnt ps |` (- {reg_self R}))"
  by (induction ps arbitrary: n R)
    (simp_all add: merge_from_Cons registry_add_map learnt_Cons restrict_map_add map_add_assoc del: merge_from.simps(2))

lemma merge_count:
  "fst (merge_from n ps R) = n + int (card (dom (learnt ps) - {reg_self R} - dom (peers_map R)))"
proof (induction ps arbitrary: n R)
  case (Cons p ps)
  let ?k = "peer_key p" and ?K = "peer_key ` set ps" and ?S = "{reg_self R}" and ?D = "dom (peers_map R)"
  have D: "dom (peers_map (snd (registry_add p R))) = (if ?k = reg_self R then ?D else insert ?k ?D)"
    by (auto simp: registry_add_map)
  have "insert ?k ?K - ?S - ?D = insert ?k (?K - ?S - insert ?k ?D)" if "?k \<noteq> reg_self R" "?k \<notin> ?D"
    using that by auto
  moreover have "finite (?K - ?S - insert ?k ?D)" "?k \<notin> ?K - ?S - insert ?k ?D" by auto
  ultimately have "card (insert ?k ?K - ?S - ?D) = 1 + card (?K - ?S - insert ?k ?D)" if "?k \<noteq> reg_self R" "?k \<notin> ?D"
    using that by simp
  moreover have "insert ?k ?K - ?S - ?D = ?K - ?S - ?D" if "?k = reg_self R \<or> ?k \<in> ?D" using that by auto
  ultimately show ?case
    using Cons.IH [of "n + of_bool (fst (registry_add p R))" "snd (registry_add p R)"]
    by (auto simp: merge_from_Cons registry_add_map(2) D dom_learnt insert_absorb simp del: merge_from.simps(2))
qed simp

lemma merge_ok: "registry_ok C R \<Longrightarrow> \<forall>p \<in> set ps. printable C p \<Longrightarrow> registry_ok C (snd (merge_from n ps R))"
  by (induction ps arbitrary: n R) (simp_all add: merge_from_Cons registry_add_ok del: merge_from.simps(2))

lemma seed_merge: "seed ps R = snd (merge_from n ps R)"
  by (induction ps arbitrary: n R) (simp_all add: merge_from_Cons del: merge_from.simps(2))


section \<open>What is announced\<close>

definition entries :: "registry \<Rightarrow> peer list" where
  "entries R = current R @ (case reg_self_peer R of None \<Rightarrow> [] | Some p \<Rightarrow> [p])"

lemma specs_entries: "specs R = map peer_spec (entries R)"
  by (simp add: specs_def entries_def current_def split: option.splits)

lemma entries_printable: "registry_ok C R \<Longrightarrow> p \<in> set (entries R) \<Longrightarrow> printable C p"
  by (auto simp: registry_ok_def entries_def current_def dict_values_def split: option.splits)

lemma learnt_current:
  assumes "registry_ok C R"
  shows "learnt (current R) = peers_map R"
proof -
  have "map (\<lambda>p. (peer_key p, p)) (current R) = reg_peers R"
    using assms by (auto simp: current_def dict_values_def registry_ok_def intro!: map_idI)
  moreover have "distinct (map fst (reg_peers R))" using assms by (simp add: registry_ok_def dict_ok_def)
  then have "map_of (rev (reg_peers R)) = map_of (reg_peers R)"
    by (simp add: map_of_inject_set rev_map [symmetric])
  ultimately show ?thesis by (simp add: learnt_def peers_map_def)
qed

lemma learnt_entries: "registry_ok C R \<Longrightarrow> learnt (entries R) = known R"
  by (auto simp: entries_def learnt_current known_def learnt_def [of "[_]"] split: option.splits)

lemma parse_specs:
  assumes "registry_ok C R"
  shows "mapr (parse_item C) (map JStr (specs R)) = Inr (entries R)" "parse_known C (map JStr (specs R)) = Inr (entries R)"
proof -
  have p: "peer_parse C (peer_spec p) = Inr p" if "p \<in> set (entries R)" for p
    using entries_printable [OF assms that] by (rule peer_parse_spec)
  have "mapr (parse_item C) (map JStr (map peer_spec ps)) = Inr ps \<and> parse_known C (map JStr (map peer_spec ps)) = Inr ps"
    if "set ps \<subseteq> set (entries R)" for ps using that by (induction ps) (auto simp: p)
  then show "mapr (parse_item C) (map JStr (specs R)) = Inr (entries R)" "parse_known C (map JStr (specs R)) = Inr (entries R)"
    by (simp_all add: specs_entries)
qed

definition peers_payload :: "registry \<Rightarrow> json" where
  \<comment> \<open>what \<open>GET /peers\<close> answers and \<open>announce\<close> posts\<close>
  "peers_payload R = JObj [(''peers'', JList (map JStr (specs R)))]"

definition answers_peers :: "crypto \<Rightarrow> http_response \<Rightarrow> bool" where
  \<comment> \<open>no answer, a refusal, or the registry of a node\<close>
  "answers_peers C r \<longleftrightarrow> r = HTTPError \<or> (\<exists>st body. r = Response st body \<and> st \<noteq> 200) \<or>
     (\<exists>A. registry_ok C A \<and> r = Response 200 (Inr (peers_payload A)))"

definition answered_with :: "crypto \<Rightarrow> (string \<Rightarrow> http_response) \<Rightarrow> http_transport \<Rightarrow> peer \<Rightarrow> registry \<Rightarrow> bool" where
  "answered_with C get T q A \<longleftrightarrow>
     registry_ok C A \<and> get (url T q ''/peers'') = Response 200 (Inr (peers_payload A))"

lemma fetch_peers_ok:
  assumes "\<forall>q \<in> set qs. answers_peers C (get (url T q ''/peers''))"
  shows "\<exists>ps. fetch_peers_from C get T qs = Inr ps \<and> (\<forall>p \<in> set ps. printable C p) \<and>
    (\<forall>q A. q \<in> set qs \<and> answered_with C get T q A \<longrightarrow> set (entries A) \<subseteq> set ps)"
  using assms
proof (induction qs)
  case (Cons q qs)
  then obtain ps where ps: "fetch_peers_from C get T qs = Inr ps" "\<forall>p \<in> set ps. printable C p"
    "\<forall>q A. q \<in> set qs \<and> answered_with C get T q A \<longrightarrow> set (entries A) \<subseteq> set ps" by auto
  show ?case
  proof (cases "\<exists>A. answered_with C get T q A")
    case True
    then obtain A where A: "answered_with C get T q A" by blast
    have same: "entries B = entries A" if "answered_with C get T q B" for B
      using parse_specs(1) [of C B] parse_specs(1) [of C A] A that
      by (simp add: peers_payload_def answered_with_def)
    have f: "fetch_peers_from C get T (q # qs) = Inr (entries A @ ps)"
      using A parse_specs(2) [of C A] ps(1) by (simp add: peers_payload_def answered_with_def)
    have "set (entries B) \<subseteq> set (entries A @ ps)" if "q' \<in> set (q # qs)" "answered_with C get T q' B" for q' B
      using that same ps(3) by (cases "q' = q") auto
    moreover have "\<forall>p \<in> set (entries A @ ps). printable C p"
      using ps(2) entries_printable [of C A] A by (auto simp: answered_with_def)
    ultimately show ?thesis using f by blast
  next
    case False
    then have "fetch_peers_from C get T (q # qs) = Inr ps"
      using Cons.prems ps(1) by (auto simp: answers_peers_def answered_with_def)
    moreover have "set (entries B) \<subseteq> set ps" if "q' \<in> set (q # qs)" "answered_with C get T q' B" for q' B
      using that False ps(3) by auto
    ultimately show ?thesis using ps(2) by blast
  qed
qed simp


lemma post_peers_entries: "registry_ok C A \<Longrightarrow> post_peers C (peers_payload A) B = Inr (merge_from 0 (entries A) B)"
  using parse_specs(1) [of C A] by (simp add: post_peers_def peers_payload_def registry_merge_def)

lemma pull_single:
  "current R = [q] \<Longrightarrow> answered_with C get T q A \<Longrightarrow>
     snd (discovery_iteration C get T R) = snd (merge_from 0 (entries A) R)"
  using parse_specs(2) [of C A]
  by (auto simp: discovery_iteration_def fetch_peers_def answered_with_def peers_payload_def registry_merge_def)

lemma pull_after_post:
  assumes "registry_ok C fresh" "registry_ok C stale" "current (snd (merge_from 0 (entries fresh) R)) = [q]"
    "peers_map (snd (merge_from 0 (entries fresh) R)) k = v"
    "peers_map (snd (merge_from 0 (entries stale) (snd (merge_from 0 (entries fresh) R)))) k = w"
  shows "\<exists>n R1. post_peers C (peers_payload fresh) R = Inr (n, R1) \<and> peers_map R1 k = v \<and>
    peers_map (snd (discovery_iteration C (\<lambda>_. Response 200 (Inr (peers_payload stale))) T R1)) k = w"
  using post_peers_entries [OF assms(1), of R] assms(4,5)
    pull_single [OF assms(3), of C "\<lambda>_. Response 200 (Inr (peers_payload stale))" T stale] assms(2)
  by (cases "merge_from 0 (entries fresh) R") (auto simp: answered_with_def)


section \<open>Properties\<close>

text \<open>C37: an announcement is learned exactly. When a node posts its registry to a peer, the
  peer's registry afterwards is its own, overridden by every address the node knows, its own
  advertised one included, except for the peer's own key; the answer counts the keys that are
  new; and the peer's registry stays well formed.\<close>

theorem announcement_learned:
  assumes "registry_ok C A" "registry_ok C B"
  shows "\<exists>B'. post_peers C (peers_payload A) B =
      Inr (int (card (dom (known A) - {reg_self B} - dom (peers_map B))), B') \<and>
    peers_map B' = peers_map B ++ (known A |` (- {reg_self B})) \<and> registry_ok C B'"
proof -
  show ?thesis unfolding post_peers_entries [OF assms(1)]
    using merge_map [of 0 "entries A" B] merge_count [of 0 "entries A" B] learnt_entries [OF assms(1)]
      merge_ok [OF assms(2), of "entries A" 0] entries_printable [OF assms(1)]
    by (cases "merge_from 0 (entries A) B") auto
qed

definition demo_peer :: "char \<Rightarrow> string \<Rightarrow> peer" where
  "demo_peer c host = \<lparr>p_node_id = ''n'', p_host = host, p_port = 8000, p_public_key = PublicKey [c]\<rparr>"

definition demo_registry :: "char \<Rightarrow> string \<Rightarrow> registry" where
  "demo_registry c host = make_registry (peer_key (demo_peer c host)) (Some (demo_peer c host))"

lemma demo_peer_printable: "host \<in> {''h'', ''g''} \<Longrightarrow> printable short_crypto (demo_peer c host)"
  by (auto simp: printable_def demo_peer_def short_crypto_def strip_def str_space_def is_space_def)

lemma demo_registry_ok: "host \<in> {''h'', ''g''} \<Longrightarrow> registry_ok short_crypto (demo_registry c host)"
  using demo_peer_printable by (simp add: registry_ok_def demo_registry_def make_registry_def)

lemma demo_peer_key [simp]: "peer_key (demo_peer c host) = hex_of_bytes [c]"
  by (simp add: peer_key_def demo_peer_def public_to_hex_def)

lemma demo_known: "known (demo_registry c host) = [hex_of_bytes [c] \<mapsto> demo_peer c host]"
  by (simp add: known_def demo_registry_def make_registry_def peers_map_def)

theorem announcement_learned_witness:
  "\<exists>B'. post_peers short_crypto (peers_payload (demo_registry (CHR ''a'') ''h'')) (demo_registry (CHR ''b'') ''h'') = Inr (1, B') \<and>
     peers_map B' ''61'' = Some (demo_peer (CHR ''a'') ''h'')"
proof -
  have h: "hex_of_bytes ''a'' = ''61''" "hex_of_bytes ''b'' = ''62''" by code_simp+
  have "reg_self (demo_registry (CHR ''b'') ''h'') = ''62''" "peers_map (demo_registry (CHR ''b'') ''h'') = Map.empty"
    using h by (simp_all add: demo_registry_def make_registry_def peers_map_def del: hex_of_bytes.simps)
  then show ?thesis
    using announcement_learned [OF demo_registry_ok [of "''h''" "CHR ''a''"] demo_registry_ok [of "''h''" "CHR ''b''"]] h
    by (auto simp: demo_known restrict_map_def simp del: hex_of_bytes.simps)
qed

text \<open>Discovery learns the peers of peers. Suppose every peer of a node answers \<open>GET /peers\<close>
  with its registry, with a refusal or not at all. After one iteration the node knows an
  address for every validator that any of the answering peers knows, itself apart; it forgets
  nobody; its registry stays well formed; and it has posted its registry to all its peers.\<close>

theorem discovery_learns:
  assumes "registry_ok C R" "\<forall>q \<in> set (current R). answers_peers C (get (url T q ''/peers''))"
    "discovery_iteration C get T R = (posts, R')"
  shows "registry_ok C R' \<and> dom (peers_map R) \<subseteq> dom (peers_map R') \<and>
    (\<forall>q A. q \<in> set (current R) \<and> answered_with C get T q A \<longrightarrow> dom (known A) - {reg_self R} \<subseteq> dom (peers_map R')) \<and>
    posts = map (\<lambda>q. (url T q ''/peers'', peers_payload R)) (current R)"
proof -
  obtain ps where ps: "fetch_peers_from C get T (current R) = Inr ps" "\<forall>p \<in> set ps. printable C p"
    "\<forall>q A. q \<in> set (current R) \<and> answered_with C get T q A \<longrightarrow> set (entries A) \<subseteq> set ps"
    using fetch_peers_ok [OF assms(2)] by blast
  have R': "R' = snd (merge_from 0 ps R)"
    using assms(3) ps(1) by (auto simp: discovery_iteration_def fetch_peers_def registry_merge_def split: if_splits)
  have D: "dom (peers_map R') = dom (peers_map R) \<union> (peer_key ` set ps - {reg_self R})"
    unfolding R' merge_map by (auto simp: dom_learnt)
  have "dom (known A) - {reg_self R} \<subseteq> dom (peers_map R')"
    if "q \<in> set (current R)" "answered_with C get T q A" for q A
  proof -
    have "dom (known A) = peer_key ` set (entries A)"
      using learnt_entries [of C A] that(2) dom_learnt [of "entries A"] by (simp add: answered_with_def)
    moreover have "set (entries A) \<subseteq> set ps" using that ps(3) by blast
    ultimately show ?thesis using D by blast
  qed
  moreover have "posts = map (\<lambda>q. (url T q ''/peers'', peers_payload R)) (current R)"
    using assms(3) by (auto simp: discovery_iteration_def announce_self_def announce_def post_all_def peers_payload_def
      specs_def current_def)
  moreover have "registry_ok C R'" unfolding R' by (rule merge_ok [OF assms(1) ps(2)])
  moreover have "dom (peers_map R) \<subseteq> dom (peers_map R')" using D by blast
  ultimately show ?thesis by blast
qed

definition demo_pair :: "char \<Rightarrow> string \<Rightarrow> char \<Rightarrow> registry" where
  \<comment> \<open>the registry of \<open>c\<close> with one peer\<close>
  "demo_pair p host c = snd (registry_add (demo_peer p host) (demo_registry c ''h''))"

definition demo_transport :: http_transport where
  "demo_transport = \<lparr>t_scheme = ''http'', t_authorization = None, t_tls = []\<rparr>"

lemma demo_pair_ok: "host \<in> {''h'', ''g''} \<Longrightarrow> registry_ok short_crypto (demo_pair p host c)"
  unfolding demo_pair_def by (intro registry_add_ok demo_registry_ok demo_peer_printable) auto

theorem discovery_learns_witness:
  "''63'' \<in> dom (peers_map (snd (discovery_iteration short_crypto
     (\<lambda>_. Response 200 (Inr (peers_payload (demo_pair (CHR ''c'') ''g'' (CHR ''a''))))) demo_transport
     (demo_pair (CHR ''a'') ''h'' (CHR ''b'')))))"
proof -
  let ?R = "demo_pair (CHR ''a'') ''h'' (CHR ''b'')" and ?A = "demo_pair (CHR ''c'') ''g'' (CHR ''a'')"
  let ?get = "\<lambda>_ :: string. Response 200 (Inr (peers_payload ?A))"
  have c: "demo_peer (CHR ''a'') ''h'' \<in> set (current ?R)" by code_simp
  have sub: "dom (known ?A) - {reg_self ?R} \<subseteq> dom (peers_map (snd (discovery_iteration short_crypto ?get demo_transport ?R)))"
  proof -
    have a: "answered_with short_crypto ?get demo_transport q ?A" for q
      using demo_pair_ok [of "''g''"] by (simp add: answered_with_def)
    then have "\<forall>q \<in> set (current ?R). answers_peers short_crypto (?get (url demo_transport q ''/peers''))"
      by (auto simp: answers_peers_def answered_with_def)
    from discovery_learns [OF demo_pair_ok this prod.collapse [symmetric]] a c show ?thesis by blast
  qed
  have "known ?A ''63'' = Some (demo_peer (CHR ''c'') ''g'')" by code_simp
  then have "''63'' \<in> dom (known ?A)" by (rule domI)
  moreover have "''63'' \<noteq> reg_self ?R" by code_simp
  ultimately have "''63'' \<in> dom (known ?A) - {reg_self ?R}" by (simp only: Diff_iff singleton_iff simp_thms)
  then show ?thesis by (rule subsetD [OF sub])
qed

text \<open>An old address can come back. A node has learned a validator's new address from its
  announcement; the next pull from a peer that still has the old one puts the old one back,
  since a merge overwrites whatever is there.\<close>

theorem stale_address_returns:
  "\<exists>R fresh stale k. registry_ok short_crypto R \<and> registry_ok short_crypto fresh \<and> registry_ok short_crypto stale \<and>
     peers_map R k = peers_map stale k \<and> known fresh k \<noteq> peers_map stale k \<and>
     (\<exists>n R1. post_peers short_crypto (peers_payload fresh) R = Inr (n, R1) \<and> peers_map R1 k = known fresh k \<and>
        peers_map (snd (discovery_iteration short_crypto
          (\<lambda>_. Response 200 (Inr (peers_payload stale))) demo_transport R1)) k = peers_map stale k)"
proof -
  let ?R = "demo_pair (CHR ''a'') ''h'' (CHR ''b'')" and ?stale = "demo_pair (CHR ''a'') ''h'' (CHR ''d'')"
  let ?fresh = "demo_registry (CHR ''a'') ''g''"
  let ?R1 = "snd (merge_from 0 (entries ?fresh) ?R)"
  have ok: "registry_ok short_crypto ?R" "registry_ok short_crypto ?stale" "registry_ok short_crypto ?fresh"
    by (simp_all add: demo_pair_ok demo_registry_ok)
  have c: "current ?R1 = [demo_peer (CHR ''a'') ''g'']" by code_simp
  have v: "peers_map ?R1 ''61'' = known ?fresh ''61''" by code_simp
  have w: "peers_map (snd (merge_from 0 (entries ?stale) ?R1)) ''61'' = peers_map ?stale ''61''" by code_simp
  have d: "peers_map ?R ''61'' = peers_map ?stale ''61''" "known ?fresh ''61'' \<noteq> peers_map ?stale ''61''" by code_simp+
  note all = conjI [OF ok(1) conjI [OF ok(3) conjI [OF ok(2) conjI [OF d(1) conjI [OF d(2)
    pull_after_post [OF ok(3,2) c v w]]]]]]
  show ?thesis by (intro exI) (rule all)
qed

end
