(* ===== verification/Bootstrap.thy ===== *)
theory Bootstrap
  imports Node_Invariant Discovery
begin

text \<open>
  \<open>network/bootstrap.py\<close> and the wiring of \<open>app.py\<close>: how a process becomes a node. The
  settings object, the file system, the peers' answers and the database at start are
  arguments.
\<close>

section \<open>The genesis block of a peer\<close>

definition is_valid_genesis :: "crypto \<Rightarrow> block \<Rightarrow> bool" where
  "is_valid_genesis C b =
     (block_index b = 0 \<and> previous_hash (header b) = ZERO_HASH \<and> has_consistent_merkle_root C b \<and>
      records b = [] \<and> length (validator_changes b) > 0 \<and> list_all (\<lambda>c. vc_action c = ADD) (validator_changes b))"

definition fetch_genesis :: "crypto \<Rightarrow> block option result \<Rightarrow> block option result" where
  \<comment> \<open>the argument is what \<open>transport.fetch_block(0)\<close> gives\<close>
  "fetch_genesis C fetched =
     bindr fetched (\<lambda>b. case b of
        None \<Rightarrow> Inr None
      | Some g \<Rightarrow> if \<not> is_valid_genesis C g then Inr None else Inr (Some g))"


section \<open>Building a node\<close>

record settings =
  st_secrets :: secret_settings
  st_node_id :: string
  st_peers :: "peer list"
  st_advertise :: string
  st_bootstrap_genesis :: bool
  st_max_inbox :: int
  st_tls :: tls_settings
  st_webhook_url :: string

record app =
  a_node :: node
  a_registry :: registry
  a_transport :: http_transport
  a_webhook :: "string option"

definition raised :: "'a result \<Rightarrow> node_error + 'a" where
  "raised r = (case r of Inl e \<Rightarrow> Inl (Raised e) | Inr x \<Rightarrow> Inr x)"

definition advertise_peer :: "crypto \<Rightarrow> settings \<Rightarrow> private_key \<Rightarrow> peer option result" where
  \<comment> \<open>\<open>_advertise_peer\<close>\<close>
  "advertise_peer C st key =
     (if st_advertise st = [] then Inr None
      else bindr (option_result (split_last (CHR '':'') (st_advertise st))) (\<lambda>(host, port).
           bindr (int_of_str port) (\<lambda>n.
             Inr (Some \<lparr>p_node_id = st_node_id st, p_host = host, p_port = n, p_public_key = private_public C key\<rparr>))))"

fun configured_keys :: "(string, public_key) dict \<Rightarrow> peer list \<Rightarrow> (string, public_key) dict" where
  \<comment> \<open>the loop that fills \<open>keys\<close>\<close>
  "configured_keys keys [] = keys"
| "configured_keys keys (p # ps) =
     configured_keys (dict_set (public_to_hex (p_public_key p)) (p_public_key p) keys) ps"

definition bootstrap_repo ::
    "crypto \<Rightarrow> (int \<Rightarrow> bool) \<Rightarrow> bool \<Rightarrow> block option result \<Rightarrow> repo \<Rightarrow> node_error + repo" where
  "bootstrap_repo C fits enabled fetched rows =
     (if repo_height rows < 0 \<and> enabled
      then bindr (raised (fetch_genesis C fetched)) (\<lambda>genesis.
        case genesis of
          None \<Rightarrow> Inr rows
        | Some g \<Rightarrow> (case repo_append C fits rows g of Inl e \<Rightarrow> Inl (Repository e) | Inr rows' \<Rightarrow> Inr rows'))
      else Inr rows)"

definition build_node ::
    "crypto \<Rightarrow> (string \<Rightarrow> string result) \<Rightarrow> (string \<Rightarrow> http_response) \<Rightarrow> (int \<Rightarrow> bool) \<Rightarrow> repo \<Rightarrow> (nat \<Rightarrow> int)
     \<Rightarrow> nat \<Rightarrow> journal_store \<Rightarrow> settings \<Rightarrow> node_error + app" where
  "build_node C read_text get fits rows now reads store st =
     bindr (raised (resolved_private_key_hex read_text (st_secrets st))) (\<lambda>hex.
     if hex = [] then Inl (Raised SystemExit)
     else
       bindr (raised (private_from_hex hex)) (\<lambda>key.
       bindr (raised (resolved_cluster_token read_text (st_secrets st))) (\<lambda>token.
       let me = private_public C key;
           keys = configured_keys [(public_to_hex me, me)] (st_peers st) in
       bindr (raised (make_validator_set (dict_values keys))) (\<lambda>validators.
       bindr (raised (advertise_peer C st key)) (\<lambda>self_peer.
       let registry = seed (st_peers st) (make_registry (public_to_hex me) self_peer) in
       bindr (raised (make_http_transport token (Some (st_tls st)))) (\<lambda>transport.
       bindr (bootstrap_repo C fits (st_bootstrap_genesis st) (fetch_block get transport registry 0) rows) (\<lambda>rows'.
       bindr (make_node C key validators fits rows' now reads store (st_max_inbox st)) (\<lambda>n.
         Inr \<lparr>a_node = n, a_registry = registry, a_transport = transport,
              a_webhook = (if st_webhook_url st \<noteq> [] then Some (st_webhook_url st) else None)\<rparr>))))))))"


section \<open>The configured validators\<close>

lemma configured_keys_ok:
  "keys_ok d \<Longrightarrow> keys_ok (configured_keys d ps) \<and>
     snd ` set (configured_keys d ps) = snd ` set d \<union> p_public_key ` set ps"
  by (induction ps arbitrary: d) (auto simp: keys_ok_set values_set)

lemma configured_values:
  "distinct (dict_values (configured_keys [(public_to_hex me, me)] ps))"
  "set (dict_values (configured_keys [(public_to_hex me, me)] ps)) = insert me (p_public_key ` set ps)"
proof -
  have "keys_ok [(public_to_hex me, me)]" by (simp add: keys_ok_def dict_ok_def)
  from configured_keys_ok [OF this, of ps]
  show "distinct (dict_values (configured_keys [(public_to_hex me, me)] ps))"
    "set (dict_values (configured_keys [(public_to_hex me, me)] ps)) = insert me (p_public_key ` set ps)"
    by (auto simp: keys_ok_values) (auto simp: dict_values_def)
qed

lemma new_engine_key: "new_engine C m = (x, n) \<Longrightarrow> n_private_key n = n_private_key m \<and> n_repo n = n_repo m \<and> n_active n = n_active m"
  using new_engine_frame(1,5) [of C m] new_engine_repo [of C m] by simp

lemma make_node_stored:
  assumes "make_node C key V fits rows now reads store max_inbox = Inr n" "repo_stores C rows bs" "bs \<noteq> []"
  shows "n_private_key n = key \<and> n_repo n = rows \<and>
    derive_validator_set C (concat (map validator_changes bs)) = Inr (n_active n)"
proof -
  have "\<not> repo_height rows < 0" using repo_height_stores [OF assms(2)] assms(3) by simp
  then show ?thesis
    using assms(1) sql.load_all_eq [OF assms(2)]
    by (auto simp: make_node_def bindr_Inr_iff split: sum.splits prod.splits option.splits dest!: new_engine_key)
qed

lemma make_node_empty:
  assumes "make_node C key V fits [] now reads store max_inbox = Inr n"
  shows "n_private_key n = key \<and> n_repo n = [row_of_block C (genesis_block C (Some (vs_validators V)) ZERO_HASH 0)] \<and>
    derive_validator_set C (validator_changes (genesis_block C (Some (vs_validators V)) ZERO_HASH 0)) = Inr (n_active n)"
proof -
  let ?g = "genesis_block C (Some (vs_validators V)) ZERO_HASH 0"
  obtain rows where r: "repo_append C fits [] ?g = Inr rows"
    using assms by (auto simp: make_node_def bindr_Inr_iff repo_height_def split: sum.splits)
  then have st: "repo_stores C rows [?g]" using repo_append_Inr [of C "[]" "[]"] by simp
  then have "\<not> repo_height rows < 0" using repo_height_stores [OF st] by simp
  then have "make_node C key V fits rows now reads store max_inbox = Inr n"
    using assms r by (simp add: make_node_def repo_height_def)
  from make_node_stored [OF this st] st show ?thesis by (simp add: repo_stores_def)
qed

lemma build_node_Inr:
  assumes "build_node C read_text get fits [] now reads store st = Inr a" "\<not> st_bootstrap_genesis st"
  obtains key V where "make_validator_set (dict_values (configured_keys [(public_to_hex (private_public C key), private_public C key)] (st_peers st))) = Inr V"
    "make_node C key V fits [] now reads store (st_max_inbox st) = Inr (a_node a)"
  using assms
  by (auto simp: build_node_def bootstrap_repo_def raised_def Let_def bindr_Inr_iff split: sum.splits if_splits)

lemma make_node_on:
  assumes "repo_stores C rows bs" "bs \<noteq> []" "derive_validator_set C (concat (map validator_changes bs)) = Inr S"
    and "ed25519_correct C" "private_ok key" "store_upto (int (length bs) - 1) store"
  shows "\<exists>n. make_node C key V fits rows now reads store max_inbox = Inr n \<and> n_repo n = rows \<and> n_active n = S \<and>
    n_private_key n = key \<and> engine_at C n (int (length bs)) (block_hash C (last bs))"
proof -
  let ?m = "\<lparr>n_private_key = key, n_genesis_validators = V, n_fits = fits, n_repo = rows, n_now_ms = now,
      n_clock_reads = reads, n_journal_store = store, n_pending = [], n_pending_changes = [],
      n_mempool_seen = [], n_inbox = [], n_max_inbox = max_inbox, n_active = S, n_engine = None, n_out = [],
      n_metrics = initial_metrics\<rparr>"
  obtain x n where n: "new_engine C ?m = (x, n)" by fastforce
  have "x = None \<and> engine_at C n (int (length bs)) (block_hash C (last bs)) \<and> n_repo n = rows \<and> n_active n = S \<and> n_private_key n = key"
    using new_engine_next [OF assms(4) _ _ _ assms(2) _ n] assms derive_vs_ok [OF assms(3)] by simp
  moreover have "\<not> repo_height rows < 0" using repo_height_stores [OF assms(1)] assms(2) by simp
  ultimately show ?thesis using n sql.load_all_eq [OF assms(1)] assms(3) by (simp add: make_node_def)
qed

lemma make_node_validator:
  assumes "make_node C key V fits rows now reads store max_inbox = Inr n"
  shows "is_validator n \<longleftrightarrow> contains (n_active n) (n_me C n)"
proof -
  have step: "r = (None, n)" if "(case r of (Some e, _) \<Rightarrow> Inl e | (None, n) \<Rightarrow> Inr n) = Inr n" for r :: outcome
    using that by (auto split: prod.splits option.splits)
  obtain m where "new_engine C m = (None, n)"
    using assms unfolding make_node_def bindr_Inr_iff by (elim exE conjE) (drule step, blast)
  then show ?thesis
    by (auto simp: new_engine_def is_validator_def n_me_def Let_def split: sum.splits option.splits if_splits)
qed

lemma added_members:
  assumes "list_all (\<lambda>c. vc_action c = ADD) cs"
  shows "change_members C M cs = M \<union> {k. \<exists>c \<in> set cs. public_from_hex C (vc_validator c) = Inr k}"
  using assms by (induction cs arbitrary: M) (auto split: sum.splits)

lemma bootstrap_stores:
  assumes "is_valid_genesis C g" "fits 0" "fits (bh_timestamp (header g))"
  shows "\<exists>rows. bootstrap_repo C fits True (Inr (Some g)) [] = Inr rows \<and> repo_stores C rows [g]"
proof -
  have "block_index g = 0" using assms(1) by (simp add: is_valid_genesis_def)
  then obtain rows where "repo_append C fits [] g = Inr rows"
    using repo_append_iff [of C "[]" "[]" fits g] assms(2,3) by auto
  then show ?thesis
    using assms(1) repo_append_Inr [of C "[]" "[]" fits g rows]
    by (simp add: bootstrap_repo_def raised_def fetch_genesis_def repo_height_def)
qed

lemma own_genesis:
  assumes "vs \<noteq> []"
  shows "is_valid_genesis C (genesis_block C (Some vs) p t)"
    and "(\<And>k. k \<in> set vs \<Longrightarrow> public_bytes_ok C (raw_public k)) \<Longrightarrow>
      list_all (change_ok C) (validator_changes (genesis_block C (Some vs) p t))"
proof -
  show "is_valid_genesis C (genesis_block C (Some vs) p t)"
    using assms by (auto simp: is_valid_genesis_def genesis_block_def Let_def block_create_consistent list_all_iff)
      (auto simp: block_create_def block_index_def)
  show "list_all (change_ok C) (validator_changes (genesis_block C (Some vs) p t))"
    if "\<And>k. k \<in> set vs \<Longrightarrow> public_bytes_ok C (raw_public k)"
    using that by (auto simp: genesis_block_def block_create_def Let_def list_all_iff change_ok_def public_from_to_hex)
qed

definition demo_settings :: "char \<Rightarrow> peer list \<Rightarrow> settings" where
  "demo_settings c ps =
     \<lparr>st_secrets = \<lparr>private_key_hex = private_to_hex (demo_key c), private_key_file = [], cluster_token = ''t'',
        cluster_token_file = [], commit_key_hex = [], commit_key_file = []\<rparr>,
      st_node_id = ''n'', st_peers = ps, st_advertise = [], st_bootstrap_genesis = False, st_max_inbox = 10,
      st_tls = \<lparr>tls_enabled = False, cert_file = [], key_file = [], ca_file = [], mutual = False,
        client_cert_file = [], client_key_file = []\<rparr>,
      st_webhook_url = []\<rparr>"

definition demo_build :: "char \<Rightarrow> peer list \<Rightarrow> node_error + app" where
  "demo_build c ps = build_node short_crypto (\<lambda>_. Inl OSError) (\<lambda>_. HTTPError) (\<lambda>_. True) [] (\<lambda>_. 7) 0
     NullJournalStore (demo_settings c ps)"


section \<open>Properties\<close>

text \<open>Equal configurations agree on the genesis block. Two nodes whose configured keys,
  their own included, are the same set of keys build the same block 0 and start with the same
  validator set, whatever the order of the peers in the two configurations, whether a node is
  in its own list of peers, and whatever addresses the lists give.\<close>

theorem same_genesis:
  assumes "build_node C read_text get fits [] now reads store st = Inr a" "\<not> st_bootstrap_genesis st"
    "build_node C read_text' get' fits' [] now' reads' store' st' = Inr a'" "\<not> st_bootstrap_genesis st'"
    "insert (n_me C (a_node a)) (p_public_key ` set (st_peers st))
       = insert (n_me C (a_node a')) (p_public_key ` set (st_peers st'))"
  shows "n_repo (a_node a) = n_repo (a_node a') \<and> n_active (a_node a) = n_active (a_node a')"
proof -
  obtain key V where a: "make_validator_set (dict_values (configured_keys [(public_to_hex (private_public C key), private_public C key)] (st_peers st))) = Inr V"
    "make_node C key V fits [] now reads store (st_max_inbox st) = Inr (a_node a)" using build_node_Inr [OF assms(1,2)] by blast
  obtain key' V' where a': "make_validator_set (dict_values (configured_keys [(public_to_hex (private_public C key'), private_public C key')] (st_peers st'))) = Inr V'"
    "make_node C key' V' fits' [] now' reads' store' (st_max_inbox st') = Inr (a_node a')" using build_node_Inr [OF assms(3,4)] by blast
  have "V = V'"
    using a(1) a'(1) assms(5) make_node_empty [OF a(2)] make_node_empty [OF a'(2)]
      make_validator_set_perm [OF _ configured_values(1) configured_values(1)]
    by (metis configured_values(2) n_me_def sum.inject(2))
  then show ?thesis using make_node_empty [OF a(2)] make_node_empty [OF a'(2)] by simp
qed

theorem same_genesis_witness:
  "\<exists>a a'. demo_build (CHR ''a'') [demo_peer (CHR ''b'') ''h''] = Inr a \<and>
     demo_build (CHR ''b'') [demo_peer (CHR ''b'') ''g'', demo_peer (CHR ''a'') ''g''] = Inr a' \<and>
     n_repo (a_node a) = n_repo (a_node a')"
proof -
  let ?me = "\<lambda>r c. case r of Inl _ \<Rightarrow> False | Inr a \<Rightarrow> n_me short_crypto (a_node a) = PublicKey [c]"
  have "?me (demo_build (CHR ''a'') [demo_peer (CHR ''b'') ''h'']) (CHR ''a'')"
    "?me (demo_build (CHR ''b'') [demo_peer (CHR ''b'') ''g'', demo_peer (CHR ''a'') ''g'']) (CHR ''b'')" by code_simp+
  then obtain a a' where a: "demo_build (CHR ''a'') [demo_peer (CHR ''b'') ''h''] = Inr a"
    "demo_build (CHR ''b'') [demo_peer (CHR ''b'') ''g'', demo_peer (CHR ''a'') ''g''] = Inr a'"
    "n_me short_crypto (a_node a) = PublicKey ''a''" "n_me short_crypto (a_node a') = PublicKey ''b''"
    by (auto split: sum.splits)
  from same_genesis [OF a(1) [unfolded demo_build_def] _ a(2) [unfolded demo_build_def]] a(3,4)
  have "n_repo (a_node a) = n_repo (a_node a')" by (auto simp: demo_settings_def demo_peer_def)
  with a(1,2) show ?thesis by blast
qed

text \<open>C23: a node can start from a fetched genesis block. If a peer's block 0 is a valid genesis
  whose changes name their keys in canonical form, it is stored, and the node starts on top of
  it, whatever validators its own configuration has: the chain is that block, the active set
  is exactly the keys that the block adds, the invariant of running nodes holds, and the node
  takes part in consensus exactly if its key is among them.\<close>

theorem adopted_genesis_starts:
  assumes "is_valid_genesis C g" "list_all (change_ok C) (validator_changes g)" "fits 0" "fits (bh_timestamp (header g))"
    "ed25519_correct C" "private_ok key" "store_upto 0 store"
  shows "\<exists>rows n. bootstrap_repo C fits True (Inr (Some g)) [] = Inr rows \<and>
    make_node C key V fits rows now reads store max_inbox = Inr n \<and> inv_at C n [g] \<and> repo_load_all (n_repo n) = Inr [g] \<and>
    members (n_active n) = {k. \<exists>c \<in> set (validator_changes g). public_from_hex C (vc_validator c) = Inr k} \<and>
    (is_validator n \<longleftrightarrow> private_public C key \<in> members (n_active n))"
proof -
  let ?M = "{k. \<exists>c \<in> set (validator_changes g). public_from_hex C (vc_validator c) = Inr k}"
  obtain rows where r: "bootstrap_repo C fits True (Inr (Some g)) [] = Inr rows" "repo_stores C rows [g]"
    using bootstrap_stores [of C g fits] assms(1,3,4) by blast
  have add: "list_all (\<lambda>c. vc_action c = ADD) (validator_changes g)" "validator_changes g \<noteq> []"
    using assms(1) by (auto simp: is_valid_genesis_def)
  have "?M \<noteq> {}"
    using add(2) assms(2) by (cases "validator_changes g") (auto simp: change_ok_def split: sum.splits)
  then obtain S where S: "derive_validator_set C (validator_changes g) = Inr S" "members S = ?M"
    using derive_members [of "validator_changes g" C] assms(2) added_members [OF add(1), of C "{}"]
    by (cases "derive_validator_set C (validator_changes g)") (simp_all add: set_of_members_def list_all_iff del: empty_Collect_eq Collect_empty_eq)
  obtain n where n: "make_node C key V fits rows now reads store max_inbox = Inr n" "n_repo n = rows" "n_active n = S"
    "n_private_key n = key" "engine_at C n 1 (block_hash C g)"
    using make_node_on [OF r(2) _ _ assms(5,6), of S store V fits now reads max_inbox] S(1) assms(7) by auto
  then have "inv_at C n [g]"
    using assms(5,6) r(2) S(1) derive_vs_ok [OF S(1)] by (simp add: inv_at_def final_chain_def)
  moreover have "is_validator n \<longleftrightarrow> private_public C key \<in> members (n_active n)"
    using make_node_validator [OF n(1)] n(4) by (simp add: contains_iff n_me_def)
  ultimately show ?thesis using r n S(2) sql.load_all_eq [OF r(2)] by blast
qed

theorem adopted_genesis_starts_witness:
  "\<exists>rows n. bootstrap_repo short_crypto (\<lambda>_. True) True
      (Inr (Some (genesis_block short_crypto (Some [PublicKey ''a'']) ZERO_HASH 0))) [] = Inr rows \<and>
    make_node short_crypto (demo_key (CHR ''b'')) (solo_set (CHR ''b'')) (\<lambda>_. True) rows (\<lambda>_. 7) 0 NullJournalStore 10 = Inr n \<and>
    \<not> is_validator n"
proof -
  let ?g = "genesis_block short_crypto (Some [PublicKey ''a'']) ZERO_HASH 0"
  have k: "public_from_hex short_crypto (public_to_hex (PublicKey ''a'')) = Inr (PublicKey ''a'')"
    by (simp add: public_from_to_hex short_crypto_def)
  have c: "list_all (change_ok short_crypto) (validator_changes ?g)" by (rule own_genesis) (auto simp: short_crypto_def)
  have "private_public short_crypto (demo_key (CHR ''b'')) \<noteq> PublicKey ''a''" by code_simp
  moreover have "validator_changes ?g = [\<lparr>vc_action = ADD, vc_validator = public_to_hex (PublicKey ''a'')\<rparr>]"
    by (simp add: genesis_block_def block_create_def Let_def)
  ultimately show ?thesis
    using adopted_genesis_starts [OF own_genesis(1) c _ _ short_crypto_correct demo_key_ok, of "\<lambda>_. True" NullJournalStore
        "CHR ''b''" "solo_set (CHR ''b'')" "\<lambda>_. 7" 0 10] k by fastforce
qed

text \<open>A genesis block with a malformed key is fatal for good. The validation of a fetched
  genesis does not look at the keys it adds. If one of them is not a key, the block is stored
  all the same; building the node on that database then raises, now and at every restart,
  with any settings.\<close>

theorem malformed_genesis_bricks:
  assumes "is_valid_genesis C g" "fits 0" "fits (bh_timestamp (header g))"
    "c \<in> set (validator_changes g)" "\<forall>k. public_from_hex C (vc_validator c) \<noteq> Inr k"
  shows "\<exists>rows. bootstrap_repo C fits True (Inr (Some g)) [] = Inr rows \<and>
    (\<forall>key V fits now reads store max_inbox.
       make_node C key V fits rows now reads store max_inbox = Inl (Raised ValueError))"
proof -
  obtain rows where r: "bootstrap_repo C fits True (Inr (Some g)) [] = Inr rows" "repo_stores C rows [g]"
    using bootstrap_stores [of C g fits] assms(1,2,3) by blast
  have "list_all (\<lambda>c. vc_action c = ADD) (validator_changes g)" using assms(1) by (simp add: is_valid_genesis_def)
  then have "derive_validator_set C (validator_changes g) = Inl ValueError"
    using apply_keys_malformed [OF assms(4) _ assms(5)] assms(4) by (simp add: derive_validator_set_def list_all_iff)
  moreover have "\<not> repo_height rows < 0" using repo_height_stores [OF r(2)] by simp
  ultimately show ?thesis using r(1) sql.load_all_eq [OF r(2)] by (simp add: make_node_def)
qed

theorem malformed_genesis_bricks_witness:
  "let g = block_create short_crypto 0 ZERO_HASH 0 ZERO_HASH [] [\<lparr>vc_action = ADD, vc_validator = ''zz''\<rparr>] in
   \<exists>rows. bootstrap_repo short_crypto (\<lambda>_. True) True (Inr (Some g)) [] = Inr rows \<and>
     make_node short_crypto (demo_key (CHR ''a'')) (solo_set (CHR ''a'')) (\<lambda>_. True) rows (\<lambda>_. 7) 0 NullJournalStore 10
       = Inl (Raised ValueError)"
proof -
  let ?c = "\<lparr>vc_action = ADD, vc_validator = ''zz''\<rparr>"
  let ?g = "block_create short_crypto 0 ZERO_HASH 0 ZERO_HASH [] [?c]"
  have "is_valid_genesis short_crypto ?g" by code_simp
  moreover have "public_from_hex short_crypto (vc_validator ?c) = Inl ValueError" by code_simp
  ultimately show ?thesis
    using malformed_genesis_bricks [of short_crypto ?g "\<lambda>_. True" ?c] by (auto simp: block_create_def)
qed

end
