(* ===== verification/Notifier.thy ===== *)
theory Notifier
  imports Node_Runs "HOL-Library.Sublist"
begin

text \<open>
  \<open>notify/notifier.py\<close>: alerts for the blocks that the node hands to its commit hook. The
  console notifier writes log lines, the webhook notifier puts payloads into a bounded queue
  that a background task posts from; how each post ends is an argument: an answer of any status,
  an \<open>httpx.HTTPError\<close>, which is suppressed and loses the payload, or another exception, which
  ends the task.
\<close>

section \<open>Payloads\<close>

definition tampered :: "block \<Rightarrow> integrity_record list" where
  "tampered b = filter (\<lambda>r. r_verdict r = TAMPERED) (records b)"

definition em_dash :: string where
  \<comment> \<open>in UTF-8\<close>
  "em_dash = [CHR 0xE2, CHR 0x80, CHR 0x94]"

definition newline :: string where
  "newline = [CHR 0x0A]"

definition console_banner :: "block \<Rightarrow> integrity_record \<Rightarrow> string" where
  "console_banner b r =
     (let line = replicate 60 (CHR ''~'') in
      newline @ line @ newline @
      ''  TAMPERING DETECTED '' @ em_dash @ '' block #'' @ show_int (block_index b) @ newline @
      ''  device  : '' @ entity_id r @ newline @
      ''  attribute: '' @ attribute r @ newline @
      ''  broker  : '' @ source_broker r @ newline @
      ''  observed: '' @ show_int (observed_at r) @ newline @ line)"

definition console_committed :: "block \<Rightarrow> string list" where
  \<comment> \<open>\<open>ConsoleNotifier.block_committed\<close>: the lines it logs\<close>
  "console_committed b = map (console_banner b) (tampered b)"

fun join_with :: "string \<Rightarrow> string list \<Rightarrow> string" where
  \<comment> \<open>\<open>sep.join(texts)\<close>\<close>
  "join_with sep [] = []"
| "join_with sep [x] = x"
| "join_with sep (x # y # ys) = x @ sep @ join_with sep (y # ys)"

definition devices :: "integrity_record list \<Rightarrow> string list" where
  \<comment> \<open>\<open>sorted({r.entity_id for r in tampered})\<close>\<close>
  "devices rs = sort (remdups (map entity_id rs))"

definition webhook_payload :: "crypto \<Rightarrow> block \<Rightarrow> integrity_record list \<Rightarrow> json" where
  "webhook_payload C b rs =
     JObj [(''text'', JStr ('':rotating_light: Helix: tampering detected in block #'' @ show_int (block_index b) @
              '' '' @ em_dash @ '' device(s): '' @ join_with '', '' (devices rs))),
           (''event'', JStr ''tampering_detected''), (''severity'', JStr ''critical''),
           (''block_index'', JInt (block_index b)), (''block_hash'', JStr (block_hash C b)),
           (''records'', JList (map (\<lambda>r. JObj [(''entity_id'', JStr (entity_id r)), (''attribute'', JStr (attribute r)),
              (''source_broker'', JStr (source_broker r)), (''observed_at'', JInt (observed_at r))]) rs))]"


section \<open>The webhook\<close>

record webhook =
  wh_url :: string
  wh_maxsize :: int
  wh_queue :: "json list"

definition make_webhook :: "string \<Rightarrow> int \<Rightarrow> webhook" where
  "make_webhook u maxsize = \<lparr>wh_url = u, wh_maxsize = maxsize, wh_queue = []\<rparr>"

definition queue_full :: "webhook \<Rightarrow> bool" where
  \<comment> \<open>\<open>asyncio.Queue(maxsize)\<close> is unbounded for \<open>maxsize <= 0\<close>\<close>
  "queue_full w = (wh_maxsize w > 0 \<and> int (length (wh_queue w)) \<ge> wh_maxsize w)"

definition webhook_committed :: "crypto \<Rightarrow> block \<Rightarrow> webhook \<Rightarrow> webhook" where
  "webhook_committed C b w =
     (let rs = tampered b in
      if rs = [] then w
      else if queue_full w then w
      else w\<lparr>wh_queue := wh_queue w @ [webhook_payload C b rs]\<rparr>)"

definition webhook_take :: "webhook \<Rightarrow> (json \<times> webhook) option" where
  \<comment> \<open>\<open>await self._queue.get()\<close>; \<open>None\<close> if it waits\<close>
  "webhook_take w = (case wh_queue w of [] \<Rightarrow> None | p # ps \<Rightarrow> Some (p, w\<lparr>wh_queue := ps\<rparr>))"


section \<open>Fanning out\<close>

record notifiers =
  nf_log :: "string list"
  nf_webhook :: "webhook option"

definition block_committed :: "crypto \<Rightarrow> block \<Rightarrow> notifiers \<Rightarrow> notifiers" where
  \<comment> \<open>\<open>CompositeNotifier.block_committed\<close> over the notifiers that \<open>build_node\<close> installs\<close>
  "block_committed C b nf =
     nf\<lparr>nf_log := nf_log nf @ console_committed b, nf_webhook := map_option (webhook_committed C b) (nf_webhook nf)\<rparr>"

fun notify_all :: "crypto \<Rightarrow> effect list \<Rightarrow> notifiers \<Rightarrow> notifiers" where
  \<comment> \<open>the calls of the node's commit hook\<close>
  "notify_all C [] nf = nf"
| "notify_all C (OnCommit b # fx) nf = notify_all C fx (block_committed C b nf)"
| "notify_all C (_ # fx) nf = notify_all C fx nf"

datatype post_outcome = Answered | FailsHTTPError | RaisesOther

datatype webhook_event = Committed block | Posts post_outcome

fun run_webhook :: "crypto \<Rightarrow> webhook_event list \<Rightarrow> bool \<times> webhook \<Rightarrow> (json \<times> post_outcome) list \<times> bool \<times> webhook" where
  \<comment> \<open>commits interleaved with the iterations of \<open>run\<close>: the posts and how they ended, whether the task
    is still running, and the webhook that is left\<close>
  "run_webhook C [] s = ([], s)"
| "run_webhook C (Committed b # es) (running, w) = run_webhook C es (running, webhook_committed C b w)"
| "run_webhook C (Posts outcome # es) (running, w) =
     (case (if running then webhook_take w else None) of
        None \<Rightarrow> run_webhook C es (running, w)
      | Some (p, w') \<Rightarrow>
          let (ps, s) = run_webhook C es (outcome \<noteq> RaisesOther, w') in ((p, outcome) # ps, s))"


section \<open>Alerts\<close>

definition commits :: "effect list \<Rightarrow> block list" where
  "commits fx = concat (map (\<lambda>f. case f of OnCommit b \<Rightarrow> [b] | _ \<Rightarrow> []) fx)"

definition alerts :: "crypto \<Rightarrow> block list \<Rightarrow> json list" where
  "alerts C bs = map (\<lambda>b. webhook_payload C b (tampered b)) (filter (\<lambda>b. tampered b \<noteq> []) bs)"

definition events_commits :: "webhook_event list \<Rightarrow> block list" where
  "events_commits es = concat (map (\<lambda>e. case e of Committed b \<Rightarrow> [b] | Posts _ \<Rightarrow> []) es)"

lemma events_commits_simps [simp]:
  "events_commits [] = []" "events_commits (Committed b # es) = b # events_commits es"
  "events_commits (Posts outcome # es) = events_commits es"
  by (simp_all add: events_commits_def)

lemma notify_all_log: "nf_log (notify_all C fx nf) = nf_log nf @ concat (map console_committed (commits fx))"
  by (induction C fx nf rule: notify_all.induct) (simp_all add: commits_def block_committed_def)

lemma notify_all_webhook:
  "nf_webhook (notify_all C fx nf) = map_option (\<lambda>w. fold (webhook_committed C) (commits fx) w) (nf_webhook nf)"
  by (induction C fx nf rule: notify_all.induct)
    (simp_all add: commits_def block_committed_def option.map_comp comp_def option.map_ident)

lemma webhook_committed_fields [simp]:
  "wh_maxsize (webhook_committed C b w) = wh_maxsize w" "wh_url (webhook_committed C b w) = wh_url w"
  by (simp_all add: webhook_committed_def Let_def)

lemma run_webhook_maxsize: "run_webhook C es (running, w) = (posts, running', w') \<Longrightarrow> wh_maxsize w' = wh_maxsize w"
proof (induction es arbitrary: running w posts)
  case (Cons x es)
  then show ?case
    by (cases x; cases "wh_queue w")
      (fastforce simp: webhook_take_def Let_def split: if_splits prod.splits)+
qed simp

lemma webhook_bounded:
  "wh_maxsize w > 0 \<Longrightarrow> int (length (wh_queue w)) \<le> wh_maxsize w \<Longrightarrow> int (length (wh_queue (webhook_committed C b w))) \<le> wh_maxsize w"
  by (auto simp: webhook_committed_def queue_full_def Let_def)

lemma webhook_fold:
  assumes "wh_maxsize w > 0" "int (length (wh_queue w)) \<le> wh_maxsize w"
  shows "wh_queue (fold (webhook_committed C) bs w) = take (nat (wh_maxsize w)) (wh_queue w @ alerts C bs)"
  using assms
proof (induction bs arbitrary: w)
  case Nil
  then show ?case by (simp add: alerts_def)
next
  case (Cons b bs)
  have IH: "wh_queue (fold (webhook_committed C) bs (webhook_committed C b w))
      = take (nat (wh_maxsize w)) (wh_queue (webhook_committed C b w) @ alerts C bs)"
    using Cons.IH [of "webhook_committed C b w"] Cons.prems webhook_bounded by simp
  show ?case
  proof (cases "tampered b = [] \<or> \<not> queue_full w")
    case True
    then have "wh_queue (webhook_committed C b w) @ alerts C bs = wh_queue w @ alerts C (b # bs)"
      by (auto simp: webhook_committed_def alerts_def Let_def)
    then show ?thesis using IH by simp
  next
    case False
    then have "length (wh_queue w) = nat (wh_maxsize w)" "webhook_committed C b w = w"
      using Cons.prems by (auto simp: queue_full_def webhook_committed_def Let_def)
    then show ?thesis using IH by simp
  qed
qed

lemma run_webhook_posts:
  "run_webhook C (Posts outcome # es) (running, w) = (posts, s) \<Longrightarrow>
     run_webhook C es (running, w) = (posts, s) \<or>
     (\<exists>p ps posts'. running \<and> wh_queue w = p # ps \<and> posts = (p, outcome) # posts' \<and>
        run_webhook C es (outcome \<noteq> RaisesOther, w\<lparr>wh_queue := ps\<rparr>) = (posts', s))"
  by (cases "wh_queue w") (auto simp: webhook_take_def Let_def split: if_splits prod.splits)

text \<open>What was posted and what is queued is what was queued before and the accepted alerts.\<close>

lemma run_webhook_accepted:
  "run_webhook C es (running, w) = (posts, running', w') \<Longrightarrow>
     \<exists>accepted. map fst posts @ wh_queue w' = wh_queue w @ accepted \<and> subseq accepted (alerts C (events_commits es))"
proof (induction es arbitrary: running w posts)
  case (Cons x es)
  show ?case
  proof (cases x)
    case (Committed b)
    then obtain acc where acc: "map fst posts @ wh_queue w' = wh_queue (webhook_committed C b w) @ acc"
      "subseq acc (alerts C (events_commits es))"
      using Cons.IH [of running "webhook_committed C b w" posts] Cons.prems by auto
    show ?thesis
    proof (cases "tampered b = [] \<or> queue_full w")
      case True
      then have "wh_queue (webhook_committed C b w) = wh_queue w" by (auto simp: webhook_committed_def Let_def)
      then show ?thesis using acc Committed by (intro exI [of _ acc]) (auto simp: alerts_def)
    next
      case False
      then show ?thesis
        using acc Committed by (intro exI [of _ "webhook_payload C b (tampered b) # acc"]) (auto simp: webhook_committed_def alerts_def Let_def)
    qed
  next
    case (Posts outcome)
    from run_webhook_posts [OF Cons.prems [unfolded Posts]] show ?thesis
    proof (elim disjE exE conjE)
      assume "run_webhook C es (running, w) = (posts, running', w')"
      from Cons.IH [OF this] show ?thesis using Posts by simp
    next
      fix p ps posts' assume q: "wh_queue w = p # ps" "posts = (p, outcome) # posts'"
        and r: "run_webhook C es (outcome \<noteq> RaisesOther, w\<lparr>wh_queue := ps\<rparr>) = (posts', running', w')"
      from Cons.IH [OF r] show ?thesis using q Posts by auto
    qed
  qed
qed (simp add: alerts_def)

lemma run_webhook_append:
  "run_webhook C (es1 @ es2) s = (let (ps, s1) = run_webhook C es1 s; (qs, s2) = run_webhook C es2 s1 in (ps @ qs, s2))"
  by (induction C es1 s rule: run_webhook.induct) (auto simp: Let_def split: prod.splits option.splits if_splits)

lemma run_webhook_stops:
  "run_webhook C es (running, w) = (posts, s) \<Longrightarrow> (\<forall>q \<in> set (butlast posts). snd q \<noteq> RaisesOther) \<and> (\<not> running \<longrightarrow> posts = [])"
proof (induction es arbitrary: running w posts)
  case (Cons x es)
  show ?case
  proof (cases x)
    case (Committed b)
    then show ?thesis using Cons.IH [of running "webhook_committed C b w" posts] Cons.prems by simp
  next
    case (Posts outcome)
    from run_webhook_posts [OF Cons.prems [unfolded Posts]] show ?thesis
      using Cons.IH by (elim disjE exE conjE) (blast, force)
  qed
qed simp


section \<open>Properties\<close>

text \<open>C38: what becomes of an alert. Let blocks be committed and the background task post from the
  queue in any interleaving, each post ending with an answer, an \<open>HTTPError\<close> or another exception.
  What was posted, followed by what is still queued, is a subsequence of the alerts of the
  committed blocks with tampered records, in the order of the commits, so no alert is posted
  twice or out of order. An alert whose block is committed while the queue is not full is among
  them, exactly behind the posts and the queue of that moment; one that meets a full queue leaves
  no trace. A post is made once, whatever its outcome: an alert whose post fails is lost, and
  after an exception other than \<open>HTTPError\<close> nothing more is posted.\<close>

theorem alerts_in_order:
  assumes "run_webhook C es (True, make_webhook u maxsize) = (posts, running, w)"
  shows "subseq (map fst posts @ wh_queue w) (alerts C (events_commits es)) \<and>
    (\<forall>es1 b es2 posts1 running1 w1. es = es1 @ Committed b # es2 \<longrightarrow> tampered b \<noteq> [] \<longrightarrow>
       run_webhook C es1 (True, make_webhook u maxsize) = (posts1, running1, w1) \<longrightarrow>
       (if 0 < maxsize \<and> maxsize \<le> int (length (wh_queue w1))
        then run_webhook C (es1 @ es2) (True, make_webhook u maxsize) = (posts, running, w)
        else (map fst posts @ wh_queue w) ! (length posts1 + length (wh_queue w1)) = webhook_payload C b (tampered b) \<and>
             length posts1 + length (wh_queue w1) < length posts + length (wh_queue w))) \<and>
    (\<forall>q \<in> set (butlast posts). snd q \<noteq> RaisesOther)"
proof (intro conjI allI impI, goal_cases)
  case 1
  then show ?case using run_webhook_accepted [OF assms] by (auto simp: make_webhook_def)
next
  case (2 es1 b es2 posts1 running1 w1)
  let ?s = "(True, make_webhook u maxsize)"
  have max: "wh_maxsize w1 = maxsize" using run_webhook_maxsize [OF 2(3)] by (simp add: make_webhook_def)
  obtain posts2 where r: "run_webhook C es2 (running1, webhook_committed C b w1) = (posts2, running, w)" "posts = posts1 @ posts2"
    using assms 2(1,3) by (auto simp: run_webhook_append Let_def split: prod.splits)
  show ?case
  proof (cases "queue_full w1")
    case True
    then show ?thesis using 2(2,3) r max by (simp add: run_webhook_append webhook_committed_def queue_full_def Let_def)
  next
    case False
    then have q: "wh_queue (webhook_committed C b w1) = wh_queue w1 @ [webhook_payload C b (tampered b)]"
      using 2(2) by (simp add: webhook_committed_def Let_def)
    obtain acc where "map fst posts2 @ wh_queue w = wh_queue w1 @ webhook_payload C b (tampered b) # acc"
      using run_webhook_accepted [OF r(1)] q by auto
    then have eq: "map fst posts @ wh_queue w = (map fst posts1 @ wh_queue w1) @ webhook_payload C b (tampered b) # acc"
      using r(2) by simp
    have "length posts1 + length (wh_queue w1) < length posts + length (wh_queue w)"
      using arg_cong [OF eq, of length] by simp
    moreover have "\<not> (0 < maxsize \<and> maxsize \<le> int (length (wh_queue w1)))" using False max by (auto simp: queue_full_def)
    ultimately show ?thesis
      unfolding eq using nth_append_length [of "map fst posts1 @ wh_queue w1"] by (simp only: if_False) simp
  qed
next
  case 3
  then show ?case using run_webhook_stops [OF assms] by blast
qed

definition tampered_block :: "int \<Rightarrow> block" where
  "tampered_block i = block_create short_crypto i ZERO_HASH 5 ''p'' [demo_record\<lparr>r_verdict := TAMPERED\<rparr>] []"

theorem alerts_in_order_witness:
  "\<exists>posts running w. run_webhook short_crypto [Committed (tampered_block 1), Posts FailsHTTPError, Committed (tampered_block 2)]
       (True, make_webhook ''u'' 1) = (posts, running, w) \<and>
     (map fst posts @ wh_queue w) ! 1 = webhook_payload short_crypto (tampered_block 2) (tampered (tampered_block 2))"
proof -
  let ?es = "[Committed (tampered_block 1), Posts FailsHTTPError] @ Committed (tampered_block 2) # []"
  obtain posts running w where r: "run_webhook short_crypto ?es (True, make_webhook ''u'' 1) = (posts, running, w)"
    by (metis prod_cases3)
  have t: "tampered (tampered_block i) \<noteq> []" for i by (simp add: tampered_def tampered_block_def block_create_def)
  obtain w1 where w1: "run_webhook short_crypto [Committed (tampered_block 1), Posts FailsHTTPError] (True, make_webhook ''u'' 1)
      = ([(webhook_payload short_crypto (tampered_block 1) (tampered (tampered_block 1)), FailsHTTPError)], True, w1)" "wh_queue w1 = []"
    using t [of 1] by (auto simp: webhook_committed_def make_webhook_def queue_full_def webhook_take_def Let_def)
  show ?thesis
    using alerts_in_order [OF r, THEN conjunct2, THEN conjunct1, rule_format, OF refl t w1(1)] w1(2) r by auto
qed

text \<open>The notifiers on the commit hook. Processing the effects of a node's run logs one banner
  for each tampered record of each block handed to the hook, in order; and with nothing taken
  meanwhile the webhook's queue holds the first \<open>maxsize\<close> alerts.\<close>

theorem hook_notifies:
  assumes "0 < maxsize"
  shows "nf_log (notify_all C fx \<lparr>nf_log = [], nf_webhook = Some (make_webhook u maxsize)\<rparr>)
      = concat (map (\<lambda>b. map (console_banner b) (filter (\<lambda>r. r_verdict r = TAMPERED) (records b))) (commits fx)) \<and>
    map_option wh_queue (nf_webhook (notify_all C fx \<lparr>nf_log = [], nf_webhook = Some (make_webhook u maxsize)\<rparr>))
      = Some (take (nat maxsize) (alerts C (commits fx)))"
  using webhook_fold [of "make_webhook u maxsize" C "commits fx"] assms
  by (simp add: notify_all_log notify_all_webhook make_webhook_def console_committed_def [abs_def] tampered_def)

theorem hook_notifies_witness:
  "length (nf_log (notify_all short_crypto [OnCommit (tampered_block 1), GossipRecords [], OnCommit (tampered_block 2)]
     \<lparr>nf_log = [], nf_webhook = Some (make_webhook ''u'' 1)\<rparr>)) = 2"
proof -
  have "tampered (tampered_block i) = records (tampered_block i)" "length (records (tampered_block i)) = 1" for i
    by (simp_all add: tampered_def tampered_block_def block_create_def)
  then show ?thesis
    using hook_notifies [of 1 short_crypto "[OnCommit (tampered_block 1), GossipRecords [], OnCommit (tampered_block 2)]" "''u''"]
    by (simp add: commits_def flip: tampered_def)
qed

end
