(* ===== verification/App.thy ===== *)
theory App
  imports Bootstrap Collectors Notifier Node_Properties
begin

text \<open>
  The background tasks of \<open>app.py\<close> around a running node: the two monitoring loops, the
  settings they derive, and the loops of the node that other theories model step by step.
  What the brokers answer at each check is an argument.
\<close>

section \<open>Derived settings\<close>

definition app_confidentiality :: "(string \<Rightarrow> string result) \<Rightarrow> secret_settings \<Rightarrow> bool \<Rightarrow> confidentiality result" where
  \<comment> \<open>\<open>_confidentiality\<close>\<close>
  "app_confidentiality read_text st pseudonymize =
     bindr (resolved_commit_key read_text st) (\<lambda>k. Inr (make_confidentiality k pseudonymize))"

definition round_timeout :: "rat \<Rightarrow> rat" where
  "round_timeout block_interval = max 2 (block_interval * 3)"

definition discovery_interval :: "rat \<Rightarrow> rat" where
  "discovery_interval block_interval = max 5 (block_interval * 2)"


section \<open>Monitoring\<close>

record monitor =
  mo_seen :: "string list"      \<comment> \<open>the deduper\<close>
  mo_node :: node

datatype observation =
    Unreachable                                                     \<comment> \<open>\<open>checker.check\<close> raises\<close>
  | Observed int "entity_observation list" "string list" "string \<Rightarrow> entity_observation list"
      \<comment> \<open>the time, the main broker's observations, the federated brokers, and theirs\<close>

datatype check_result = Checked | Failed

definition monitor_check :: "crypto \<Rightarrow> confidentiality \<Rightarrow> observation \<Rightarrow> monitor \<Rightarrow> (check_result \<times> monitor) option" where
  \<comment> \<open>\<open>run_check\<close>\<close>
  "monitor_check C cf ob mo =
     (case ob of
        Unreachable \<Rightarrow> Some (Failed, mo)
      | Observed now main brokers obs \<Rightarrow>
          (case run_check C cf now main brokers obs (mo_seen mo) (mo_node mo) of
             None \<Rightarrow> None
           | Some (seen, (err, n)) \<Rightarrow>
               Some (case err of None \<Rightarrow> Checked | Some _ \<Rightarrow> Failed, \<lparr>mo_seen = seen, mo_node = n\<rparr>)))"

fun polling_loop :: "crypto \<Rightarrow> confidentiality \<Rightarrow> observation list \<Rightarrow> monitor \<Rightarrow> monitor option" where
  \<comment> \<open>as many iterations of \<open>_polling_loop\<close> as there are observations; a failure is logged\<close>
  "polling_loop C cf [] mo = Some mo"
| "polling_loop C cf (ob # obs) mo =
     (case monitor_check C cf ob mo of None \<Rightarrow> None | Some (_, mo') \<Rightarrow> polling_loop C cf obs mo')"

datatype loop_end = Waiting | Escaped

fun change_stream_loop :: "crypto \<Rightarrow> confidentiality \<Rightarrow> observation list \<Rightarrow> monitor \<Rightarrow> (loop_end \<times> monitor) option" where
  \<comment> \<open>\<open>_change_stream_loop\<close>: the baseline check, then one check per queued change; the
      exception of the baseline check leaves the loop\<close>
  "change_stream_loop C cf [] mo = Some (Waiting, mo)"
| "change_stream_loop C cf (baseline # obs) mo =
     (case monitor_check C cf baseline mo of
        None \<Rightarrow> None
      | Some (Failed, mo') \<Rightarrow> Some (Escaped, mo')
      | Some (Checked, mo') \<Rightarrow> map_option (\<lambda>mo''. (Waiting, mo'')) (polling_loop C cf obs mo'))"


section \<open>What a check leaves in the mempool\<close>

lemma authentic_signed:
  assumes "ed25519_correct C" "private_ok k" "contains S (private_public C k)"
  shows "authentic_records C S (map (\<lambda>r. signed C r k) rs) = Inr (map (\<lambda>r. signed C r k) rs)"
  using record_verify_signed [OF assms] by (induction rs) simp_all

lemma submit_retained:
  assumes "submit_records C rs n = Some (None, n')" "ed25519_correct C" "private_ok (n_private_key n)"
    "contains (n_active n) (n_me C n)" "r \<in> set rs" "content_key C r \<notin> set (n_mempool_seen n)" "repo_stores C (n_repo n) bs"
  shows "\<exists>m. retains C m n' \<and> n_repo m = n_repo n \<and> signed C r (n_private_key n) \<in> set (n_pending m)"
proof -
  let ?s = "map (\<lambda>r. signed C r (n_private_key n)) rs"
  let ?fresh = "filter (\<lambda>r. content_key C r \<notin> set (n_mempool_seen n)) ?s"
  let ?m = "send [GossipRecords (map record_to_dict ?fresh)]
    (n\<lparr>n_metrics := observe_records_dropped 0 (n_metrics n), n_mempool_seen := n_mempool_seen n @ map (content_key C) ?fresh,
       n_pending := n_pending n @ ?fresh\<rparr>)"
  have a: "authentic_records C (n_active n) ?s = Inr ?s" using authentic_signed [OF assms(2,3)] assms(4) by (simp add: n_me_def)
  have r: "signed C r (n_private_key n) \<in> set ?fresh" using assms(5,6) by (simp add: content_key_signed)
  then have ne: "?fresh \<noteq> []" by (metis empty_iff empty_set)
  have "repropose C ?m = Some (None, n')"
    using assms(1) a ne by (simp add: submit_records_def ingest_records_def Let_def)
  then have "retains C ?m n'" by (rule retaining.reproposed)
  then show ?thesis using r by (intro exI [of _ ?m]) (simp add: send_def)
qed

lemma run_check_retained:
  assumes "run_check C cf now main brokers obs seen n = Some (seen', (None, n'))" "ed25519_correct C"
    "private_ok (n_private_key n)" "contains (n_active n) (n_me C n)" "filter_new C seen (check C cf now main brokers obs) = (seen', fresh)"
    "r \<in> set fresh" "content_key C r \<notin> set (n_mempool_seen n)" "repo_stores C (n_repo n) bs"
  shows "\<exists>new. repo_stores C (n_repo n') (bs @ new) \<and>
    (signed C r (n_private_key n) \<in> set (n_pending n') \<or> stored_in C new (signed C r (n_private_key n)))"
proof -
  obtain n1 where n1: "submit_records C fresh n = Some (None, n1)" "tick C n1 = Some (None, n')"
    using assms(1,5,6) by (auto simp: run_check_def split: option.splits prod.splits if_splits)
  obtain m where m: "retains C m n1" "n_repo m = n_repo n" "signed C r (n_private_key n) \<in> set (n_pending m)"
    using submit_retained [OF n1(1) assms(2-4,6-8)] by blast
  have "retains C n1 n'" using retaining.reproposed [of C n1 None n'] n1(2) by (simp add: tick_def)
  from retains_trans [OF m(1) this] show ?thesis using m(2,3) assms(8) unfolding retains_def by fastforce
qed

lemma authentic_outsider:
  assumes "ed25519_correct C" "private_ok k" "\<not> contains S (private_public C k)"
  shows "authentic_records C S (map (\<lambda>r. signed C r k) rs) = Inr []"
proof -
  have "record_verify C (signed C r k) S = Inr False" for r
    using assms by (simp add: record_verify_def signed_def private_public_from_hex private_nonempty)
  then show ?thesis by (induction rs) simp_all
qed

lemma outsider_check:
  assumes "n_engine n = None" "\<not> contains (n_active n) (n_me C n)" "ed25519_correct C" "private_ok (n_private_key n)"
    "filter_new C seen (check C cf now main brokers obs) = (seen', fresh)"
  shows "run_check C cf now main brokers obs seen n
    = Some (seen', (None, n\<lparr>n_metrics := observe_records_dropped (int (length fresh)) (n_metrics n)\<rparr>))"
proof -
  let ?n = "n\<lparr>n_metrics := observe_records_dropped (int (length fresh)) (n_metrics n)\<rparr>"
  have submit: "submit_records C fresh n = Some (None, ?n)"
    using authentic_outsider [OF assms(3,4)] assms(2) by (simp add: submit_records_def ingest_records_def n_me_def)
  have tick: "tick C m = Some (None, m)" if "n_engine m = None" for m
    using that by (simp add: tick_def repropose_def node_set_pending_def call_engine_def apply_locked.simps [of C None])
  have "tick C n = Some (None, n)" "tick C ?n = Some (None, ?n)" by (rule tick, simp add: assms(1))+
  moreover have "fresh = [] \<Longrightarrow> n\<lparr>n_metrics := observe_records_dropped 0 (n_metrics n)\<rparr> = n" by (simp add: observe_records_dropped_def)
  ultimately show ?thesis using assms(5) submit by (simp add: run_check_def)
qed

text \<open>The text a record has for the deduper: without time, observer and signature.\<close>

definition dedup_text :: "integrity_record \<Rightarrow> bytes" where
  "dedup_text r = record_canonical (r\<lparr>observed_at := 0, observer := [], r_signature := []\<rparr>)"

lemma check_fields: "r \<in> set (check C cf now main brokers obs) \<Longrightarrow> observed_at r = now \<and> observer r = [] \<and> r_signature r = []"
  by (auto simp: check_verdict_eq observed_record_def)

lemma fresh_is_observed:
  assumes "filter_new C seen (check C cf now main brokers obs) = (seen', fresh)"
    "collision_free C (dedup_text ` set (check C cf now main brokers obs))"
    "r \<in> set (check C cf now main brokers obs)" "dedup_key C r \<notin> set seen"
  shows "r \<in> set fresh"
proof -
  note s = filter_new_spec [OF assms(1)]
  have "dedup_key C r \<in> keys_of C fresh" using s assms(3,4) by (auto simp: keys_of_def)
  then obtain x where x: "x \<in> set fresh" "dedup_key C x = dedup_key C r" by (auto simp: keys_of_def)
  then have c: "x \<in> set (check C cf now main brokers obs)" using s by blast
  have "dedup_text x = dedup_text r"
    using inj_onD [OF assms(2) [unfolded collision_free_def], of "dedup_text x" "dedup_text r"] x(2) c assms(3)
    by (simp add: dedup_key_def dedup_text_def record_id_def sha256_hex_def hex_of_bytes_inj)
  then have "x\<lparr>observed_at := 0, observer := [], r_signature := []\<rparr> = r\<lparr>observed_at := 0, observer := [], r_signature := []\<rparr>"
    by (simp add: dedup_text_def record_canonical_eq_iff)
  then have "x = r" using check_fields [OF c] check_fields [OF assms(3)] by (cases x; cases r) simp
  then show ?thesis using x(1) by simp
qed

lemma tampered_retained:
  assumes "run_check C cf now main brokers obs seen n = Some (seen', (None, n'))" "ed25519_correct C"
    "private_ok (n_private_key n)" "contains (n_active n) (n_me C n)" "repo_stores C (n_repo n) bs"
    "broker \<in> set brokers" "ob \<in> set (obs broker)" "\<not> last_agrees main ob"
    and r: "r = observed_record C cf now broker ob TAMPERED"
    and "dedup_key C r \<notin> set seen" "content_key C r \<notin> set (n_mempool_seen n)"
    "collision_free C (dedup_text ` set (check C cf now main brokers obs))"
  shows "\<exists>new. repo_stores C (n_repo n') (bs @ new) \<and>
    (signed C r (n_private_key n) \<in> set (n_pending n') \<or> stored_in C new (signed C r (n_private_key n)))"
proof -
  have c: "r \<in> set (check C cf now main brokers obs)" using assms(6-8) by (force simp: check_verdict_eq r)
  obtain fresh where f: "filter_new C seen (check C cf now main brokers obs) = (seen', fresh)"
    using assms(1) by (auto simp: run_check_def split: prod.splits option.splits)
  show ?thesis by (rule run_check_retained [OF assms(1-4) f fresh_is_observed [OF f assms(12) c assms(10)] assms(11,5)])
qed


section \<open>Properties\<close>

text \<open>An unreachable broker at start ends a node that uses change streams. The polling loop
  survives any failed check and does the next one; the change-stream loop runs its first check
  outside of the handler, so if the brokers cannot be read at that moment the exception leaves
  the monitoring task, and no later change is checked.\<close>

theorem baseline_failure_escapes:
  "polling_loop C cf (Unreachable # obs) mo = polling_loop C cf obs mo \<and>
   change_stream_loop C cf (Unreachable # obs) mo = Some (Escaped, mo)"
  by (simp add: monitor_check_def)

text \<open>C25: what a node observes before it is a validator is lost. A node that is not a member of
  the active set signs and submits what its check finds, and drops it again, because its own
  signature is not a validator's; the check completes without an error and leaves the node as
  it was, with the records counted as dropped. But the deduper has noted the contents, so no later check forwards them, also not
  after the node has become a validator.\<close>

theorem outsider_observations_lost:
  assumes "n_engine n = None" "\<not> contains (n_active n) (n_me C n)" "ed25519_correct C" "private_ok (n_private_key n)"
  shows "\<exists>seen' fresh. filter_new C seen (check C cf now main brokers obs) = (seen', fresh) \<and>
    run_check C cf now main brokers obs seen n
      = Some (seen', (None, n\<lparr>n_metrics := observe_records_dropped (int (length fresh)) (n_metrics n)\<rparr>)) \<and>
    (\<forall>rs. keys_of C rs \<subseteq> keys_of C (check C cf now main brokers obs) \<longrightarrow> snd (filter_new C seen' rs) = [])"
proof -
  obtain seen' fresh where f: "filter_new C seen (check C cf now main brokers obs) = (seen', fresh)" by fastforce
  have "snd (filter_new C seen' rs) = []" if "keys_of C rs \<subseteq> keys_of C (check C cf now main brokers obs)" for rs
  proof -
    obtain s2 out where o: "filter_new C seen' rs = (s2, out)" by fastforce
    have "keys_of C rs - set seen' = {}" using that filter_new_spec [OF f] by blast
    then have "keys_of C out = {}" using filter_new_spec [OF o] by simp
    then show ?thesis using o by (simp only: keys_of_simps snd_conv)
  qed
  then show ?thesis using outsider_check [OF assms f] f by blast
qed

theorem outsider_observations_lost_witness:
  "\<exists>seen' n'. run_check short_crypto (make_confidentiality None False) 5 [] [''f''] (\<lambda>_. [demo_obs (JInt 2) ''f'']) []
     (solo\<lparr>n_active := solo_set (CHR ''b''), n_engine := None\<rparr>) = Some (seen', (None, n')) \<and> n_pending n' = n_pending solo"
proof -
  let ?n = "solo\<lparr>n_active := solo_set (CHR ''b''), n_engine := None\<rparr>"
  have "\<not> contains (n_active ?n) (n_me short_crypto ?n)" by code_simp
  then show ?thesis
    using outsider_observations_lost [of ?n short_crypto] short_crypto_correct solo_key demo_key_ok by fastforce
qed

end
