(* ===== verification/Gateway.thy ===== *)
theory Gateway
  imports Collectors
begin

text \<open>
  \<open>MongoOrionGateway\<close> of \<open>collectors/orion.py\<close>: the cached connections to the brokers, the reads
  through them, and the check that \<open>IntegrityChecker\<close> makes of what they return. The database
  driver is a parameter: what a query returns depends on the client it is sent through.
\<close>

section \<open>Connections\<close>

record orion_settings =
  or_host :: string
  or_port :: int
  or_username :: string
  or_password :: string
  or_database :: string
  or_tls :: bool
  or_tls_ca_file :: string
  or_poll_interval :: rat
  or_use_change_streams :: bool

datatype mongo_kwarg = MFlag bool | MInt int | MText string

record mongo_client =
  mc_host :: string
  mc_port :: int
  mc_kwargs :: "(string, mongo_kwarg) dict"

record gateway =
  gw_settings :: orion_settings
  gw_clients :: "(string, mongo_client) dict"

definition make_gateway :: "orion_settings \<Rightarrow> gateway" where
  "make_gateway st = \<lparr>gw_settings = st, gw_clients = []\<rparr>"

definition new_client :: "orion_settings \<Rightarrow> string \<Rightarrow> mongo_client" where
  "new_client st host =
     (let kwargs = [(''tls'', MFlag (or_tls st)), (''serverSelectionTimeoutMS'', MInt 3000)];
          kwargs = (if or_tls st \<and> or_tls_ca_file st \<noteq> [] then dict_set ''tlsCAFile'' (MText (or_tls_ca_file st)) kwargs else kwargs);
          kwargs = (if or_password st \<noteq> []
                    then dict_set ''password'' (MText (or_password st)) (dict_set ''username'' (MText (or_username st)) kwargs)
                    else kwargs)
      in \<lparr>mc_host = host, mc_port = or_port st, mc_kwargs = kwargs\<rparr>)"

definition client_for :: "string \<Rightarrow> gateway \<Rightarrow> mongo_client \<times> gateway" where
  \<comment> \<open>\<open>_client_for\<close>\<close>
  "client_for host gw =
     (case dict_get (gw_clients gw) host of
        Some c \<Rightarrow> (c, gw)
      | None \<Rightarrow> let c = new_client (gw_settings gw) host in (c, gw\<lparr>gw_clients := dict_set host c (gw_clients gw)\<rparr>))"

definition main_broker :: "gateway \<Rightarrow> string" where
  "main_broker gw = or_host (gw_settings gw)"

definition gw_close :: "gateway \<Rightarrow> gateway" where
  "gw_close gw = gw\<lparr>gw_clients := []\<rparr>"


section \<open>Reading\<close>

record mongo =
  find_docs :: "mongo_client \<Rightarrow> string \<Rightarrow> string \<Rightarrow> json list result"      \<comment> \<open>database and collection\<close>
  distinct_values :: "mongo_client \<Rightarrow> string \<Rightarrow> string \<Rightarrow> string \<Rightarrow> string list result"   \<comment> \<open>\<open>distinct(field)\<close>, as text\<close>

definition gw_federated :: "(string \<Rightarrow> string option) \<Rightarrow> mongo \<Rightarrow> gateway \<Rightarrow> string list result \<times> gateway" where
  \<comment> \<open>\<open>federated_brokers\<close>\<close>
  "gw_federated hostname db gw =
     (let (c, gw') = client_for (main_broker gw) gw in
      (bindr (distinct_values db c (or_database (gw_settings gw)) ''csubs'' ''reference'') (\<lambda>refs.
         Inr (federated_hosts hostname (main_broker gw) [] refs)), gw'))"

definition broker_host :: "string option \<Rightarrow> gateway \<Rightarrow> string" where
  \<comment> \<open>\<open>broker or self.main_broker()\<close>\<close>
  "broker_host broker gw = (case broker of None \<Rightarrow> main_broker gw | Some b \<Rightarrow> if b \<noteq> [] then b else main_broker gw)"

definition gw_observations :: "mongo \<Rightarrow> string option \<Rightarrow> gateway \<Rightarrow> entity_observation list result \<times> gateway" where
  "gw_observations db broker gw =
     (let host = broker_host broker gw; (c, gw') = client_for host gw
      in (bindr (find_docs db c (or_database (gw_settings gw)) ''entities'') (observations host), gw'))"

definition gw_ensure_indexes :: "gateway \<Rightarrow> gateway" where
  \<comment> \<open>\<open>ensure_indexes\<close>: both collections are reached through the main broker's client\<close>
  "gw_ensure_indexes gw = snd (client_for (main_broker gw) (snd (client_for (main_broker gw) gw)))"

definition gw_watch :: "string option \<Rightarrow> gateway \<Rightarrow> mongo_client \<times> gateway" where
  \<comment> \<open>\<open>watch_entities\<close>: the client whose change stream is returned\<close>
  "gw_watch broker gw = client_for (broker_host broker gw) gw"


section \<open>The check\<close>

definition checked_verdict :: "(string \<times> string, json) dict \<Rightarrow> entity_observation \<Rightarrow> verdict" where
  "checked_verdict idx ob =
     (case dict_get idx (obs_key ob) of
        None \<Rightarrow> TAMPERED
      | Some expected \<Rightarrow> if \<not> py_eq expected (o_value ob) then TAMPERED else OK)"

fun check_brokers ::
    "crypto \<Rightarrow> confidentiality \<Rightarrow> int \<Rightarrow> (string \<times> string, json) dict \<Rightarrow> mongo \<Rightarrow> string list \<Rightarrow> integrity_record list \<Rightarrow> gateway
     \<Rightarrow> integrity_record list result \<times> gateway" where
  \<comment> \<open>the loop over the federated brokers\<close>
  "check_brokers C cf now idx db [] rs gw = (Inr rs, gw)"
| "check_brokers C cf now idx db (broker # brokers) rs gw =
     (case gw_observations db (Some broker) gw of
        (Inl e, gw') \<Rightarrow> (Inl e, gw')
      | (Inr obs, gw') \<Rightarrow>
          check_brokers C cf now idx db brokers (rs @ map (\<lambda>ob. observed_record C cf now broker ob (checked_verdict idx ob)) obs) gw')"

definition gateway_check ::
    "crypto \<Rightarrow> confidentiality \<Rightarrow> int \<Rightarrow> (string \<Rightarrow> string option) \<Rightarrow> mongo \<Rightarrow> gateway \<Rightarrow> integrity_record list result \<times> gateway" where
  \<comment> \<open>\<open>IntegrityChecker.check\<close> on a gateway\<close>
  "gateway_check C cf now hostname db gw =
     (case gw_observations db None gw of
        (Inl e, gw1) \<Rightarrow> (Inl e, gw1)
      | (Inr main, gw1) \<Rightarrow>
          (case gw_federated hostname db gw1 of
             (Inl e, gw2) \<Rightarrow> (Inl e, gw2)
           | (Inr brokers, gw2) \<Rightarrow> check_brokers C cf now (main_index [] main) db brokers [] gw2))"


section \<open>Connections are reused and configured\<close>

definition clients_ok :: "gateway \<Rightarrow> bool" where
  "clients_ok gw \<longleftrightarrow> dict_ok (gw_clients gw) \<and> (\<forall>(h, c) \<in> set (gw_clients gw). c = new_client (gw_settings gw) h)"

lemma clients_ok_start [simp]: "clients_ok (make_gateway st)" "clients_ok (gw_close gw)"
  by (simp_all add: clients_ok_def make_gateway_def gw_close_def dict_ok_def)

lemma client_for_ok:
  assumes "clients_ok gw" "client_for host gw = (c, gw')"
  shows "c = new_client (gw_settings gw) host \<and> clients_ok gw' \<and> gw_settings gw' = gw_settings gw \<and>
    dict_get (gw_clients gw') host = Some c"
proof (cases "dict_get (gw_clients gw) host")
  case None
  then show ?thesis
    using assms set_dict_set_subset [of host c "gw_clients gw"] dict_ok_set
    by (fastforce simp: clients_ok_def client_for_def Let_def)
next
  case (Some d)
  then have "(host, d) \<in> set (gw_clients gw)" by (rule map_of_SomeD)
  then show ?thesis using assms Some by (auto simp: clients_ok_def client_for_def)
qed

lemma gw_indexes_watch_ok:
  assumes "clients_ok gw"
  shows "clients_ok (gw_ensure_indexes gw)" "clients_ok (snd (gw_watch broker gw))"
    "fst (gw_watch broker gw) = new_client (gw_settings gw) (broker_host broker gw)"
  using client_for_ok assms by (metis gw_ensure_indexes_def gw_watch_def prod.collapse)+

definition entities_at :: "mongo \<Rightarrow> orion_settings \<Rightarrow> string \<Rightarrow> entity_observation list result" where
  \<comment> \<open>what is stored at a broker\<close>
  "entities_at db st host = bindr (find_docs db (new_client st host) (or_database st) ''entities'') (observations host)"

lemma gw_observations_ok:
  assumes "clients_ok gw" "gw_observations db (Some b) gw = (r, gw')" "b \<noteq> []"
  shows "r = entities_at db (gw_settings gw) b \<and> clients_ok gw' \<and> gw_settings gw' = gw_settings gw"
proof -
  obtain c g where c: "client_for b gw = (c, g)" by fastforce
  then show ?thesis using client_for_ok [OF assms(1) c] assms(2,3) by (auto simp: gw_observations_def broker_host_def entities_at_def Let_def)
qed

lemma gw_observations_main:
  assumes "clients_ok gw" "gw_observations db None gw = (r, gw')"
  shows "r = entities_at db (gw_settings gw) (main_broker gw) \<and> clients_ok gw' \<and> gw_settings gw' = gw_settings gw"
proof -
  obtain c g where c: "client_for (main_broker gw) gw = (c, g)" by fastforce
  then show ?thesis using client_for_ok [OF assms(1) c] assms(2) by (auto simp: gw_observations_def broker_host_def entities_at_def Let_def)
qed

lemma gw_federated_ok:
  assumes "clients_ok gw" "gw_federated hostname db gw = (r, gw')"
  shows "r = bindr (distinct_values db (new_client (gw_settings gw) (main_broker gw)) (or_database (gw_settings gw)) ''csubs'' ''reference'')
      (\<lambda>refs. Inr (federated_hosts hostname (main_broker gw) [] refs)) \<and> clients_ok gw' \<and> gw_settings gw' = gw_settings gw"
proof -
  obtain c g where c: "client_for (main_broker gw) gw = (c, g)" by fastforce
  then show ?thesis using client_for_ok [OF assms(1) c] assms(2) by (auto simp: gw_federated_def)
qed

lemma federated_hosts_ok:
  assumes "distinct hosts" "[] \<notin> set hosts" "main \<notin> set hosts"
  shows "distinct (federated_hosts hostname main hosts refs) \<and> [] \<notin> set (federated_hosts hostname main hosts refs) \<and>
    main \<notin> set (federated_hosts hostname main hosts refs)"
  using assms
proof (induction refs arbitrary: hosts)
  case (Cons ref refs)
  show ?case
  proof (cases "host_from_reference hostname ref")
    case (Some h)
    then show ?thesis using Cons.IH [of hosts] Cons.IH [of "hosts @ [h]"] Cons.prems by auto
  qed (use Cons in simp)
qed simp

lemma check_brokers_ok:
  assumes "clients_ok gw" "[] \<notin> set brokers" "\<forall>b \<in> set brokers. entities_at db (gw_settings gw) b = Inr (obs b)"
  shows "\<exists>gw'. check_brokers C cf now idx db brokers rs gw
      = (Inr (rs @ concat (map (\<lambda>b. map (\<lambda>ob. observed_record C cf now b ob (checked_verdict idx ob)) (obs b)) brokers)), gw') \<and>
    clients_ok gw' \<and> gw_settings gw' = gw_settings gw"
  using assms
proof (induction brokers arbitrary: rs gw)
  case (Cons b bs)
  obtain r g where g: "gw_observations db (Some b) gw = (r, g)" by fastforce
  have "r = Inr (obs b)" "clients_ok g" "gw_settings g = gw_settings gw"
    using gw_observations_ok [OF Cons.prems(1) g] Cons.prems(2,3) by auto
  then show ?case
    using Cons.IH [of g "rs @ map (\<lambda>ob. observed_record C cf now b ob (checked_verdict idx ob)) (obs b)"] Cons.prems g by simp
qed simp

lemma check_brokers_error:
  assumes "clients_ok gw" "[] \<notin> set (bs @ b # cs)" "\<forall>b \<in> set bs. entities_at db (gw_settings gw) b = Inr (obs b)"
    "entities_at db (gw_settings gw) b = Inl e"
  shows "fst (check_brokers C cf now idx db (bs @ b # cs) rs gw) = Inl e"
  using assms
proof (induction bs arbitrary: rs gw)
  case Nil
  obtain r g where g: "gw_observations db (Some b) gw = (r, g)" by fastforce
  then show ?case using gw_observations_ok [OF Nil.prems(1) g] Nil.prems(2,4) by auto
next
  case (Cons a bs)
  obtain r g where g: "gw_observations db (Some a) gw = (r, g)" by fastforce
  have "r = Inr (obs a)" "clients_ok g" "gw_settings g = gw_settings gw"
    using gw_observations_ok [OF Cons.prems(1) g] Cons.prems(2,3) by auto
  then show ?case using Cons.IH [of g] Cons.prems g by simp
qed

lemma check_by_verdict:
  "check C cf now main brokers obs
     = concat (map (\<lambda>b. map (\<lambda>ob. observed_record C cf now b ob (checked_verdict (main_index [] main) ob)) (obs b)) brokers)"
  by (simp add: check_def checked_verdict_def Let_def)

lemma gateway_check_brokers:
  assumes "clients_ok gw" "st = gw_settings gw" "entities_at db st (or_host st) = Inr main"
    "distinct_values db (new_client st (or_host st)) (or_database st) ''csubs'' ''reference'' = Inr refs"
    "brokers = federated_hosts hostname (or_host st) [] refs"
  obtains gw2 where "gateway_check C cf now hostname db gw = check_brokers C cf now (main_index [] main) db brokers [] gw2"
    "clients_ok gw2" "gw_settings gw2 = st"
proof -
  obtain r1 g1 where g1: "gw_observations db None gw = (r1, g1)" by fastforce
  have o1: "r1 = Inr main" "clients_ok g1" "gw_settings g1 = st"
    using gw_observations_main [OF assms(1) g1] assms(2,3) by (simp_all add: main_broker_def)
  obtain r2 g2 where g2: "gw_federated hostname db g1 = (r2, g2)" by fastforce
  have o2: "r2 = Inr brokers" "clients_ok g2" "gw_settings g2 = st"
    using gw_federated_ok [OF o1(2) g2] o1(3) assms(4,5) by (simp_all add: main_broker_def)
  then show thesis using g1 o1(1) g2 by (intro that [of g2]) (simp_all add: gateway_check_def)
qed

lemma gateway_check_ok:
  assumes "clients_ok gw" "st = gw_settings gw" "entities_at db st (or_host st) = Inr main"
    "distinct_values db (new_client st (or_host st)) (or_database st) ''csubs'' ''reference'' = Inr refs"
    "brokers = federated_hosts hostname (or_host st) [] refs" "\<forall>b \<in> set brokers. entities_at db st b = Inr (obs b)"
  shows "\<exists>gw'. gateway_check C cf now hostname db gw = (Inr (check C cf now main brokers obs), gw') \<and> clients_ok gw' \<and> gw_settings gw' = st"
proof -
  obtain gw2 where g: "gateway_check C cf now hostname db gw = check_brokers C cf now (main_index [] main) db brokers [] gw2"
    "clients_ok gw2" "gw_settings gw2 = st" by (rule gateway_check_brokers [OF assms(1-5)])
  have "[] \<notin> set brokers" using federated_hosts_ok [of "[]" "or_host st" hostname refs] assms(5) by simp
  from check_brokers_ok [OF g(2) this, of db obs C cf now "main_index [] main" "[]"] show ?thesis
    using g assms(6) by (auto simp: check_by_verdict)
qed

lemma gateway_check_error:
  assumes "clients_ok gw" "st = gw_settings gw" "entities_at db st (or_host st) = Inr main"
    "distinct_values db (new_client st (or_host st)) (or_database st) ''csubs'' ''reference'' = Inr refs"
    "brokers = federated_hosts hostname (or_host st) [] refs" "\<exists>b \<in> set brokers. \<exists>e. entities_at db st b = Inl e"
  shows "\<exists>e. fst (gateway_check C cf now hostname db gw) = Inl e"
proof -
  obtain gw2 where g: "gateway_check C cf now hostname db gw = check_brokers C cf now (main_index [] main) db brokers [] gw2"
    "clients_ok gw2" "gw_settings gw2 = st" by (rule gateway_check_brokers [OF assms(1-5)])
  obtain xs b ys e where s: "brokers = xs @ b # ys" "entities_at db st b = Inl e" "\<forall>x \<in> set xs. \<not> (\<exists>e. entities_at db st x = Inl e)"
    using split_list_first_prop [OF assms(6)] by blast
  have "\<forall>x \<in> set xs. entities_at db st x = Inr (projr (entities_at db st x))"
    using s(3) by (metis sum.exhaust_sel sum.sel(2))
  moreover have "[] \<notin> set brokers" using federated_hosts_ok [of "[]" "or_host st" hostname refs] assms(5) by simp
  ultimately show ?thesis
    using check_brokers_error [OF g(2), of xs b ys db "\<lambda>x. projr (entities_at db st x)" e C cf now "main_index [] main" "[]"] s g by auto
qed

text \<open>The connections of a gateway carry credentials only when a password is configured, and the
  authority's certificate only with TLS.\<close>

lemma new_client_kwargs:
  "dict_get (mc_kwargs (new_client st host)) ''tls'' = Some (MFlag (or_tls st))"
  "dict_get (mc_kwargs (new_client st host)) ''password'' = (if or_password st \<noteq> [] then Some (MText (or_password st)) else None)"
  "dict_get (mc_kwargs (new_client st host)) ''username'' = (if or_password st \<noteq> [] then Some (MText (or_username st)) else None)"
  "dict_get (mc_kwargs (new_client st host)) ''tlsCAFile''
     = (if or_tls st \<and> or_tls_ca_file st \<noteq> [] then Some (MText (or_tls_ca_file st)) else None)"
  by (simp_all add: new_client_def Let_def)


section \<open>Properties\<close>

text \<open>C35: the gateway gives the checker what the brokers store. A check through a gateway reads
  the main broker, the brokers that its subscriptions refer to, and each of these, through one
  reused connection per host. If all answer, there is one record per stored federated
  observation, in order, with verdict OK exactly if the last observation of the same entity and
  attribute at the main broker has an equal value; the main broker is never checked against
  itself, and no broker twice, however often it is referred to. If one of the federated brokers cannot be read, the whole check fails,
  also for those read before.\<close>

theorem gateway_check_reads_brokers:
  assumes "clients_ok gw" "st = gw_settings gw" "entities_at db st (or_host st) = Inr main"
    "distinct_values db (new_client st (or_host st)) (or_database st) ''csubs'' ''reference'' = Inr refs"
    "brokers = federated_hosts hostname (or_host st) [] refs"
  shows "distinct brokers \<and> or_host st \<notin> set brokers \<and>
    (\<exists>r gw'. gateway_check C cf now hostname db gw = (r, gw') \<and>
      ((\<forall>b \<in> set brokers. entities_at db st b = Inr (obs b)) \<longrightarrow> clients_ok gw' \<and>
         r = Inr (concat (map (\<lambda>b. map (\<lambda>ob. observed_record C cf now b ob
           (if last_agrees main ob then OK else TAMPERED)) (obs b)) brokers))) \<and>
      ((\<exists>b \<in> set brokers. \<exists>e. entities_at db st b = Inl e) \<longrightarrow> (\<exists>e. r = Inl e)))"
proof -
  have b: "distinct brokers" "or_host st \<notin> set brokers"
    using federated_hosts_ok [of "[]" "or_host st" hostname refs] assms(5) by simp_all
  obtain r gw' where r: "gateway_check C cf now hostname db gw = (r, gw')" by fastforce
  show ?thesis
    using b r gateway_check_ok [OF assms(1-5), of obs C cf now] gateway_check_error [OF assms(1-5), of C cf now]
    unfolding check_verdict_eq by auto
qed

definition orion_demo :: orion_settings where
  "orion_demo = \<lparr>or_host = ''m'', or_port = 27017, or_username = ''helix'', or_password = [], or_database = ''orion'',
     or_tls = False, or_tls_ca_file = [], or_poll_interval = 5, or_use_change_streams = False\<rparr>"

definition entity_doc :: "int \<Rightarrow> json" where
  "entity_doc v = JObj [(''_id'', JObj [(''id'', JStr ''urn:s1'')]), (''attrs'', JObj [(''open'', JInt v)])]"

definition mongo_demo :: mongo where
  \<comment> \<open>two brokers that disagree about an attribute; two subscriptions refer to the federated one\<close>
  "mongo_demo = \<lparr>find_docs = (\<lambda>c _ _. Inr [entity_doc (if mc_host c = ''m'' then 1 else 2)]),
     distinct_values = (\<lambda>_ _ _ _. Inr [''f'', ''m'', ''f''])\<rparr>"

lemma demo_gateway:
  "orion_demo = gw_settings (make_gateway orion_demo)"
  "entities_at mongo_demo orion_demo (or_host orion_demo) = Inr [demo_obs (JInt 1) ''m'']"
  "distinct_values mongo_demo (new_client orion_demo (or_host orion_demo)) (or_database orion_demo) ''csubs'' ''reference''
     = Inr [''f'', ''m'', ''f'']"
  "[''f''] = federated_hosts Some (or_host orion_demo) [] [''f'', ''m'', ''f'']"
  "entities_at mongo_demo orion_demo ''f'' = Inr [demo_obs (JInt 2) ''f'']"
proof -
  have d: "find_docs mongo_demo (new_client orion_demo h) (or_database orion_demo) ''entities'' = Inr [entity_doc (if h = ''m'' then 1 else 2)]" for h
    by (simp add: mongo_demo_def new_client_def Let_def)
  have e: "observations h [entity_doc v] = Inr [demo_obs (JInt v) h]" for h v
    by (simp add: observations_def doc_observations_def doc_entity_id_def entity_doc_def json_get_def or_empty_def demo_obs_def)
  show "entities_at mongo_demo orion_demo (or_host orion_demo) = Inr [demo_obs (JInt 1) ''m'']"
    using d [of "''m''"] e [of "''m''" 1] by (simp add: entities_at_def orion_demo_def)
  show "entities_at mongo_demo orion_demo ''f'' = Inr [demo_obs (JInt 2) ''f'']"
    using d [of "''f''"] e [of "''f''" 2] by (simp add: entities_at_def)
qed (simp_all add: orion_demo_def host_from_reference_def mongo_demo_def make_gateway_def)

theorem gateway_check_reads_brokers_witness:
  "\<exists>rs gw'. gateway_check demo_crypto (make_confidentiality None False) 5 Some mongo_demo (make_gateway orion_demo) = (Inr rs, gw') \<and>
     map r_verdict rs = [TAMPERED]"
proof -
  from gateway_check_reads_brokers [OF clients_ok_start(1) demo_gateway(1-4), where obs = "\<lambda>b. [demo_obs (JInt 2) b]"
      and C = demo_crypto and cf = "make_confidentiality None False" and now = 5] demo_gateway(5)
  show ?thesis by (auto simp: demo_obs_def observed_record_def obs_key_def)
qed

text \<open>The type of an entity is ignored. Orion keeps entities of different types apart that have the
  same id, the checker does not: of two brokers with identical contents, an entity id with two
  types and different values, one observation is reported as tampered.\<close>

definition typed_doc :: "string \<Rightarrow> int \<Rightarrow> json" where
  "typed_doc t v = JObj [(''_id'', JObj [(''id'', JStr ''urn:s1''), (''type'', JStr t)]), (''attrs'', JObj [(''open'', JInt v)])]"

definition mongo_typed :: mongo where
  "mongo_typed = \<lparr>find_docs = (\<lambda>_ _ _. Inr [typed_doc ''Door'' 1, typed_doc ''Window'' 2]),
     distinct_values = (\<lambda>_ _ _ _. Inr [''f''])\<rparr>"

theorem identical_brokers_flagged:
  "\<exists>rs gw'. gateway_check demo_crypto (make_confidentiality None False) 5 Some mongo_typed (make_gateway orion_demo) = (Inr rs, gw') \<and>
     map r_verdict rs = [TAMPERED, OK]"
proof -
  have "(case gateway_check demo_crypto (make_confidentiality None False) 5 Some mongo_typed (make_gateway orion_demo) of
      (Inr rs, _) \<Rightarrow> map r_verdict rs = [TAMPERED, OK] | _ \<Rightarrow> False)" by code_simp
  then show ?thesis by (auto split: prod.splits sum.splits)
qed

end
