(* ===== verification/Py_Float.thy ===== *)
theory Py_Float
  imports Complex_Main "HOL-Library.Log_Nat"
begin

text \<open>
  The arithmetic of Python's floats, which are IEEE doubles: the value of an operation is the
  exact result rounded to 53 significant bits, ties to even. A float is represented by its
  value, a rational number. Overflow and the subnormal range, which the code does not reach,
  are left out, and so are infinities and NaN.
\<close>

definition float_exponent :: "rat \<Rightarrow> int" where
  \<comment> \<open>of a positive number: the exponent of its leading bit\<close>
  "float_exponent x =
     (let (p, q) = quotient_of x; e = bitlen p - bitlen q - 1 in if 2 powi (e + 1) \<le> x then e + 1 else e)"

definition round_half_even :: "rat \<Rightarrow> int" where
  "round_half_even y =
     (let f = \<lfloor>y\<rfloor>; d = y - of_int f in
      if d < 1 / 2 then f else if 1 / 2 < d then f + 1 else if even f then f else f + 1)"

definition float_round :: "rat \<Rightarrow> rat" where
  "float_round x =
     (if x = 0 then 0
      else let ulp = 2 powi (float_exponent \<bar>x\<bar> - 52) in of_int (round_half_even (x / ulp)) * ulp)"

definition float_eps :: rat where
  \<comment> \<open>the relative error of one operation\<close>
  "float_eps = 1 / 2 ^ 53"


section \<open>The error of an operation\<close>

lemma float_eps_pos [simp]: "0 < float_eps" "0 \<le> float_eps" "float_eps \<le> 1"
  by (simp_all add: float_eps_def)

lemma float_exponent_le:
  assumes "0 < x"
  shows "2 powi (float_exponent x) \<le> x"
proof -
  obtain p q where pq: "quotient_of x = (p, q)" by fastforce
  have x: "x = of_int p / of_int q" and q: "0 < q" using quotient_of_div [OF pq] quotient_of_denom_pos [OF pq] by simp_all
  then have p: "0 < p" using assms by (simp add: zero_less_divide_iff)
  have bp: "2 ^ nat (bitlen p - 1) \<le> p" and bq: "q < 2 ^ nat (bitlen q)" using bitlen_bounds p q by blast+
  have b: "0 \<le> bitlen q" "0 \<le> bitlen p - 1" using p by (simp_all add: bitlen_nonneg bitlen_alt_def)
  have "(2 :: rat) powi (bitlen p - bitlen q - 1) = 2 powi (bitlen p - 1) / 2 powi bitlen q"
    by (simp add: power_int_diff [symmetric] algebra_simps)
  also have "\<dots> = of_int (2 ^ nat (bitlen p - 1)) / of_int (2 ^ nat (bitlen q))"
    using b by (simp add: power_int_def)
  also have "\<dots> \<le> of_int p / of_int q"
    using bp bq q p by (intro frac_le) (simp_all only: of_int_le_iff of_int_0_less_iff of_int_0_le_iff less_imp_le)
  finally have "2 powi (bitlen p - bitlen q - 1) \<le> x" using x by simp
  then show ?thesis by (simp add: float_exponent_def pq Let_def)
qed

lemma round_half_even_error: "\<bar>of_int (round_half_even y) - y\<bar> \<le> 1 / 2"
proof -
  have "of_int \<lfloor>y\<rfloor> \<le> y" "y < of_int \<lfloor>y\<rfloor> + 1" by linarith+
  then show ?thesis by (auto simp: round_half_even_def Let_def)
qed

theorem float_round_error: "\<bar>float_round x - x\<bar> \<le> float_eps * \<bar>x\<bar>"
proof (cases "x = 0")
  case False
  define e where "e = float_exponent \<bar>x\<bar>"
  define ulp :: rat where "ulp = 2 powi (e - 52)"
  have ulp: "0 < ulp" by (simp add: ulp_def)
  have "float_round x - x = (of_int (round_half_even (x / ulp)) - x / ulp) * ulp"
    using False ulp by (simp add: float_round_def ulp_def e_def Let_def algebra_simps)
  then have "\<bar>float_round x - x\<bar> = \<bar>of_int (round_half_even (x / ulp)) - x / ulp\<bar> * ulp" using ulp by (simp add: abs_mult)
  also have "\<dots> \<le> 1 / 2 * ulp" using ulp round_half_even_error by (intro mult_right_mono) simp_all
  also have "1 / 2 * ulp = float_eps * 2 powi e"
    by (simp add: ulp_def float_eps_def power_int_diff)
  also have "\<dots> \<le> float_eps * \<bar>x\<bar>" using float_exponent_le [of "\<bar>x\<bar>"] False by (intro mult_left_mono) (simp_all add: e_def)
  finally show ?thesis .
qed (simp add: float_round_def)

lemma float_round_le: "0 \<le> x \<Longrightarrow> float_round x \<le> (1 + float_eps) * x"
  using float_round_error [of x] by (simp add: algebra_simps)

lemma float_round_nonneg: "0 \<le> x \<Longrightarrow> 0 \<le> float_round x"
proof -
  assume x: "0 \<le> x"
  have "float_eps * x \<le> 1 * x" using x by (intro mult_right_mono) simp_all
  then show ?thesis using float_round_error [of x] x by (simp add: algebra_simps)
qed

lemma float_exponent_nonneg:
  assumes "1 \<le> x"
  shows "0 \<le> float_exponent x"
proof -
  obtain p q where pq: "quotient_of x = (p, q)" by fastforce
  have "x = of_int p / of_int q" and q: "0 < q" using quotient_of_div [OF pq] quotient_of_denom_pos [OF pq] by simp_all
  then have "q \<le> p" using assms by (simp add: le_divide_eq)
  then have "bitlen q \<le> bitlen p" using q by (simp add: bitlen_def floorlog_mono nat_mono)
  then show ?thesis using assms by (cases "bitlen p = bitlen q") (auto simp: float_exponent_def pq Let_def)
qed

lemma float_round_ge_1:
  assumes "1 \<le> x"
  shows "1 \<le> float_round x"
proof -
  define e where "e = float_exponent x"
  define ulp :: rat where "ulp = 2 powi (e - 52)"
  have ulp: "0 < ulp" "2 ^ 52 * ulp = 2 powi e" by (simp_all add: ulp_def power_int_diff)
  have "2 powi e \<le> x" using float_exponent_le [of x] assms by (simp add: e_def)
  then have "of_int (2 ^ 52) \<le> x / ulp" using ulp by (simp add: le_divide_eq)
  then have "2 ^ 52 \<le> \<lfloor>x / ulp\<rfloor>" by (simp only: le_floor_iff)
  then have "2 ^ 52 \<le> round_half_even (x / ulp)" by (simp add: round_half_even_def Let_def)
  then have "(of_int (2 ^ 52) :: rat) \<le> of_int (round_half_even (x / ulp))" by (simp only: of_int_le_iff)
  then have "2 ^ 52 * ulp \<le> of_int (round_half_even (x / ulp)) * ulp" using ulp(1) by (intro mult_right_mono) simp_all
  moreover have "float_round x = of_int (round_half_even (x / ulp)) * ulp"
    using assms by (simp add: float_round_def ulp_def e_def Let_def)
  moreover have "(2 :: rat) powi 0 \<le> 2 powi e"
    using float_exponent_nonneg [OF assms] by (intro power_int_increasing) (simp_all add: e_def)
  ultimately show ?thesis using ulp(2) by simp
qed

lemma float_round_0 [simp]: "float_round 0 = 0"
  by (simp add: float_round_def)

lemma round_half_even_int [simp]: "round_half_even (of_int k) = k"
  by (simp add: round_half_even_def)

lemma float_round_int:
  assumes "\<bar>k\<bar> \<le> 2 ^ 53"
  shows "float_round (of_int k) = of_int k"
proof (cases "k = 0")
  case False
  define e where "e = float_exponent \<bar>of_int k\<bar>"
  have pos: "0 < \<bar>of_int k :: rat\<bar>" using False by simp
  have e: "2 powi e \<le> (of_int \<bar>k\<bar> :: rat)" "0 \<le> e"
    using float_exponent_le [OF pos] float_exponent_nonneg [of "\<bar>of_int k\<bar>"] False by (simp_all add: e_def of_int_abs [symmetric] del: of_int_abs)
  define n where "n = nat e"
  have n: "e = int n" using e(2) by (simp add: n_def)
  have le: "2 ^ n \<le> \<bar>k\<bar>"
  proof -
    have "(of_int (2 ^ n) :: rat) \<le> of_int \<bar>k\<bar>" using e(1) by (simp add: n)
    then show ?thesis by (simp only: of_int_le_iff)
  qed
  then have "(2 :: int) ^ n \<le> 2 ^ 53" using assms by linarith
  then have n53: "n \<le> 53" by (simp only: power_increasing_iff)
  have "\<exists>q. (of_int k :: rat) / 2 powi (e - 52) = of_int q"
  proof (cases "n \<le> 52")
    case True
    have "e - 52 = - int (52 - n)" using True n by (simp add: of_nat_diff)
    then have "(2 :: rat) powi (e - 52) = inverse (2 ^ (52 - n))" by (simp only: power_int_minus power_int_of_nat)
    then show ?thesis by (intro exI [of _ "k * 2 ^ (52 - n)"]) (simp add: field_simps)
  next
    case False
    then have "n = 53" using n53 by simp
    then have "\<bar>k\<bar> = 2 ^ 53" using le assms by simp
    then have "k = 2 * 2 ^ 52 \<or> k = 2 * - (2 ^ 52)" by (auto simp: abs_if split: if_splits)
    then show ?thesis using \<open>n = 53\<close> n by (auto intro: exI [of _ "2 ^ 52"] exI [of _ "- (2 ^ 52)"])
  qed
  then obtain q where q: "(of_int k :: rat) / 2 powi (e - 52) = of_int q" by blast
  have "float_round (of_int k) = of_int (round_half_even (of_int k / 2 powi (e - 52))) * 2 powi (e - 52)"
    using False by (simp add: float_round_def e_def Let_def)
  also have "\<dots> = of_int k" unfolding q round_half_even_int by (simp add: q [symmetric])
  finally show ?thesis .
qed simp

lemma float_round_large:
  assumes "2 ^ 53 < k"
  shows "2 ^ 53 - 1 < float_round (of_int k)"
proof -
  have k: "(2 ^ 53 + 1 :: rat) \<le> of_int k"
  proof -
    have "(of_int (2 ^ 53 + 1) :: rat) \<le> of_int k" using assms by (simp only: of_int_le_iff)
    then show ?thesis by simp
  qed
  then have "0 \<le> (of_int k :: rat)" by (rule order_trans [rotated]) simp
  then have "(1 - float_eps) * of_int k \<le> float_round (of_int k)"
    using float_round_error [of "of_int k"] by (simp add: algebra_simps)
  moreover have "(1 - float_eps) * (2 ^ 53 + 1) \<le> (1 - float_eps) * of_int k" using k by (intro mult_left_mono) simp_all
  moreover have "2 ^ 53 - 1 < (1 - float_eps) * (2 ^ 53 + 1)" by (simp add: float_eps_def)
  ultimately show ?thesis by linarith
qed

end
