(* ===== verification/Rate_Limit.thy ===== *)
theory Rate_Limit
  imports Helix_Prelude Py_Float
begin

text \<open>
  \<open>network/ratelimit.py\<close>: the token bucket per source, in the arithmetic of Python's floats:
  every operation rounds (\<open>float_round\<close>). The clock is \<open>time.monotonic\<close>: the time of each call
  is an argument, and the statements about sequences of calls assume that it never goes back.

  A locale \<open>metered\<close> states what a credit account promises when each call may gain a little by
  rounding, and the bound on what passes in a window of time is proved once from it; the
  limiter is one instance and the guard of the HTTP server another.
\<close>

section \<open>The limiter\<close>

record rate_limiter =
  rl_rate :: rat
  rl_burst :: int
  rl_buckets :: "(string, rat \<times> rat) dict"   \<comment> \<open>key to (tokens, time)\<close>

definition make_rate_limiter :: "rat \<Rightarrow> int \<Rightarrow> rate_limiter" where
  "make_rate_limiter rate burst = \<lparr>rl_rate = rate, rl_burst = max 1 burst, rl_buckets = []\<rparr>"

definition rl_enabled :: "rate_limiter \<Rightarrow> bool" where
  "rl_enabled L = (rl_rate L > 0)"

definition allow :: "rat \<Rightarrow> string \<Rightarrow> rate_limiter \<Rightarrow> bool \<times> rate_limiter" where
  "allow now key L =
     (if \<not> rl_enabled L then (True, L)
      else
        let (tokens0, ts) = (case dict_get (rl_buckets L) key of None \<Rightarrow> (float_round (of_int (rl_burst L)), now) | Some p \<Rightarrow> p);
            tokens = min (of_int (rl_burst L)) (float_round (tokens0 + float_round (float_round (now - ts) * rl_rate L)))
        in if tokens < 1 then (False, L\<lparr>rl_buckets := dict_set key (tokens, now) (rl_buckets L)\<rparr>)
           else (True, L\<lparr>rl_buckets := dict_set key (float_round (float_round tokens - 1), now) (rl_buckets L)\<rparr>))"


section \<open>Credit accounts\<close>

fun decisions :: "('i \<Rightarrow> 's \<Rightarrow> bool \<times> 's) \<Rightarrow> 's \<Rightarrow> 'i list \<Rightarrow> bool list \<times> 's" where
  \<comment> \<open>the results of successive calls, and the state they leave\<close>
  "decisions step s [] = ([], s)"
| "decisions step s (i # is) =
     (let (b, s') = step i s; (bs, s'') = decisions step s' is in (b # bs, s''))"

definition admitted :: "('i \<Rightarrow> bool) \<Rightarrow> 'i list \<Rightarrow> bool list \<Rightarrow> nat" where
  "admitted mine is bs = length (filter (\<lambda>(i, b). mine i \<and> b) (zip is bs))"

lemma admitted_simps [simp]:
  "admitted mine [] bs = 0"
  "admitted mine (i # is) (b # bs) = (if mine i \<and> b then 1 else 0) + admitted mine is bs"
  by (simp_all add: admitted_def)

lemma decisions_append:
  "decisions step s (is @ js) =
     (let (bs, s') = decisions step s is; (cs, s'') = decisions step s' js in (bs @ cs, s''))"
  by (induction "is" arbitrary: s) (simp_all add: Let_def split: prod.splits)

lemma decisions_length: "length (fst (decisions step s is)) = length is"
  by (induction "is" arbitrary: s) (simp_all add: Let_def split: prod.splits, metis fst_conv)

locale metered =
  fixes step :: "'i \<Rightarrow> 's \<Rightarrow> bool \<times> 's"     \<comment> \<open>one call\<close>
    and time :: "'i \<Rightarrow> rat"
    and mine :: "'i \<Rightarrow> bool"                \<comment> \<open>the calls charged to the account\<close>
    and credit :: "rat \<Rightarrow> 's \<Rightarrow> rat"        \<comment> \<open>what the account holds at a time\<close>
    and valid :: "rat \<Rightarrow> 's \<Rightarrow> bool"        \<comment> \<open>the states a run can be in at a time\<close>
    and rate cap slack :: rat
  assumes valid_later: "valid t s \<Longrightarrow> t \<le> t' \<Longrightarrow> valid t' s"
    and valid_step: "valid (time i) s \<Longrightarrow> valid (time i) (snd (step i s))"
    and credit_range: "valid t s \<Longrightarrow> 0 \<le> credit t s \<and> credit t s \<le> cap"
    and credit_later: "valid t s \<Longrightarrow> t \<le> t' \<Longrightarrow> credit t' s \<le> credit t s + rate * (t' - t)"
    and credit_step: "valid (time i) s \<Longrightarrow>
      credit (time i) (snd (step i s)) \<le> credit (time i) s - (if mine i \<and> fst (step i s) then 1 else 0) +
        (if mine i then slack else 0)"
begin

lemma paid:
  assumes "valid t s" "sorted (t # map time is)"
  shows "of_nat (admitted mine is (fst (decisions step s is))) + credit (last (t # map time is)) (snd (decisions step s is))
           \<le> credit t s + rate * (last (t # map time is) - t) + slack * of_nat (length (filter mine is)) \<and>
         valid (last (t # map time is)) (snd (decisions step s is))"
  using assms
proof (induction "is" arbitrary: t s)
  case Nil
  then show ?case by simp
next
  case (Cons i "is")
  obtain b s' where st: "step i s = (b, s')" by fastforce
  have v: "valid (time i) s" using Cons.prems valid_later [of t s "time i"] by simp
  have "sorted (time i # map time is)" using Cons.prems by simp
  note IH = Cons.IH [OF valid_step [OF v] this]
  have "credit (time i) s \<le> credit t s + rate * (time i - t)" using Cons.prems credit_later by simp
  with IH credit_step [OF v] st show ?case
    by (auto simp: Let_def algebra_simps split: prod.splits)
qed

theorem window:
  assumes "valid t s" "sorted (t # map time is)"
  shows "of_nat (admitted mine is (fst (decisions step s is))) \<le>
    cap + rate * (last (t # map time is) - t) + slack * of_nat (length (filter mine is))"
  using paid [OF assms] credit_range [OF assms(1)]
    credit_range [of "last (t # map time is)" "snd (decisions step s is)"] by linarith

lemma valid_decisions:
  assumes "valid t s" "sorted (t # map time is)"
  shows "valid (last (t # map time is)) (snd (decisions step s is))"
  using paid [OF assms] by simp

end


section \<open>The limiter is such an account\<close>

definition bucket_of :: "string \<Rightarrow> rat \<Rightarrow> rate_limiter \<Rightarrow> rat \<times> rat" where
  "bucket_of key now L =
     (case dict_get (rl_buckets L) key of None \<Rightarrow> (float_round (of_int (rl_burst L)), now) | Some p \<Rightarrow> p)"

definition level :: "string \<Rightarrow> rat \<Rightarrow> rate_limiter \<Rightarrow> rat" where
  \<comment> \<open>the tokens that the code computes for \<open>key\<close> at a time\<close>
  "level key now L = min (of_int (rl_burst L))
     (float_round (fst (bucket_of key now L) + float_round (float_round (now - snd (bucket_of key now L)) * rl_rate L)))"

definition float_gain :: rat where
  \<comment> \<open>how much two roundings can add\<close>
  "float_gain = (1 + float_eps)\<^sup>2"

definition credit :: "string \<Rightarrow> rat \<Rightarrow> rate_limiter \<Rightarrow> rat" where
  \<comment> \<open>the account behind it, in exact arithmetic\<close>
  "credit key now L = min (of_int (rl_burst L))
     (fst (bucket_of key now L) + (now - snd (bucket_of key now L)) * (float_gain * rl_rate L))"

definition limiter_ok :: "rat \<Rightarrow> int \<Rightarrow> rat \<Rightarrow> rate_limiter \<Rightarrow> bool" where
  "limiter_ok rate burst now L \<longleftrightarrow> 0 < rate \<and> 1 \<le> burst \<and> rl_rate L = rate \<and> rl_burst L = burst \<and>
     (\<forall>(key, tokens, ts) \<in> set (rl_buckets L). 0 \<le> tokens \<and> ts \<le> now)"

definition float_slack :: "int \<Rightarrow> rat" where
  \<comment> \<open>what one call can gain by rounding\<close>
  "float_slack burst = 4 * float_eps * of_int burst"

lemma float_gain_pos [simp]: "0 < float_gain" "0 \<le> float_gain"
proof -
  have "0 < 1 + float_eps" using float_eps_pos(1) by linarith
  then show "0 < float_gain" "0 \<le> float_gain" by (simp_all add: float_gain_def)
qed

lemma make_rate_limiter_ok: "0 < rate \<Longrightarrow> limiter_ok rate (max 1 burst) t (make_rate_limiter rate burst)"
  by (simp add: limiter_ok_def make_rate_limiter_def)

definition spent :: "rat \<Rightarrow> rat" where
  \<comment> \<open>what a call leaves of the tokens\<close>
  "spent tokens = (if 1 \<le> tokens then float_round (float_round tokens - 1) else tokens)"

lemma allow_enabled:
  "rl_enabled L \<Longrightarrow> allow now key L = (1 \<le> level key now L,
     L\<lparr>rl_buckets := dict_set key (spent (level key now L), now) (rl_buckets L)\<rparr>)"
  by (auto simp: allow_def level_def bucket_of_def spent_def Let_def split: prod.splits)

lemma limiter_ok_enabled: "limiter_ok rate burst now L \<Longrightarrow> rl_enabled L"
  by (simp add: limiter_ok_def rl_enabled_def)

lemma limiter_ok_bucket:
  "limiter_ok rate burst now L \<Longrightarrow> bucket_of key now L = (tokens, ts) \<Longrightarrow> 0 \<le> tokens \<and> ts \<le> now"
  by (auto simp: limiter_ok_def bucket_of_def float_round_nonneg split: option.splits dest!: map_of_SomeD)

lemma credit_range:
  assumes "limiter_ok rate burst now L"
  shows "0 \<le> credit key now L \<and> credit key now L \<le> of_int burst"
proof -
  obtain tokens ts where p: "bucket_of key now L = (tokens, ts)" by fastforce
  from limiter_ok_bucket [OF assms p] assms have "0 \<le> tokens" "0 \<le> (now - ts) * (float_gain * rl_rate L)"
    by (simp_all add: limiter_ok_def)
  moreover have "0 \<le> burst" "rl_burst L = burst" using assms by (simp_all add: limiter_ok_def)
  ultimately show ?thesis by (simp add: credit_def p)
qed

lemma credit_later:
  assumes "limiter_ok rate burst t L" "t \<le> t'"
  shows "credit key t' L \<le> credit key t L + float_gain * rate * (t' - t)"
proof -
  have d: "0 \<le> float_gain * rate * (t' - t)" using assms by (simp add: limiter_ok_def)
  have grow: "min c (x + z) \<le> min c x + z" if "0 \<le> z" for c x z :: rat using that by (auto simp: min_def)
  show ?thesis
  proof (cases "dict_get (rl_buckets L) key")
    case None
    then show ?thesis using d by (simp add: credit_def bucket_of_def)
  next
    case (Some p)
    have "fst p + (t' - snd p) * (float_gain * rate) = (fst p + (t - snd p) * (float_gain * rate)) + float_gain * rate * (t' - t)"
      by (simp add: algebra_simps)
    with grow [OF d, of "of_int (rl_burst L)" "fst p + (t - snd p) * (float_gain * rate)"] Some assms(1) show ?thesis
      by (simp add: credit_def bucket_of_def limiter_ok_def)
  qed
qed

lemma refill_le:
  assumes "0 \<le> t" "0 \<le> d" "0 \<le> r"
  shows "float_round (t + float_round (float_round d * r)) \<le> (1 + float_eps) * (t + d * (float_gain * r))"
    "0 \<le> float_round (t + float_round (float_round d * r))"
proof -
  have f: "0 \<le> float_round d" "float_round d \<le> (1 + float_eps) * d" using assms(2) by (simp_all add: float_round_nonneg float_round_le)
  have n: "0 \<le> float_round (float_round d * r)" using f(1) assms(3) by (simp add: float_round_nonneg)
  have "float_round (float_round d * r) \<le> (1 + float_eps) * (float_round d * r)" using f(1) assms(3) by (simp add: float_round_le)
  also have "\<dots> \<le> (1 + float_eps) * (((1 + float_eps) * d) * r)" using f(2) assms(3) by (intro mult_left_mono mult_right_mono) simp_all
  also have "\<dots> = d * (float_gain * r)" by (simp add: float_gain_def power2_eq_square algebra_simps)
  finally have "t + float_round (float_round d * r) \<le> t + d * (float_gain * r)" by simp
  then have "(1 + float_eps) * (t + float_round (float_round d * r)) \<le> (1 + float_eps) * (t + d * (float_gain * r))"
    by (intro mult_left_mono) simp_all
  then show "float_round (t + float_round (float_round d * r)) \<le> (1 + float_eps) * (t + d * (float_gain * r))"
    using float_round_le [of "t + float_round (float_round d * r)"] assms(1) n by linarith
  show "0 \<le> float_round (t + float_round (float_round d * r))" using assms(1) n by (simp add: float_round_nonneg)
qed

lemma level_credit:
  assumes "limiter_ok rate burst now L"
  shows "0 \<le> level key now L" "level key now L \<le> of_int burst" "level key now L \<le> credit key now L + float_eps * of_int burst"
proof -
  obtain t ts where p: "bucket_of key now L = (t, ts)" by fastforce
  have L: "0 < rate" "1 \<le> burst" "rl_rate L = rate" "rl_burst L = burst" using assms by (simp_all add: limiter_ok_def)
  note b = limiter_ok_bucket [OF assms p]
  note r = refill_le [of t "now - ts" rate]
  define z where "z = t + (now - ts) * (float_gain * rate)"
  have z: "0 \<le> z" using b L by (simp add: z_def)
  show "0 \<le> level key now L" "level key now L \<le> of_int burst" using r b L by (simp_all add: level_def p)
  have "min (of_int burst) ((1 + float_eps) * z) \<le> min (of_int burst) z + float_eps * of_int burst"
  proof (cases "z \<le> of_int burst")
    case True
    then have "float_eps * z \<le> float_eps * of_int burst" by (intro mult_left_mono) simp_all
    then have "(1 + float_eps) * z \<le> z + float_eps * of_int burst" by (simp add: algebra_simps)
    moreover have "min (of_int burst) z = z" using True by simp
    moreover have "min (of_int burst) ((1 + float_eps) * z) \<le> (1 + float_eps) * z" by simp
    ultimately show ?thesis by linarith
  next
    case False
    have "0 \<le> float_eps * of_int burst" using L by simp
    with False show ?thesis by simp
  qed
  moreover have "level key now L \<le> min (of_int burst) ((1 + float_eps) * z)"
    using r(1) b L by (simp add: level_def p z_def min.coboundedI2)
  moreover have "credit key now L = min (of_int burst) z" using L by (simp add: credit_def p z_def)
  ultimately show "level key now L \<le> credit key now L + float_eps * of_int burst" by linarith
qed

lemma spent_bounds:
  assumes "0 \<le> v" "v \<le> of_int burst"
  shows "0 \<le> spent v" "spent v \<le> v - (if 1 \<le> v then 1 else 0) + 3 * float_eps * of_int burst"
proof -
  have b: "0 \<le> float_eps * of_int burst" using assms by simp
  show "0 \<le> spent v" using assms by (simp add: spent_def float_round_nonneg float_round_ge_1)
  show "spent v \<le> v - (if 1 \<le> v then 1 else 0) + 3 * float_eps * of_int burst"
  proof (cases "1 \<le> v")
    case True
    have e: "float_eps * v \<le> float_eps * of_int burst" using assms by (intro mult_left_mono) simp_all
    have "float_eps * (float_eps * v) \<le> 1 * (float_eps * v)" using assms by (intro mult_right_mono) simp_all
    with e have ee: "float_eps * (float_eps * v) \<le> float_eps * of_int burst" by simp
    have "float_round (float_round v - 1) \<le> (1 + float_eps) * (float_round v - 1)"
      using True by (simp add: float_round_le float_round_ge_1)
    also have "\<dots> \<le> (1 + float_eps) * ((1 + float_eps) * v - 1)"
      using float_round_le [of v] assms by (intro mult_left_mono) simp_all
    also have "\<dots> = v - 1 - float_eps + 2 * (float_eps * v) + float_eps * (float_eps * v)" by (simp add: algebra_simps)
    also have "\<dots> \<le> v - 1 + 3 * (float_eps * of_int burst)" using e ee float_eps_pos(2) by linarith
    finally show ?thesis using True by (simp add: spent_def)
  qed (use b in \<open>simp add: spent_def\<close>)
qed

lemma allow_ok:
  assumes "limiter_ok rate burst now L"
  shows "limiter_ok rate burst now (snd (allow now key L))"
proof -
  let ?p = "(spent (level key now L), now)"
  have "0 \<le> fst ?p" using spent_bounds(1) [OF level_credit(1,2) [OF assms]] by simp
  then have "\<forall>(k, tokens, ts) \<in> insert (key, ?p) (set (rl_buckets L)). 0 \<le> tokens \<and> ts \<le> now"
    using assms by (simp add: limiter_ok_def)
  then have "\<forall>(k, tokens, ts) \<in> set (dict_set key ?p (rl_buckets L)). 0 \<le> tokens \<and> ts \<le> now"
    using set_dict_set_subset [of key ?p "rl_buckets L"] by blast
  then show ?thesis unfolding allow_enabled [OF limiter_ok_enabled [OF assms]] using assms by (simp add: limiter_ok_def)
qed

lemma credit_set:
  "credit k now (L\<lparr>rl_buckets := dict_set key (v, now) (rl_buckets L)\<rparr>)
     = (if k = key then min (of_int (rl_burst L)) v else credit k now L)"
  by (simp add: credit_def bucket_of_def split: option.splits)

lemma credit_allow:
  assumes "limiter_ok rate burst now L"
  shows "credit k now (snd (allow now key L))
    \<le> credit k now L - (if k = key \<and> fst (allow now key L) then 1 else 0) + (if k = key then float_slack burst else 0)"
proof (cases "k = key")
  case True
  have "min (of_int burst) (spent (level key now L)) \<le> credit key now L - (if 1 \<le> level key now L then 1 else 0) + float_slack burst"
    using level_credit(3) [OF assms, of key] spent_bounds(2) [OF level_credit(1,2) [OF assms], of key] unfolding float_slack_def
    by linarith
  then show ?thesis
    using True assms unfolding allow_enabled [OF limiter_ok_enabled [OF assms]] snd_conv fst_conv credit_set
    by (simp add: limiter_ok_def)
qed (simp add: allow_enabled [OF limiter_ok_enabled [OF assms]] credit_set)

abbreviation ask :: "rat \<times> string \<Rightarrow> rate_limiter \<Rightarrow> bool \<times> rate_limiter" where
  "ask i L \<equiv> allow (fst i) (snd i) L"

interpretation bucket: metered ask fst "\<lambda>i. snd i = k" "credit k" "limiter_ok r b" "float_gain * r" "of_int b" "float_slack b" for k r b
proof
  show "limiter_ok r b t L \<Longrightarrow> t \<le> t' \<Longrightarrow> limiter_ok r b t' L" for t t' L
    by (force simp: limiter_ok_def)
  show "limiter_ok r b (fst i) L \<Longrightarrow> credit k (fst i) (snd (ask i L))
      \<le> credit k (fst i) L - (if snd i = k \<and> fst (ask i L) then 1 else 0) + (if snd i = k then float_slack b else 0)" for i L
    using credit_allow [of r b "fst i" L k "snd i"] by (auto split: if_splits)
qed (auto simp: allow_ok credit_range credit_later)


section \<open>Clients do not affect each other\<close>

definition same_bucket :: "string \<Rightarrow> rate_limiter \<Rightarrow> rate_limiter \<Rightarrow> bool" where
  "same_bucket k L M \<longleftrightarrow> rl_rate L = rl_rate M \<and> rl_burst L = rl_burst M \<and>
     dict_get (rl_buckets L) k = dict_get (rl_buckets M) k"

lemma same_bucket_refl [simp]: "same_bucket k L L"
  by (simp add: same_bucket_def)

lemma same_bucket_level: "same_bucket k L M \<Longrightarrow> level k now L = level k now M"
  by (auto simp: same_bucket_def level_def bucket_of_def split: option.splits)

lemma allow_disabled: "\<not> rl_enabled L \<Longrightarrow> allow now k L = (True, L)"
  by (simp add: allow_def)

lemma same_bucket_allow:
  assumes "same_bucket k L M"
  shows "fst (allow now k L) = fst (allow now k M)" "same_bucket k (snd (allow now k L)) (snd (allow now k M))"
    and "j \<noteq> k \<Longrightarrow> same_bucket k (snd (allow now j L)) M"
proof -
  have e: "rl_enabled L = rl_enabled M" using assms by (simp add: same_bucket_def rl_enabled_def)
  note l = same_bucket_level [OF assms, of now]
  show "fst (allow now k L) = fst (allow now k M)" "same_bucket k (snd (allow now k L)) (snd (allow now k M))"
    using assms e l by (cases "rl_enabled M"; simp add: allow_enabled allow_disabled same_bucket_def)+
  show "j \<noteq> k \<Longrightarrow> same_bucket k (snd (allow now j L)) M"
    using assms by (cases "rl_enabled L"; simp add: allow_enabled allow_disabled same_bucket_def)
qed

lemma decisions_Cons:
  "fst (decisions step s (i # is)) = fst (step i s) # fst (decisions step (snd (step i s)) is)"
  "snd (decisions step s (i # is)) = snd (decisions step (snd (step i s)) is)"
  by (simp_all add: Let_def split: prod.splits)

lemma isolated:
  "same_bucket k L M \<Longrightarrow>
     map snd (filter (\<lambda>(i, b). snd i = k) (zip reqs (fst (decisions ask L reqs))))
       = fst (decisions ask M (filter (\<lambda>i. snd i = k) reqs))"
proof (induction reqs arbitrary: L M)
  case (Cons i reqs)
  note s = same_bucket_allow [OF Cons.prems, where now = "fst i"]
  show ?case
  proof (cases "snd i = k")
    case True
    then show ?thesis using Cons.IH [OF s(2)] s(1) by (simp add: decisions_Cons del: decisions.simps)
  next
    case False
    then show ?thesis using Cons.IH [OF s(3) [of "snd i"]] by (simp add: decisions_Cons del: decisions.simps)
  qed
qed simp


section \<open>Properties\<close>

text \<open>The rate limiter limits. Take a limiter with a positive rate, and any sequence of calls
  in the order of time. In every window of it, at most \<open>burst + rate * (length of the window)\<close>
  calls with the same key are allowed, up to the rounding of floats: the rate counts with a factor
  of two roundings, and each of these calls can gain \<open>4 * burst\<close> roundings. What came before and
  what other keys do has no influence.\<close>

theorem rate_bounded:
  assumes "0 < rate" "sorted (map fst (before @ window))" "window \<noteq> []"
    "decisions ask (make_rate_limiter rate burst) before = (bs, L)" "decisions ask L window = (cs, L')"
  shows "of_nat (admitted (\<lambda>i. snd i = key) window cs)
    \<le> of_int (max 1 burst) + (1 + float_eps)\<^sup>2 * rate * (fst (last window) - fst (hd window)) +
        4 * float_eps * of_int (max 1 burst) * of_nat (length (filter (\<lambda>i. snd i = key) window))"
proof -
  define t where "t = fst (hd (before @ window))"
  have s: "sorted (t # map fst before)" using assms(2) by (cases before) (auto simp: t_def sorted_append)
  note ok = bucket.valid_decisions [OF make_rate_limiter_ok [OF assms(1), of burst t] s]
  have "last (t # map fst before) \<le> fst (hd window)"
    using assms(2,3) by (cases window) (auto simp: sorted_append last_map t_def)
  from bucket.valid_later [OF ok this] have "limiter_ok rate (max 1 burst) (fst (hd window)) L" by (simp add: assms(4))
  moreover have "sorted (fst (hd window) # map fst window)"
    using assms(2,3) by (cases window) (auto simp: sorted_append)
  ultimately show ?thesis
    using bucket.window [of rate "max 1 burst" "fst (hd window)" L window key] assms(3,5)
    by (simp add: last_map float_gain_def float_slack_def)
qed

text \<open>Rounding is not negligible in the statement: with a burst of one and three tokens per second,
  two calls a rounded third of a second apart are both allowed, although the exact bound is below two.\<close>

theorem exact_bound_fails:
  "fst (decisions ask (make_rate_limiter 3 1) [(0, ''a''), (float_round (1 / 3), ''a'')]) = [True, True] \<and>
   1 + 3 * (float_round (1 / 3) - 0) < (2 :: rat)"
  by code_simp

end
