(* ===== verification/Server.thy ===== *)
theory Server
  imports Rate_Limit Discovery Collectors
begin

text \<open>
  \<open>network/server.py\<close>: the HTTP interface of a node. A request that FastAPI has routed and
  parsed is a value of type \<open>route\<close>; the guard and the handlers are functions of the
  server state. What FastAPI does with an endpoint's parameters is as documented: a body that
  is no JSON object is answered with 422, an \<open>HTTPException\<close> with its status, any other
  exception with 500. The responses of \<open>/ui\<close> and \<open>/metrics\<close> and the access log are left out.

  \<open>Untyped\<close> stands for a payload with a field of a type that the annotations exclude; Python
  would go on with it, and the model says nothing.
\<close>

section \<open>State, requests and responses\<close>

record server =
  sv_node :: node
  sv_node_id :: string
  sv_registry :: registry          \<comment> \<open>\<open>node.peer_registry\<close>\<close>
  sv_limiter :: rate_limiter
  sv_accepted :: "string list"
  sv_max_body :: int
  sv_debug :: bool
  sv_conf :: confidentiality

definition create_app ::
    "node \<Rightarrow> string \<Rightarrow> registry \<Rightarrow> bool \<Rightarrow> string \<Rightarrow> rat \<Rightarrow> int \<Rightarrow> int \<Rightarrow> confidentiality \<Rightarrow> server" where
  "create_app n node_id R debug token rps burst max_body cf =
     \<lparr>sv_node = n, sv_node_id = node_id, sv_registry = R, sv_limiter = make_rate_limiter rps burst,
      sv_accepted = accepted_tokens token, sv_max_body = max_body, sv_debug = debug, sv_conf = cf\<rparr>"

datatype route =
    PostConsensus json
  | PostMempool json
  | PostMembership json
  | PostBlock json
  | GetPeers
  | PostPeers json
  | GetBlock int
  | GetProof int int
  | GetChain
  | GetHealth
  | AdminSubmit int string
  | AdminValidator json

record request =
  rq_route :: route
  rq_client :: "string option"
  rq_time :: rat
  rq_length :: "string option"          \<comment> \<open>the header \<open>content-length\<close>\<close>
  rq_authorization :: "string option"   \<comment> \<open>the header \<open>authorization\<close>\<close>

datatype response =
    Reply json                \<comment> \<open>status 200\<close>
  | Refused int               \<comment> \<open>another status\<close>
  | InternalError             \<comment> \<open>status 500, an exception escaped\<close>
  | Untyped

fun route_method :: "route \<Rightarrow> string" where
  "route_method GetPeers = ''GET''"
| "route_method (GetBlock _) = ''GET''"
| "route_method (GetProof _ _) = ''GET''"
| "route_method GetChain = ''GET''"
| "route_method GetHealth = ''GET''"
| "route_method _ = ''POST''"

fun route_path :: "route \<Rightarrow> string" where
  "route_path (PostConsensus _) = ''/consensus''"
| "route_path (PostMempool _) = ''/mempool''"
| "route_path (PostMembership _) = ''/membership''"
| "route_path (PostBlock _) = ''/block''"
| "route_path GetPeers = ''/peers''"
| "route_path (PostPeers _) = ''/peers''"
| "route_path (GetBlock i) = ''/blocks/'' @ show_int i"
| "route_path (GetProof h i) = ''/proof/'' @ show_int h @ ''/'' @ show_int i"
| "route_path GetChain = ''/chain''"
| "route_path GetHealth = ''/health''"
| "route_path (AdminSubmit _ _) = ''/admin/submit''"
| "route_path (AdminValidator _) = ''/admin/validator''"


section \<open>The guard\<close>

definition PROTECTED_PREFIXES :: "string list" where
  "PROTECTED_PREFIXES = [''/consensus'', ''/mempool'', ''/membership'', ''/block'', ''/peers'', ''/admin'']"

definition starts_with_any :: "string list \<Rightarrow> string \<Rightarrow> bool" where
  "starts_with_any ps s = list_ex (\<lambda>p. take (length p) s = p) ps"

definition client_of :: "request \<Rightarrow> string" where
  "client_of rq = (case rq_client rq of None \<Rightarrow> ''unknown'' | Some h \<Rightarrow> h)"

definition guarded :: "request \<Rightarrow> bool" where
  "guarded rq = (route_method (rq_route rq) = ''POST'' \<and> starts_with_any PROTECTED_PREFIXES (route_path (rq_route rq)))"

definition guard :: "request \<Rightarrow> server \<Rightarrow> response option \<times> server" where
  \<comment> \<open>\<open>None\<close>: the request goes on to its endpoint\<close>
  "guard rq s =
     (if guarded rq
      then case (case rq_length rq of None \<Rightarrow> Inr False | Some l \<Rightarrow> bindr (int_of_str l) (\<lambda>n. Inr (n > sv_max_body s))) of
          Inl _ \<Rightarrow> (Some InternalError, s)
        | Inr True \<Rightarrow> (Some (Refused 413), s)
        | Inr False \<Rightarrow>
            let (ok, L) = allow (rq_time rq) (client_of rq) (sv_limiter s); s' = s\<lparr>sv_limiter := L\<rparr>
            in if \<not> ok then (Some (Refused 429), s') else (None, s')
      else (None, s))"

definition is_ascii :: "string \<Rightarrow> bool" where
  "is_ascii t = list_all (\<lambda>c. (of_char c :: nat) < 128) t"

definition compare_digest :: "string \<Rightarrow> string \<Rightarrow> bool result" where
  \<comment> \<open>\<open>hmac.compare_digest\<close> of two texts\<close>
  "compare_digest a b = (if is_ascii a \<and> is_ascii b then Inr (a = b) else Inl TypeError)"

fun any_token :: "string \<Rightarrow> string list \<Rightarrow> bool result" where
  "any_token authorization [] = Inr False"
| "any_token authorization (t # ts) =
     bindr (compare_digest authorization (''Bearer '' @ t)) (\<lambda>same.
       if same then Inr True else any_token authorization ts)"

definition require_token :: "string list \<Rightarrow> string option \<Rightarrow> response option" where
  "require_token accepted authorization =
     (if accepted = [] then None
      else case any_token (case authorization of None \<Rightarrow> [] | Some a \<Rightarrow> a) accepted of
          Inl _ \<Rightarrow> Some InternalError
        | Inr True \<Rightarrow> None
        | Inr False \<Rightarrow> Some (Refused 401))"


section \<open>The endpoints\<close>

definition refused :: "py_error list \<Rightarrow> py_error \<Rightarrow> response" where
  \<comment> \<open>an \<open>except\<close> clause that answers 400, for the given classes\<close>
  "refused caught e = (if e = IllTyped then Untyped else if e \<in> set caught then Refused 400 else InternalError)"

definition after :: "(node \<Rightarrow> json) \<Rightarrow> server \<Rightarrow> outcome option \<Rightarrow> (response \<times> server) option" where
  \<comment> \<open>\<open>await node.method(...)\<close>, then the reply\<close>
  "after reply s out =
     (case out of
        None \<Rightarrow> None
      | Some (Some e, n) \<Rightarrow> Some (InternalError, s\<lparr>sv_node := n\<rparr>)
      | Some (None, n) \<Rightarrow> Some (Reply (reply n), s\<lparr>sv_node := n\<rparr>))"

definition status_accepted :: json where
  "status_accepted = JObj [(''status'', JStr ''accepted'')]"

definition consensus :: "json \<Rightarrow> server \<Rightarrow> (response \<times> server) option" where
  "consensus payload s =
     (case message_from_dict payload of
        Inl e \<Rightarrow> Some (refused [KeyError, ValueError] e, s)
      | Inr m \<Rightarrow>
          let (queued, n) = enqueue_inbound m (sv_node s); s' = s\<lparr>sv_node := n\<rparr>
          in if \<not> queued then Some (Refused 503, s') else Some (Reply status_accepted, s'))"

definition mempool :: "crypto \<Rightarrow> json \<Rightarrow> server \<Rightarrow> (response \<times> server) option" where
  "mempool C payload s =
     (case bindr (bindr (get_item payload ''records'') as_list) (mapr record_from_dict) of
        Inl e \<Rightarrow> Some (refused [KeyError, ValueError, TypeError] e, s)
      | Inr rs \<Rightarrow> after (\<lambda>_. status_accepted) s (receive_records C rs (sv_node s)))"

definition membership :: "crypto \<Rightarrow> json \<Rightarrow> server \<Rightarrow> (response \<times> server) option" where
  "membership C payload s =
     (case bindr (bindr (get_item payload ''changes'') as_list) (mapr change_from_dict) of
        Inl e \<Rightarrow> Some (refused [KeyError, ValueError, TypeError] e, s)
      | Inr cs \<Rightarrow> after (\<lambda>_. status_accepted) s (receive_validator_changes C cs (sv_node s)))"

definition push_block :: "crypto \<Rightarrow> json \<Rightarrow> server \<Rightarrow> (response \<times> server) option" where
  "push_block C payload s =
     (case block_from_dict payload of
        Inl e \<Rightarrow> Some (refused [KeyError, ValueError, TypeError] e, s)
      | Inr b \<Rightarrow> after (\<lambda>_. status_accepted) s (ingest_block C b (sv_node s)))"

definition get_peers :: "server \<Rightarrow> (response \<times> server) option" where
  "get_peers s = Some (Reply (JObj [(''peers'', JList (map JStr (specs (sv_registry s))))]), s)"

definition post_peers_endpoint :: "crypto \<Rightarrow> json \<Rightarrow> server \<Rightarrow> (response \<times> server) option" where
  "post_peers_endpoint C payload s =
     (case post_peers C payload (sv_registry s) of
        Inl e \<Rightarrow> Some (refused [KeyError, ValueError, TypeError] e, s)
      | Inr (added, R) \<Rightarrow> Some (Reply (JObj [(''added'', JInt added)]), s\<lparr>sv_registry := R\<rparr>))"

definition get_block :: "int \<Rightarrow> server \<Rightarrow> (response \<times> server) option" where
  "get_block index s =
     (case repo_get (n_repo (sv_node s)) index of
        Inl _ \<Rightarrow> Some (InternalError, s)
      | Inr None \<Rightarrow> Some (Refused 404, s)
      | Inr (Some b) \<Rightarrow> Some (Reply (block_to_dict b), s))"

definition proof_json :: "crypto \<Rightarrow> int \<Rightarrow> int \<Rightarrow> block \<Rightarrow> proof_step list \<Rightarrow> json" where
  "proof_json C height index b steps =
     JObj [(''height'', JInt height), (''index'', JInt index),
           (''merkle_root'', JStr (bh_merkle_root (header b))), (''block_hash'', JStr (block_hash C b)),
           (''record'', record_to_dict (records b ! nat index)),
           (''proof'', JList (map (\<lambda>st. JObj [(''sibling'', JStr (hex_of_bytes (sibling st))),
              (''right'', JBool (sibling_on_right st))]) steps))]"

definition inclusion_proof :: "crypto \<Rightarrow> int \<Rightarrow> int \<Rightarrow> server \<Rightarrow> (response \<times> server) option" where
  "inclusion_proof C height index s =
     (case repo_get (n_repo (sv_node s)) height of
        Inl _ \<Rightarrow> Some (InternalError, s)
      | Inr None \<Rightarrow> Some (Refused 404, s)
      | Inr (Some b) \<Rightarrow>
          if \<not> (0 \<le> index \<and> index < int (length (records b))) then Some (Refused 404, s)
          else case proof_for_record C b index of
              Inl _ \<Rightarrow> Some (InternalError, s)
            | Inr steps \<Rightarrow> Some (Reply (proof_json C height index b steps), s))"

definition chain :: "crypto \<Rightarrow> server \<Rightarrow> (response \<times> server) option" where
  "chain C s =
     (let n = sv_node s in
      case repo_latest (n_repo n) of
        Inl _ \<Rightarrow> Some (InternalError, s)
      | Inr latest \<Rightarrow>
          Some (Reply (JObj [(''node_id'', JStr (sv_node_id s)), (''height'', JInt (node_height n)),
            (''round'', JInt (node_round n)),
            (''latest_hash'', case latest of None \<Rightarrow> JNull | Some b \<Rightarrow> JStr (block_hash C b)),
            (''validators'', JInt (vs_size (n_active n))), (''quorum'', JInt (quorum (n_active n))),
            (''is_validator'', JBool (is_validator n)),
            (''validator_keys'', JList (map (JStr \<circ> public_to_hex) (vs_validators (n_active n))))]), s))"

definition health :: "server \<Rightarrow> (response \<times> server) option" where
  "health s = Some (Reply (JObj [(''status'', JStr ''ok'')]), s)"

definition demo_records :: "crypto \<Rightarrow> confidentiality \<Rightarrow> verdict \<Rightarrow> int \<Rightarrow> int \<Rightarrow> integrity_record list" where
  \<comment> \<open>the comprehension of \<open>admin_submit\<close>\<close>
  "demo_records C cf v ts how_many =
     map (\<lambda>i. \<lparr>entity_id = entity_ref C cf ((if v = TAMPERED then ''Tampered'' else ''Demo'') @ '':'' @ show_int ts @ '':'' @ show_int i),
               attribute = ''temperature'', value_hash = commit_value C cf (JInt (20 + i)),
               source_broker = (if v = TAMPERED then ''federated-broker'' else ''demo''), r_verdict = v,
               observed_at = ts, observer = [], r_signature = []\<rparr>) [0..how_many - 1]"

definition admin_submit :: "crypto \<Rightarrow> int \<Rightarrow> string \<Rightarrow> server \<Rightarrow> (response \<times> server) option" where
  "admin_submit C how_many verdict s =
     (case verdict_of (JStr verdict) of
        Inl _ \<Rightarrow> Some (Refused 400, s)
      | Inr v \<Rightarrow>
          let n = sv_node s; ts = n_now_ms n (n_clock_reads n); n1 = n\<lparr>n_clock_reads := n_clock_reads n + 1\<rparr>
          in after (\<lambda>m. JObj [(''submitted'', JInt how_many), (''verdict'', JStr (verdict_value v)), (''height'', JInt (node_height m))])
               s (submit_records C (demo_records C (sv_conf s) v ts how_many) n1))"

definition admin_validator :: "crypto \<Rightarrow> json \<Rightarrow> server \<Rightarrow> (response \<times> server) option" where
  "admin_validator C payload s =
     (case change_from_dict payload of
        Inl e \<Rightarrow> Some (refused [KeyError, ValueError] e, s)
      | Inr c \<Rightarrow> after (\<lambda>m. JObj [(''queued'', change_to_dict c), (''height'', JInt (node_height m))])
                   s (submit_validator_change C c (sv_node s)))"


section \<open>Serving a request\<close>

fun needs_token :: "route \<Rightarrow> bool" where
  \<comment> \<open>the endpoints with \<open>dependencies=auth\<close>\<close>
  "needs_token (GetBlock _) = False"
| "needs_token (GetProof _ _) = False"
| "needs_token GetChain = False"
| "needs_token GetHealth = False"
| "needs_token _ = True"

fun route_exists :: "server \<Rightarrow> route \<Rightarrow> bool" where
  "route_exists s (AdminSubmit _ _) = sv_debug s"
| "route_exists s (AdminValidator _) = sv_debug s"
| "route_exists s _ = True"

fun body_ok :: "route \<Rightarrow> bool" where
  \<comment> \<open>\<open>payload: dict[str, Any]\<close>\<close>
  "body_ok (PostConsensus j) = (case j of JObj _ \<Rightarrow> True | _ \<Rightarrow> False)"
| "body_ok (PostMempool j) = (case j of JObj _ \<Rightarrow> True | _ \<Rightarrow> False)"
| "body_ok (PostMembership j) = (case j of JObj _ \<Rightarrow> True | _ \<Rightarrow> False)"
| "body_ok (PostBlock j) = (case j of JObj _ \<Rightarrow> True | _ \<Rightarrow> False)"
| "body_ok (PostPeers j) = (case j of JObj _ \<Rightarrow> True | _ \<Rightarrow> False)"
| "body_ok (AdminValidator j) = (case j of JObj _ \<Rightarrow> True | _ \<Rightarrow> False)"
| "body_ok _ = True"

fun endpoint :: "crypto \<Rightarrow> route \<Rightarrow> server \<Rightarrow> (response \<times> server) option" where
  "endpoint C (PostConsensus j) s = consensus j s"
| "endpoint C (PostMempool j) s = mempool C j s"
| "endpoint C (PostMembership j) s = membership C j s"
| "endpoint C (PostBlock j) s = push_block C j s"
| "endpoint C GetPeers s = get_peers s"
| "endpoint C (PostPeers j) s = post_peers_endpoint C j s"
| "endpoint C (GetBlock i) s = get_block i s"
| "endpoint C (GetProof h i) s = inclusion_proof C h i s"
| "endpoint C GetChain s = chain C s"
| "endpoint C GetHealth s = health s"
| "endpoint C (AdminSubmit k v) s = admin_submit C k v s"
| "endpoint C (AdminValidator j) s = admin_validator C j s"

definition serve :: "crypto \<Rightarrow> request \<Rightarrow> server \<Rightarrow> (response \<times> server) option" where
  "serve C rq s =
     (case guard rq s of
        (Some r, s1) \<Rightarrow> Some (r, s1)
      | (None, s1) \<Rightarrow>
          if \<not> route_exists s1 (rq_route rq) then Some (Refused 404, s1)
          else case (if needs_token (rq_route rq) then require_token (sv_accepted s1) (rq_authorization rq) else None) of
              Some r \<Rightarrow> Some (r, s1)
            | None \<Rightarrow> if \<not> body_ok (rq_route rq) then Some (Refused 422, s1) else endpoint C (rq_route rq) s1)"


section \<open>The response at the client\<close>

definition http_of :: "response \<Rightarrow> http_response" where
  \<comment> \<open>what the response is for the transport of a peer\<close>
  "http_of r = (case r of
     Reply j \<Rightarrow> Response 200 (Inr j)
   | Refused st \<Rightarrow> Response st (Inl ValueError)
   | InternalError \<Rightarrow> Response 500 (Inl ValueError)
   | Untyped \<Rightarrow> HTTPError)"

end
