(* ===== verification/Console.thy ===== *)
theory Console
  imports Server
begin

text \<open>
  The proof check of the web console, \<open>static/index.html\<close>: it serializes the record of a reply
  itself, in JavaScript, and recomputes the Merkle root. The numbers of JavaScript are doubles:
  \<open>JSON.parse\<close> rounds an integer, and \<open>JSON.stringify\<close> prints the shortest digits that are read
  as the same double. Shown here: on integers below \<open>2 ^ 53\<close> in absolute value the console's
  serializer agrees with \<open>canonical_bytes\<close>; above it does not.
\<close>

section \<open>Definitions\<close>

primrec js_shortest :: "nat \<Rightarrow> int \<Rightarrow> int" where
  \<comment> \<open>the integer with most trailing zeros, at most \<open>z\<close>, that is read as the double \<open>v\<close>\<close>
  "js_shortest 0 v = v"
| "js_shortest (Suc z) v =
     (let s = round_half_even (of_int v / 10 ^ Suc z) * 10 ^ Suc z
      in if float_round (of_int s) = of_int v then s else js_shortest z v)"

definition js_number_text :: "int \<Rightarrow> string result" where
  \<comment> \<open>\<open>JSON.stringify\<close> of the number that \<open>JSON.parse\<close> reads for an integer; from \<open>10 ^ 21\<close> on it is
    printed with an exponent, which is left out\<close>
  "js_number_text i =
     (let v = \<lfloor>float_round (of_int \<bar>i\<bar>)\<rfloor>
      in if v < 10 ^ 21 then Inr (show_int (sgn i * js_shortest 20 v)) else Inl IllTyped)"

fun canon :: "json \<Rightarrow> string result" where
  \<comment> \<open>\<open>JSON.stringify\<close> escapes strings as \<open>json.dumps\<close> does; \<open>sort\<close> compares UTF-16 units, which for the
    ASCII keys of a record is the order of Python. No record holds a float.\<close>
  "canon JNull = Inr ''null''"
| "canon (JList xs) = bindr (mapr canon xs) (\<lambda>ts. Inr (CHR ''['' # join_comma ts @ '']''))"
| "canon (JObj kvs) =
     bindr (mapr (\<lambda>p. bindr (canon (snd p)) (\<lambda>t. Inr (fst p, t))) kvs) (\<lambda>ps.
       Inr (CHR ''{'' # join_comma (map (\<lambda>p. quote_str (fst p) @ CHR '':'' # snd p) (sort_key fst ps)) @ ''}''))"
| "canon (JBool b) = Inr (if b then ''true'' else ''false'')"
| "canon (JStr s) = Inr (quote_str s)"
| "canon (JInt i) = js_number_text i"
| "canon (JFloat t) = Inl IllTyped"

definition ui_step :: "json \<Rightarrow> proof_step result" where
  \<comment> \<open>\<open>hexToBytes\<close> on the hexadecimal text a server prints\<close>
  "ui_step j =
     bindr (bindr (get_item j ''sibling'') as_str) (\<lambda>h. bindr (bytes_fromhex h) (\<lambda>sib.
     bindr (get_item j ''right'') (\<lambda>r. Inr \<lparr>sibling = sib, sibling_on_right = truthy r\<rparr>)))"

definition ui_verify :: "crypto \<Rightarrow> json \<Rightarrow> bool result" where
  \<comment> \<open>\<open>verify\<close>: recompute the root from the reply of \<open>/proof\<close>\<close>
  "ui_verify C p =
     bindr (bindr (get_item p ''record'') canon) (\<lambda>leaf.
     bindr (bindr (bindr (get_item p ''proof'') as_list) (mapr ui_step)) (\<lambda>steps.
     bindr (bindr (get_item p ''merkle_root'') as_str) (\<lambda>root.
       let acc = foldl (proof_acc C) (hash_leaf C leaf) steps
       in Inr (hex_of_bytes acc = root))))"


section \<open>Agreement with Python\<close>

lemma js_shortest_safe:
  assumes "0 \<le> v" "v < 2 ^ 53"
  shows "js_shortest z v = v"
proof (induction z)
  case (Suc z)
  define s where "s = round_half_even (of_int v / 10 ^ Suc z) * 10 ^ Suc z"
  have "0 \<le> s"
  proof -
    have "0 \<le> \<lfloor>(of_int v :: rat) / 10 ^ Suc z\<rfloor>" using assms(1) by simp
    then have "0 \<le> round_half_even (of_int v / 10 ^ Suc z)" unfolding round_half_even_def Let_def by (auto split: if_splits)
    then show ?thesis by (simp add: s_def)
  qed
  have "s = v" if eq: "float_round (of_int s) = of_int v"
  proof (cases "s \<le> 2 ^ 53")
    case True
    then have "float_round (of_int s) = of_int s" using \<open>0 \<le> s\<close> by (intro float_round_int) simp
    then have "(of_int s :: rat) = of_int v" using eq by simp
    then show ?thesis by (simp only: of_int_eq_iff)
  next
    case False
    then have "2 ^ 53 - 1 < float_round (of_int s)" by (intro float_round_large) simp
    then have "(of_int (2 ^ 53 - 1) :: rat) < of_int v" using eq by simp
    then have "2 ^ 53 - 1 < v" by (simp only: of_int_less_iff)
    then show ?thesis using assms(2) by linarith
  qed
  then show ?case using Suc.IH by (auto simp: s_def [symmetric] Let_def simp del: power_Suc)
qed simp

lemma js_number_text_safe:
  assumes "\<bar>i\<bar> < 2 ^ 53"
  shows "js_number_text i = Inr (show_int i)"
proof -
  have f: "float_round (of_int \<bar>i\<bar>) = of_int \<bar>i\<bar>" using assms by (intro float_round_int) simp
  have "sgn i * js_shortest 20 \<bar>i\<bar> = i"
    using assms js_shortest_safe [of "\<bar>i\<bar>" 20] by (simp add: sgn_mult_abs)
  moreover have "\<bar>i\<bar> < 10 ^ 21" using assms by (rule less_trans) simp
  ultimately show ?thesis unfolding js_number_text_def Let_def f floor_of_int by simp
qed

fun js_safe :: "json \<Rightarrow> bool" where
  \<comment> \<open>no floats, and integers that doubles represent, with a distance of one to the next\<close>
  "js_safe (JInt i) = (\<bar>i\<bar> < 2 ^ 53)"
| "js_safe (JFloat t) = False"
| "js_safe (JList xs) = list_all js_safe xs"
| "js_safe (JObj kvs) = list_all (\<lambda>p. js_safe (snd p)) kvs"
| "js_safe v = True"

lemma sort_key_fst_map: "sort_key fst (map (\<lambda>p. (fst p, f (snd p))) kvs) = map (\<lambda>p. (fst p, f (snd p))) (sort_key fst kvs)"
proof (induction kvs)
  case (Cons q kvs)
  have "insort_key fst (fst q, f (snd q)) (map (\<lambda>p. (fst p, f (snd p))) ps) = map (\<lambda>p. (fst p, f (snd p))) (insort_key fst q ps)"
    for ps by (induction ps) simp_all
  then show ?case using Cons.IH by simp
qed simp

lemma mapr_Inr: "(\<And>x. x \<in> set xs \<Longrightarrow> f x = Inr (g x)) \<Longrightarrow> mapr f xs = Inr (map g xs)"
  by (induction xs) simp_all

lemma canon_obj:
  assumes "\<And>p. p \<in> set kvs \<Longrightarrow> canon (snd p) = Inr (canonical_bytes (g (snd p)))"
  shows "canon (JObj kvs) = Inr (canonical_bytes (JObj (map (\<lambda>p. (fst p, g (snd p))) kvs)))"
proof -
  have "mapr (\<lambda>p. bindr (canon (snd p)) (\<lambda>t. Inr (fst p, t))) kvs = Inr (map (\<lambda>p. (fst p, canonical_bytes (g (snd p)))) kvs)"
    using assms by (intro mapr_Inr) simp
  then show ?thesis
    using sort_key_fst_map [of "\<lambda>v. json_text (sort_keys (g v))" kvs] sort_key_fst_map [of "\<lambda>v. sort_keys (g v)" kvs]
    by (simp add: canonical_bytes_def comp_def)
qed

theorem canon_canonical: "js_safe j \<Longrightarrow> canon j = Inr (canonical_bytes j)"
proof (induction j rule: canon.induct)
  case (2 xs)
  then have "mapr canon xs = Inr (map canonical_bytes xs)" by (intro mapr_Inr) (simp add: list_all_iff)
  then show ?case by (simp add: canonical_bytes_def [abs_def] comp_def)
next
  case (3 kvs)
  then show ?case using canon_obj [of kvs "\<lambda>v. v"] by (simp add: list_all_iff)
qed (simp_all add: canonical_bytes_def js_number_text_safe)

lemma canon_record: "\<bar>observed_at r\<bar> < 2 ^ 53 \<Longrightarrow> canon (record_to_dict r) = Inr (canonical_bytes (record_to_dict r))"
  by (rule canon_canonical) (simp add: record_to_dict_def record_core_def)

text \<open>The console misreads larger times: of a record at \<open>2 ^ 53 + 1\<close> it hashes the text of the same
  record at \<open>2 ^ 53\<close>, which is no leaf of the block, and so rejects the proof.\<close>

theorem console_misreads_large_time:
  assumes "observed_at r = 9007199254740993"
  shows "canon (record_to_dict r) = Inr (record_canonical (r\<lparr>observed_at := 9007199254740992\<rparr>)) \<and>
    record_canonical (r\<lparr>observed_at := 9007199254740992\<rparr>) \<noteq> record_canonical r"
proof -
  have f: "float_round (of_int 9007199254740993) = of_int 9007199254740992" by code_simp
  have "js_shortest 20 9007199254740992 = 9007199254740992" by code_simp
  then have n: "js_number_text 9007199254740993 = Inr (show_int 9007199254740992)"
    using f unfolding js_number_text_def Let_def abs_numeral floor_of_int by simp
  define g where "g = (\<lambda>v. case v of JInt _ \<Rightarrow> JInt 9007199254740992 | _ \<Rightarrow> v)"
  have "canon (record_to_dict r) = Inr (canonical_bytes (record_to_dict (r\<lparr>observed_at := 9007199254740992\<rparr>)))"
    using canon_obj [of "record_core r @ [(''observer'', JStr (observer r)), (''signature'', JStr (r_signature r))]" g] n assms
    by (auto simp: record_to_dict_def record_core_def g_def canonical_bytes_def)
  moreover have "record_canonical (r\<lparr>observed_at := 9007199254740992\<rparr>) \<noteq> record_canonical r"
    using assms by (auto simp: record_canonical_eq_iff dest: arg_cong [of _ _ observed_at])
  ultimately show ?thesis by (simp add: record_canonical_def)
qed

end
