(* ===== verification/Server_Properties.thy ===== *)
theory Server_Properties
  imports Console Node_Properties "HOL-Library.Sublist"
begin

text \<open>
  Properties of the HTTP interface, and of two nodes that meet over it: authentication, the
  rate limit as a bound on what a client gets through, and that what one node serves or posts
  is what the other fetches or queues.
\<close>

section \<open>The guard and the token\<close>

lemma guard_frame: "guard rq s = (r, s') \<Longrightarrow>
    sv_node s' = sv_node s \<and> sv_registry s' = sv_registry s \<and> sv_accepted s' = sv_accepted s \<and> sv_debug s' = sv_debug s"
  by (auto simp: guard_def Let_def split: if_splits sum.splits bool.splits prod.splits)

lemma guard_unguarded: "\<not> guarded rq \<Longrightarrow> guard rq s = (None, s)"
  by (simp add: guard_def)

lemma any_token_True: "any_token a ts = Inr True \<Longrightarrow> \<exists>t \<in> set ts. a = ''Bearer '' @ t"
  by (induction ts) (auto simp: compare_digest_def bindr_Inr_iff split: if_splits)

lemma any_token_ascii:
  "is_ascii a \<Longrightarrow> list_all is_ascii ts \<Longrightarrow> any_token a ts = Inr (\<exists>t \<in> set ts. a = ''Bearer '' @ t)"
proof (induction ts)
  case (Cons t ts)
  have "is_ascii (''Bearer '' @ t)" using Cons.prems by (simp add: is_ascii_def)
  then show ?case using Cons by (simp add: compare_digest_def)
qed simp

lemma require_token_None: "require_token accepted h = None \<Longrightarrow> accepted \<noteq> [] \<Longrightarrow> \<exists>t \<in> set accepted. h = Some (''Bearer '' @ t)"
  using any_token_True [of "case h of None \<Rightarrow> [] | Some a \<Rightarrow> a" accepted]
  by (auto simp: require_token_def split: sum.splits bool.splits option.splits)

lemma split_all_subset: "t \<in> set (split_all c s) \<Longrightarrow> set t \<subseteq> set s"
  by (induction s arbitrary: t) (fastforce split: if_splits list.splits)+

lemma accepted_ascii: "is_ascii token \<Longrightarrow> list_all is_ascii (accepted_tokens token)"
proof -
  assume "is_ascii token"
  then have "is_ascii (strip t)" if "t \<in> set (split_all (CHR '','') token)" for t
    using that strip_subset [of t] split_all_subset [OF that] by (auto simp: is_ascii_def list_all_iff)
  then show ?thesis by (auto simp: accepted_tokens_def list_all_iff)
qed

lemma accepted_not_Nil: "t \<in> set (accepted_tokens token) \<Longrightarrow> t \<noteq> []"
  by (auto simp: accepted_tokens_def)

lemma own_token_accepted:
  assumes "make_http_transport token tls = Inr T" "is_ascii token"
  shows "require_token (accepted_tokens token) (t_authorization T) = None"
proof (cases "accepted_tokens token")
  case (Cons t ts)
  have t: "is_ascii t" "t \<noteq> []" "t \<in> set (accepted_tokens token)"
    using accepted_ascii [OF assms(2)] accepted_not_Nil [of t token] Cons by simp_all
  then have "t_authorization T = Some (''Bearer '' @ t)"
    using assms(1) Cons by (auto simp: make_http_transport_def primary_token_def Let_def bindr_Inr_iff)
  moreover have "is_ascii (''Bearer '' @ t)" using t(1) by (simp add: is_ascii_def)
  ultimately show ?thesis
    using any_token_ascii [OF _ accepted_ascii [OF assms(2)]] t(3) by (auto simp: require_token_def)
qed (simp add: require_token_def)


section \<open>Serving without a token\<close>

lemma public_endpoint_frame:
  "\<not> needs_token r \<Longrightarrow> endpoint C r s = Some (x, s') \<Longrightarrow> s' = s"
  by (cases r) (auto simp: get_block_def inclusion_proof_def chain_def health_def Let_def split: sum.splits option.splits if_splits)

lemma serve_cases:
  assumes "serve C rq s = Some (x, s')"
  obtains (guarded) "guard rq s = (Some x, s')"
  | (unknown) "guard rq s = (None, s')" "x = Refused 404"
  | (unauthorised) "guard rq s = (None, s')" "needs_token (rq_route rq)" "require_token (sv_accepted s') (rq_authorization rq) = Some x"
  | (unparsed) "guard rq s = (None, s')" "x = Refused 422"
  | (handled) s1 where "guard rq s = (None, s1)" "endpoint C (rq_route rq) s1 = Some (x, s')"
      "needs_token (rq_route rq) \<Longrightarrow> require_token (sv_accepted s1) (rq_authorization rq) = None"
  using assms by (auto simp: serve_def split: prod.splits option.splits if_splits)

lemma require_token_no_reply: "require_token accepted h = Some x \<Longrightarrow> x = Refused 401 \<or> x = InternalError"
  by (auto simp: require_token_def split: if_splits sum.splits bool.splits)

lemma guard_no_reply: "guard rq s = (Some x, s') \<Longrightarrow> x \<in> {InternalError, Refused 413, Refused 429}"
  by (auto simp: guard_def Let_def split: if_splits sum.splits bool.splits prod.splits)


section \<open>The guard as a meter\<close>

definition pass :: "request \<Rightarrow> server \<Rightarrow> bool \<times> server" where
  "pass rq s = (let (r, s') = guard rq s in (r = None, s'))"

lemma pass_eq:
  "pass rq s = (False, s) \<and> guarded rq \<or> pass rq s = (True, s) \<and> \<not> guarded rq \<or>
   guarded rq \<and> pass rq s = (fst (allow (rq_time rq) (client_of rq) (sv_limiter s)),
     s\<lparr>sv_limiter := snd (allow (rq_time rq) (client_of rq) (sv_limiter s))\<rparr>)"
  by (auto simp: pass_def guard_def Let_def split: sum.splits bool.splits prod.splits)

lemma pass_cases:
  obtains "pass rq s = (False, s)" "guarded rq" | "pass rq s = (True, s)" "\<not> guarded rq"
  | "guarded rq" "pass rq s = (fst (allow (rq_time rq) (client_of rq) (sv_limiter s)),
       s\<lparr>sv_limiter := snd (allow (rq_time rq) (client_of rq) (sv_limiter s))\<rparr>)"
  using pass_eq [of rq s] by blast

interpretation meter: metered pass rq_time "\<lambda>rq. guarded rq \<and> client_of rq = k" "\<lambda>t s. credit k t (sv_limiter s)"
  "\<lambda>t s. limiter_ok r b t (sv_limiter s)" "float_gain * r" "of_int b" "float_slack b" for k r b
proof
  fix t t' and s :: server assume "limiter_ok r b t (sv_limiter s)" "t \<le> t'"
  then show "limiter_ok r b t' (sv_limiter s)"
    "credit k t' (sv_limiter s) \<le> credit k t (sv_limiter s) + float_gain * r * (t' - t)"
    by (rule bucket.valid_later, rule bucket.credit_later)
next
  fix i :: request and s :: server assume v: "limiter_ok r b (rq_time i) (sv_limiter s)"
  show "limiter_ok r b (rq_time i) (sv_limiter (snd (pass i s)))"
    by (cases rule: pass_cases [of i s]) (use v in \<open>simp_all add: allow_ok\<close>)
  have "0 \<le> float_slack b" using v by (simp add: float_slack_def limiter_ok_def)
  then show "credit k (rq_time i) (sv_limiter (snd (pass i s)))
      \<le> credit k (rq_time i) (sv_limiter s) - (if (guarded i \<and> client_of i = k) \<and> fst (pass i s) then 1 else 0) +
        (if guarded i \<and> client_of i = k then float_slack b else 0)"
    by (cases rule: pass_cases [of i s]) (use credit_allow [OF v, of k "client_of i"] in auto)
qed (rule credit_range)


section \<open>What is served\<close>

lemma leaves_nth: "0 \<le> i \<Longrightarrow> i < int (length (records b)) \<Longrightarrow>
    leaves (records b) (validator_changes b) ! nat i = canonical_bytes (record_to_dict (records b ! nat i))"
  by (simp add: leaves_def nth_append record_canonical_def nat_less_iff)

lemma ui_step_json: "mapr ui_step (map (\<lambda>st. JObj [(''sibling'', JStr (hex_of_bytes (sibling st))),
    (''right'', JBool (sibling_on_right st))]) steps) = Inr steps"
  by (rule mapr_map_Inr) (simp add: ui_step_def)

lemma ui_verify_proof_json:
  assumes "proof_for_record C b i = Inr steps" "0 \<le> i" "i < int (length (records b))"
    "\<bar>observed_at (records b ! nat i)\<bar> < 2 ^ 53"
  shows "ui_verify C (proof_json C h i b steps) = Inr (has_consistent_merkle_root C b)"
proof -
  have "foldl (proof_acc C) (hash_leaf C (canonical_bytes (record_to_dict (records b ! nat i)))) steps
      = merkle_root C (leaves (records b) (validator_changes b))"
    using proof_verifies [OF assms(1) [unfolded proof_for_record_def]] leaves_nth [OF assms(2,3)]
    by (simp add: verify_proof_def)
  then show ?thesis
    using canon_record [OF assms(4)]
    by (auto simp: ui_verify_def proof_json_def ui_step_json has_consistent_merkle_root_def computed_merkle_root_def)
qed

lemma proof_exists:
  "0 \<le> i \<Longrightarrow> i < int (length (records b)) \<Longrightarrow> \<exists>steps. proof_for_record C b i = Inr steps"
  by (simp add: proof_for_record_def merkle_proof_def leaves_def)

definition block_request :: "int \<Rightarrow> request" where
  "block_request i = \<lparr>rq_route = GetBlock i, rq_client = None, rq_time = 0, rq_length = None, rq_authorization = None\<rparr>"

lemma serve_public:
  "\<not> needs_token (rq_route rq) \<Longrightarrow> serve C rq s = endpoint C (rq_route rq) s"
  by (cases "rq_route rq") (simp_all add: serve_def guard_unguarded guarded_def)

lemma get_block_stored:
  assumes "repo_stores C (n_repo (sv_node s)) bs"
  shows "serve C (block_request i) s =
    Some (if 0 \<le> i \<and> i < int (length bs) then Reply (block_to_dict (bs ! nat i)) else Refused 404, s)"
  using sql.get_eq [OF assms, of i] by (simp add: serve_public block_request_def get_block_def)


definition answers_blocks :: "crypto \<Rightarrow> (peer \<Rightarrow> server option) \<Rightarrow> (string \<Rightarrow> http_response) \<Rightarrow> http_transport \<Rightarrow> int \<Rightarrow> peer \<Rightarrow> bool" where
  \<comment> \<open>the peer is out of reach, or answers as its server does\<close>
  "answers_blocks C srv get T i q \<longleftrightarrow> get (url T q (''/blocks/'' @ show_int i)) =
     (case srv q of
        None \<Rightarrow> HTTPError
      | Some s \<Rightarrow> (case serve C (block_request i) s of None \<Rightarrow> HTTPError | Some (r, _) \<Rightarrow> http_of r))"

definition has_block :: "(peer \<Rightarrow> server option) \<Rightarrow> (peer \<Rightarrow> block list) \<Rightarrow> int \<Rightarrow> peer \<Rightarrow> bool" where
  "has_block srv held i q \<longleftrightarrow> srv q \<noteq> None \<and> 0 \<le> i \<and> i < int (length (held q))"

lemma fetch_from_servers:
  assumes "\<forall>q \<in> set qs. answers_blocks C srv get T i q"
    "\<forall>q \<in> set qs. \<forall>s. srv q = Some s \<longrightarrow> repo_stores C (n_repo (sv_node s)) (held q)"
  shows "fetch_block_from get T i qs = Inr (map_option (\<lambda>q. held q ! nat i) (find (has_block srv held i) qs))"
  using assms
proof (induction qs)
  case (Cons q qs)
  then have IH: "fetch_block_from get T i qs = Inr (map_option (\<lambda>q. held q ! nat i) (find (has_block srv held i) qs))"
    by simp
  have a: "get (url T q (''/blocks/'' @ show_int i)) = (case srv q of
      None \<Rightarrow> HTTPError | Some s \<Rightarrow> (case serve C (block_request i) s of None \<Rightarrow> HTTPError | Some (r, _) \<Rightarrow> http_of r))"
    using Cons.prems(1) by (simp add: answers_blocks_def)
  show ?case
  proof (cases "srv q")
    case None
    then show ?thesis using a IH by (simp add: has_block_def [of _ _ _ q])
  next
    case (Some s)
    then have "serve C (block_request i) s =
        Some (if 0 \<le> i \<and> i < int (length (held q)) then Reply (block_to_dict (held q ! nat i)) else Refused 404, s)"
      using Cons.prems(2) by (intro get_block_stored) simp
    with a Some IH show ?thesis by (auto simp: has_block_def [of _ _ _ q] http_of_def block_from_dict_to_dict)
  qed
qed simp


lemma fetched_prefix:
  assumes "\<forall>q \<in> set qs. \<forall>s. srv q = Some s \<longrightarrow> prefix (held q) all"
    "q0 \<in> set qs" "has_block srv held i q0"
  shows "map_option (\<lambda>q. held q ! nat i) (find (has_block srv held i) qs) = Some (all ! nat i)"
proof -
  have "find (has_block srv held i) qs \<noteq> None" using assms(2,3) by (auto simp: find_None_iff)
  then obtain q where q: "find (has_block srv held i) qs = Some q" "q \<in> set qs" "has_block srv held i q"
    using nth_mem by (fastforce simp: find_Some_iff)
  then have "prefix (held q) all" "nat i < length (held q)" using assms(1) by (auto simp: has_block_def nat_less_iff)
  then show ?thesis using q(1) by (auto simp: prefix_def nth_append)
qed


section \<open>Requests are inputs of the node\<close>

lemma after_node: "after f s out = Some (r, s') \<Longrightarrow> \<exists>x. out = Some (x, sv_node s')"
  by (auto simp: after_def split: option.splits)

fun request_input :: "route \<Rightarrow> node_input \<Rightarrow> bool" where
  \<comment> \<open>the inputs of the node that an endpoint may cause\<close>
  "request_input (PostConsensus j) inp = (\<exists>m. message_from_dict j = Inr m \<and> inp = Enqueue m)"
| "request_input (PostMempool j) inp = (\<exists>rs. inp = ReceiveRecords rs)"
| "request_input (PostMembership j) inp = (\<exists>cs. inp = ReceiveChanges cs)"
| "request_input (PostBlock j) inp = (\<exists>b. block_from_dict j = Inr b \<and> inp = PushedBlock b)"
| "request_input (AdminSubmit k v) inp = (\<exists>rs. inp = SubmitRecords rs)"
| "request_input (AdminValidator j) inp = (\<exists>c. change_from_dict j = Inr c \<and> inp = SubmitChange c)"
| "request_input _ inp = False"

definition clock_read :: "node \<Rightarrow> node \<Rightarrow> bool" where
  "clock_read n n' \<longleftrightarrow> n' = n \<or> n' = n\<lparr>n_clock_reads := n_clock_reads n + 1\<rparr>"

lemma endpoint_node:
  assumes "endpoint C rt s = Some (r, s')"
  shows "sv_node s' = sv_node s \<or>
    (\<exists>n inp x. clock_read (sv_node s) n \<and> request_input rt inp \<and> node_step C n inp = Some (x, sv_node s'))"
proof (cases rt)
  case (PostConsensus j)
  show ?thesis
  proof (cases "message_from_dict j")
    case (Inl e)
    then show ?thesis using assms PostConsensus by (simp add: consensus_def)
  next
    case (Inr m)
    then have "node_step C (sv_node s) (Enqueue m) = Some (None, sv_node s')"
      using assms PostConsensus by (auto simp: consensus_def Let_def split: prod.splits if_splits)
    then show ?thesis using Inr PostConsensus by (auto simp: clock_read_def)
  qed
next
  case (PostMempool j)
  then show ?thesis using assms
    by (auto simp: mempool_def clock_read_def split: sum.splits dest!: after_node intro!: exI [of _ "sv_node s"] exI [of _ "ReceiveRecords _"])
next
  case (PostMembership j)
  then show ?thesis using assms
    by (auto simp: membership_def clock_read_def split: sum.splits dest!: after_node intro!: exI [of _ "sv_node s"] exI [of _ "ReceiveChanges _"])
next
  case (PostBlock j)
  then show ?thesis using assms
    by (auto simp: push_block_def clock_read_def split: sum.splits dest!: after_node intro!: exI [of _ "sv_node s"] exI [of _ "PushedBlock _"])
next
  case (AdminSubmit k v)
  then show ?thesis using assms
    by (auto simp: admin_submit_def clock_read_def Let_def split: sum.splits dest!: after_node
        intro!: exI [of _ "(sv_node s)\<lparr>n_clock_reads := n_clock_reads (sv_node s) + 1\<rparr>"] exI [of _ "SubmitRecords _"])
next
  case (AdminValidator j)
  then show ?thesis using assms
    by (auto simp: admin_validator_def clock_read_def split: sum.splits dest!: after_node intro!: exI [of _ "sv_node s"] exI [of _ "SubmitChange _"])
qed (use assms in \<open>auto simp: get_peers_def post_peers_endpoint_def get_block_def inclusion_proof_def chain_def health_def Let_def
      split: sum.splits option.splits if_splits prod.splits\<close>)

lemma serve_node:
  assumes "serve C rq s = Some (r, s')"
  shows "sv_node s' = sv_node s \<or>
    (\<exists>n inp x. clock_read (sv_node s) n \<and> request_input (rq_route rq) inp \<and> node_step C n inp = Some (x, sv_node s'))"
  using assms
proof (cases rule: serve_cases)
  case (handled s1)
  then show ?thesis using endpoint_node [OF handled(2)] guard_frame [OF handled(1)] by simp
qed (use guard_frame in auto)

fun serve_all :: "crypto \<Rightarrow> request list \<Rightarrow> server \<Rightarrow> server option" where
  \<comment> \<open>any sequence of requests\<close>
  "serve_all C [] s = Some s"
| "serve_all C (rq # rqs) s = (case serve C rq s of None \<Rightarrow> None | Some (_, s') \<Rightarrow> serve_all C rqs s')"

lemma clock_read_frame: "clock_read n n' \<Longrightarrow> extends C n n' \<and> inbox_step n n'"
  by (auto simp: clock_read_def intro!: extends_same inbox_step_same)

lemma serve_extends:
  assumes "serve C rq s = Some (r, s')"
  shows "extends C (sv_node s) (sv_node s') \<and> inbox_step (sv_node s) (sv_node s')"
  using serve_node [OF assms]
proof (elim disjE exE conjE)
  fix n inp x assume c: "clock_read (sv_node s) n" and st: "node_step C n inp = Some (x, sv_node s')"
  show ?thesis
    using clock_read_frame [OF c, of C] growing.stepped [OF st] inbox.stepped [OF st] growing.trans inbox.trans by blast
qed (simp add: growing.refl inbox.refl)

lemma serve_all_extends:
  "serve_all C rqs s = Some s' \<Longrightarrow> extends C (sv_node s) (sv_node s') \<and> inbox_step (sv_node s) (sv_node s')"
proof (induction rqs arbitrary: s)
  case (Cons rq rqs)
  then obtain r s1 where s1: "serve C rq s = Some (r, s1)" "serve_all C rqs s1 = Some s'" by (auto split: option.splits)
  show ?case using serve_extends [OF s1(1)] Cons.IH [OF s1(2)] growing.trans inbox.trans by blast
qed (simp add: growing.refl inbox.refl)

lemma after_Some: "out = Some (x, n) \<Longrightarrow> \<exists>y. after f s out = Some y"
  by (cases x) (simp_all add: after_def)

lemma after_returns:
  assumes "ed25519_correct C" "private_ok (n_private_key n)" "node_step C n inp = out"
  shows "\<exists>y. after f s out = Some y"
proof -
  obtain x m where "node_step C n inp = Some (x, m)" using step_returns [OF assms(1,2)] by fastforce
  then show ?thesis using assms(3) after_Some [of out x m] by blast
qed

lemma endpoint_returns:
  assumes "ed25519_correct C" "private_ok (n_private_key (sv_node s))"
  shows "\<exists>y. endpoint C rt s = Some y"
proof (cases rt)
  case (PostMempool j)
  have "\<exists>y. after f s (receive_records C rs (sv_node s)) = Some y" for f rs
    by (rule after_returns [OF assms node_step.simps(2)])
  then show ?thesis using PostMempool by (simp add: mempool_def split: sum.split)
next
  case (PostMembership j)
  have "\<exists>y. after f s (receive_validator_changes C cs (sv_node s)) = Some y" for f cs
    by (rule after_returns [OF assms node_step.simps(4)])
  then show ?thesis using PostMembership by (simp add: membership_def split: sum.split)
next
  case (PostBlock j)
  have "\<exists>y. after f s (ingest_block C b (sv_node s)) = Some y" for f b
    by (rule after_returns [OF assms node_step.simps(5)])
  then show ?thesis using PostBlock by (simp add: push_block_def split: sum.split)
next
  case (AdminSubmit k v)
  let ?n = "(sv_node s)\<lparr>n_clock_reads := n_clock_reads (sv_node s) + 1\<rparr>"
  have "\<exists>y. after f s (submit_records C rs ?n) = Some y" for f rs
    by (rule after_returns [OF assms(1) _ node_step.simps(1)]) (simp add: assms(2))
  then show ?thesis using AdminSubmit by (simp add: admin_submit_def Let_def split: sum.split)
next
  case (AdminValidator j)
  have "\<exists>y. after f s (submit_validator_change C c (sv_node s)) = Some y" for f c
    by (rule after_returns [OF assms node_step.simps(3)])
  then show ?thesis using AdminValidator by (simp add: admin_validator_def split: sum.split)
qed (auto simp: consensus_def get_peers_def post_peers_endpoint_def get_block_def inclusion_proof_def chain_def
        health_def Let_def split: sum.splits option.splits prod.splits)

lemma serve_returns:
  assumes "ed25519_correct C" "private_ok (n_private_key (sv_node s))"
  shows "\<exists>r s'. serve C rq s = Some (r, s')"
proof -
  obtain r s1 where g: "guard rq s = (r, s1)" by fastforce
  have "\<exists>y. endpoint C (rq_route rq) s1 = Some y"
    using endpoint_returns [OF assms(1), of s1] assms(2) guard_frame [OF g] by simp
  then show ?thesis using g by (auto simp: serve_def split: option.splits)
qed

definition solo_server :: server where
  "solo_server = create_app solo ''n'' (demo_registry (CHR ''a'') ''h'') False ''t'' 1 2 100 (make_confidentiality None False)"

lemma solo_server_simps [simp]:
  "sv_node solo_server = solo" "sv_accepted solo_server = [''t'']" "sv_max_body solo_server = 100"
  "sv_limiter solo_server = make_rate_limiter 1 2"
proof -
  have "accepted_tokens ''t'' = [''t'']" by code_simp
  then show "sv_node solo_server = solo" "sv_accepted solo_server = [''t'']" "sv_max_body solo_server = 100"
    "sv_limiter solo_server = make_rate_limiter 1 2" by (simp_all add: solo_server_def create_app_def)
qed

lemma solo_stores: "repo_stores short_crypto (n_repo solo) [genesis_block short_crypto (Some (vs_validators solo_validators)) ZERO_HASH 0]"
  using solo_inv(1) by (simp add: inv_at_def)


lemma serve_all_returns:
  "ed25519_correct C \<Longrightarrow> private_ok (n_private_key (sv_node s)) \<Longrightarrow> \<exists>s'. serve_all C rqs s = Some s'"
proof (induction rqs arbitrary: s)
  case (Cons rq rqs)
  obtain r s1 where s1: "serve C rq s = Some (r, s1)" using serve_returns [OF Cons.prems] by blast
  have "private_ok (n_private_key (sv_node s1))" using serve_extends [OF s1] Cons.prems(2) by (simp add: extends_def)
  then show ?case using Cons.IH Cons.prems(1) s1 by simp
qed simp


section \<open>Properties\<close>

text \<open>C16: no token, no effect. If the node is configured with tokens and a request carries none
  of them, then whatever it asks for, the node, its chain, mempool and inbox and its peer
  registry stay as they are; and no endpoint that needs a token answers it.\<close>

theorem no_token_no_effect:
  assumes "sv_accepted s \<noteq> []" "\<forall>t \<in> set (sv_accepted s). rq_authorization rq \<noteq> Some (''Bearer '' @ t)"
    "serve C rq s = Some (r, s')"
  shows "sv_node s' = sv_node s \<and> sv_registry s' = sv_registry s \<and> (\<forall>j. r = Reply j \<longrightarrow> \<not> needs_token (rq_route rq))"
  using assms(3)
proof (cases rule: serve_cases)
  case (handled s1)
  have "\<not> needs_token (rq_route rq)"
    using handled(3) require_token_None [of "sv_accepted s1" "rq_authorization rq"] assms(1,2) guard_frame [OF handled(1)] by auto
  then show ?thesis using public_endpoint_frame [OF _ handled(2)] guard_frame [OF handled(1)] by simp
next
  case guarded
  then show ?thesis using guard_frame [OF guarded] guard_no_reply [OF guarded] by auto
next
  case unauthorised
  then show ?thesis using guard_frame [OF unauthorised(1)] require_token_no_reply [OF unauthorised(3)] by auto
qed (use guard_frame in auto)

definition demo_request :: "route \<Rightarrow> rat \<Rightarrow> string option \<Rightarrow> request" where
  "demo_request r t h = \<lparr>rq_route = r, rq_client = Some ''c'', rq_time = t, rq_length = Some ''2'', rq_authorization = h\<rparr>"

theorem no_token_no_effect_witness:
  "\<exists>r s'. serve short_crypto (demo_request (PostConsensus (JObj [])) 0 (Some ''Bearer x'')) solo_server = Some (r, s') \<and>
     sv_node s' = solo \<and> (\<forall>j. r \<noteq> Reply j)"
proof -
  let ?rq = "demo_request (PostConsensus (JObj [])) 0 (Some ''Bearer x'')"
  obtain r s' where s: "serve short_crypto ?rq solo_server = Some (r, s')"
    by (cases "guard ?rq solo_server"; cases "fst (guard ?rq solo_server)";
        cases "require_token (sv_accepted (snd (guard ?rq solo_server))) (rq_authorization ?rq)")
      (auto simp: serve_def demo_request_def consensus_def message_from_dict.simps)
  from no_token_no_effect [OF _ _ s] have "sv_node s' = solo \<and> (\<forall>j. r = Reply j \<longrightarrow> \<not> needs_token (rq_route ?rq))"
    by (simp add: demo_request_def)
  with s show ?thesis by (auto simp: demo_request_def)
qed

text \<open>C21: the guard limits every client. Take a server whose rate limit is enabled, that is
  positive, and a sequence of requests in the order of time. In any window of it, at most
  \<open>burst + rate * (length of the window)\<close> of one client's POST requests to the protected paths get
  past the guard, whatever other clients send, where a burst below one counts as one and up to
  the rounding of floats: the rate counts with a factor \<open>(1 + 2^-53)^2\<close>, and each of these
  requests can add \<open>4 * 2^-53 * burst\<close>.\<close>

theorem guard_bounds_client:
  assumes "0 < rate" "sorted (map rq_time (before @ window))" "window \<noteq> []"
    "decisions pass (create_app n node_id R debug token rate burst max_body cf) before = (bs, s)"
    "decisions pass s window = (cs, s')"
  shows "of_nat (admitted (\<lambda>rq. guarded rq \<and> client_of rq = client) window cs)
    \<le> of_int (max 1 burst) + (1 + float_eps)\<^sup>2 * rate * (rq_time (last window) - rq_time (hd window)) +
        4 * float_eps * of_int (max 1 burst) * of_nat (length (filter (\<lambda>rq. guarded rq \<and> client_of rq = client) window))"
proof -
  let ?s0 = "create_app n node_id R debug token rate burst max_body cf"
  define t where "t = rq_time (hd (before @ window))"
  have v: "limiter_ok rate (max 1 burst) t (sv_limiter ?s0)"
    using make_rate_limiter_ok [OF assms(1)] by (simp add: create_app_def)
  have "sorted (t # map rq_time before)" using assms(2) by (cases before) (auto simp: t_def sorted_append)
  note ok = meter.valid_decisions [OF v this]
  have "last (t # map rq_time before) \<le> rq_time (hd window)"
    using assms(2,3) by (cases window) (auto simp: sorted_append last_map t_def)
  from meter.valid_later [OF ok this] have "limiter_ok rate (max 1 burst) (rq_time (hd window)) (sv_limiter s)"
    by (simp add: assms(4))
  moreover have "sorted (rq_time (hd window) # map rq_time window)"
    using assms(2,3) by (cases window) (auto simp: sorted_append)
  ultimately show ?thesis
    using meter.window [of rate "max 1 burst" "rq_time (hd window)" s window client] assms(3,5)
    by (simp add: last_map float_gain_def float_slack_def)
qed

theorem guard_bounds_client_witness:
  "of_nat (admitted (\<lambda>rq. guarded rq \<and> client_of rq = ''c'')
       (map (\<lambda>t. demo_request (PostBlock JNull) t None) [0, 0, 0, 1]) [True, True, False, True])
     \<le> (2 + (1 + float_eps)\<^sup>2 * 1 * (1 - 0) + 4 * float_eps * 2 * 4 :: rat)"
proof -
  let ?w = "map (\<lambda>t. demo_request (PostBlock JNull) t None) [0, 0, 0, 1]"
  have g: "guarded (demo_request (PostBlock JNull) t None)" for t by (simp add: guarded_def demo_request_def) code_simp
  have l: "int_of_str ''2'' = Inr 2" by code_simp
  have f: "float_round 1 = 1" "float_round 2 = 2" by code_simp+
  obtain s' where s': "decisions pass solo_server ?w = ([True, True, False, True], s')"
    using g by (simp add: pass_def guard_def demo_request_def l f Let_def client_of_def allow_def make_rate_limiter_def rl_enabled_def)
  have c: "client_of (demo_request (PostBlock JNull) t None) = ''c''" for t by (simp add: client_of_def demo_request_def)
  show ?thesis
    using guard_bounds_client [of 1 "[]" ?w solo "''n''" "demo_registry (CHR ''a'') ''h''" False "''t''" 2 100
        "make_confidentiality None False" "[]" solo_server _ s' "''c''"] s' g c
    unfolding solo_server_def [symmetric] by (simp add: demo_request_def del: decisions.simps) (simp add: demo_request_def)
qed

text \<open>C18: the console's check of a served proof decides the block. For every record of a stored
  block the server answers \<open>/proof\<close> with a proof. If the record's time is below \<open>2 ^ 53\<close> in
  absolute value, so that JavaScript reads it exactly, the web console, which serializes the
  record of the reply itself and recomputes the root from it and the proof alone, accepts if and
  only if the block's Merkle root is the root of its contents. The server's state does not
  change.\<close>

theorem served_proof_checks:
  assumes "repo_get (n_repo (sv_node s)) height = Inr (Some b)" "0 \<le> index" "index < int (length (records b))"
    "rq_route rq = GetProof height index" "\<bar>observed_at (records b ! nat index)\<bar> < 2 ^ 53"
  shows "\<exists>j. serve C rq s = Some (Reply j, s) \<and> get_item j ''record'' = Inr (record_to_dict (records b ! nat index)) \<and>
    ui_verify C j = Inr (has_consistent_merkle_root C b)"
proof -
  obtain steps where st: "proof_for_record C b index = Inr steps" using proof_exists [OF assms(2,3)] by blast
  have "serve C rq s = Some (Reply (proof_json C height index b steps), s)"
    using assms st by (simp add: serve_public inclusion_proof_def)
  then show ?thesis using ui_verify_proof_json [OF st assms(2,3,5)] by (auto simp: proof_json_def)
qed

definition stocked_server :: server where
  \<comment> \<open>the second block has the contents of the first and another root\<close>
  "stocked_server =
     (let g = block_create short_crypto 0 ZERO_HASH 5 ''p'' [demo_record, demo_record] [] in
      solo_server\<lparr>sv_node := solo\<lparr>n_repo := map (row_of_block short_crypto)
        [g, g\<lparr>header := (header g)\<lparr>bh_index := 1, bh_merkle_root := ''00''\<rparr>\<rparr>]\<rparr>\<rparr>)"

theorem served_proof_checks_witness:
  "(\<exists>j. serve short_crypto (demo_request (GetProof 0 1) 0 None) stocked_server = Some (Reply j, stocked_server) \<and>
      ui_verify short_crypto j = Inr True) \<and>
   (\<exists>j. serve short_crypto (demo_request (GetProof 1 0) 0 None) stocked_server = Some (Reply j, stocked_server) \<and>
      ui_verify short_crypto j = Inr False)"
proof -
  define g where "g = block_create short_crypto 0 ZERO_HASH 5 ''p'' [demo_record, demo_record] []"
  define b where "b = g\<lparr>header := (header g)\<lparr>bh_index := 1, bh_merkle_root := ''00''\<rparr>\<rparr>"
  have i: "block_index g = 0" "block_index b = 1" "records g = [demo_record, demo_record]" "records b = [demo_record, demo_record]"
    by (simp_all add: g_def b_def block_create_def block_index_def)
  have r: "repo_get (n_repo (sv_node stocked_server)) 0 = Inr (Some g)" "repo_get (n_repo (sv_node stocked_server)) 1 = Inr (Some b)"
    using i by (simp_all add: stocked_server_def repo_get_def Let_def flip: g_def b_def)
  have c: "has_consistent_merkle_root short_crypto g" "\<not> has_consistent_merkle_root short_crypto b"
    unfolding b_def g_def by code_simp+
  have "observed_at demo_record = 17" by code_simp
  then show ?thesis
    using served_proof_checks [OF r(1), of 1 "demo_request (GetProof 0 1) 0 None" short_crypto]
      served_proof_checks [OF r(2), of 0 "demo_request (GetProof 1 0) 0 None" short_crypto] i c
    by (auto simp: demo_request_def)
qed

text \<open>Catching up over HTTP finds a block that any reachable peer has. Suppose each peer is out
  of reach or answers \<open>/blocks/i\<close> as its server does from the chain it stores. Then fetching
  does not raise, and returns the block of the first peer in the registry that is reachable and
  has it, exactly as that peer stores it; nothing only if no reachable peer has it.\<close>

theorem fetch_finds_served_block:
  assumes "\<forall>q \<in> set (current R). answers_blocks C srv get T i q"
    "\<forall>q \<in> set (current R). \<forall>s. srv q = Some s \<longrightarrow> repo_stores C (n_repo (sv_node s)) (held q)"
  shows "(\<exists>q \<in> set (current R). has_block srv held i q \<and> fetch_block get T R i = Inr (Some (held q ! nat i))) \<or>
    (\<forall>q \<in> set (current R). \<not> has_block srv held i q) \<and> fetch_block get T R i = Inr None"
proof (cases "find (has_block srv held i) (current R)")
  case None
  then show ?thesis using fetch_from_servers [OF assms] by (simp add: fetch_block_def find_None_iff)
next
  case (Some q)
  then have "q \<in> set (current R)" "has_block srv held i q"
    using nth_mem by (fastforce simp: find_Some_iff)+
  then show ?thesis using fetch_from_servers [OF assms] Some by (auto simp: fetch_block_def)
qed

theorem fetch_finds_served_block_witness:
  "\<exists>b. fetch_block (\<lambda>u. case serve short_crypto (block_request 0) solo_server of None \<Rightarrow> HTTPError | Some (r, _) \<Rightarrow> http_of r)
     demo_transport (demo_pair (CHR ''a'') ''h'' (CHR ''b'')) 0 = Inr (Some b)"
proof -
  let ?get = "\<lambda>u. case serve short_crypto (block_request 0) solo_server of None \<Rightarrow> HTTPError | Some (r, _) \<Rightarrow> http_of r"
  let ?held = "\<lambda>q :: peer. [genesis_block short_crypto (Some (vs_validators solo_validators)) ZERO_HASH 0]"
  let ?R = "demo_pair (CHR ''a'') ''h'' (CHR ''b'')" and ?srv = "\<lambda>q :: peer. Some solo_server"
  have "current ?R = [demo_peer (CHR ''a'') ''h'']" by code_simp
  moreover have "has_block ?srv ?held 0 q" for q by (simp add: has_block_def)
  moreover have "answers_blocks short_crypto ?srv ?get demo_transport 0 q" for q by (simp add: answers_blocks_def)
  moreover have "repo_stores short_crypto (n_repo (sv_node s)) (?held q)" if "?srv q = Some s" for q s
    using that solo_stores by auto
  ultimately show ?thesis using fetch_finds_served_block [of ?R short_crypto ?srv ?get demo_transport 0 ?held] by auto
qed

text \<open>C17: a broadcast message reaches the inbox as it was sent, or the sender is told. Two nodes are
  configured with the same ASCII token. Take a request that the transport of one makes to
  broadcast a consensus message, and that gets past the guard of the other (size and rate). If
  the inbox of the receiver has room, the request is accepted and its effect is exactly to append
  that message to the inbox; if it is full, the answer is 503 and the inbox stays as it is.\<close>

theorem broadcast_reaches_inbox:
  assumes "make_http_transport token tls = Inr T" "is_ascii token"
    "(address, payload) \<in> set (transport_posts T R (Broadcast m))"
    "rq_route rq = PostConsensus payload" "rq_authorization rq = t_authorization T"
    "guard rq s = (None, s1)" "sv_accepted s = accepted_tokens token"
  shows "(\<exists>p \<in> set (current R). address = url T p (route_path (rq_route rq))) \<and>
    serve C rq s = Some
      (if 0 < n_max_inbox (sv_node s) \<and> n_max_inbox (sv_node s) \<le> int (length (n_inbox (sv_node s)))
       then (Refused 503, s1\<lparr>sv_node := observe_inbox (sv_node s)\<rparr>)
       else (Reply status_accepted, s1\<lparr>sv_node := observe_inbox ((sv_node s)\<lparr>n_inbox := n_inbox (sv_node s) @ [m]\<rparr>)\<rparr>))"
proof -
  have p: "payload = message_to_dict m" "\<exists>p \<in> set (current R). address = url T p ''/consensus''"
    using assms(3) by (auto simp: post_all_def)
  obtain d where d: "message_to_dict m = JObj d" by (cases m) auto
  note f = guard_frame [OF assms(6)]
  have "require_token (sv_accepted s1) (rq_authorization rq) = None"
    using own_token_accepted [OF assms(1,2)] assms(5,7) f by simp
  then have "serve C rq s = consensus (message_to_dict m) s1"
    using assms(4,6) p(1) d by (simp add: serve_def)
  then show ?thesis
    using p assms(4) f by (auto simp: consensus_def message_from_dict_to_dict enqueue_inbound_def)
qed

definition demo_message :: consensus_message where
  "demo_message = ConsensusMessage PREPARE 1 0 ''00'' ''aa'' ''bb'' None None None [] []"

theorem broadcast_reaches_inbox_witness:
  "\<exists>s'. serve short_crypto (demo_request (PostConsensus (message_to_dict demo_message)) 0 (Some ''Bearer t'')) solo_server
     = Some (Reply status_accepted, s') \<and> n_inbox (sv_node s') = [demo_message]"
proof -
  let ?R = "demo_pair (CHR ''a'') ''h'' (CHR ''b'')" and ?T = "demo_transport\<lparr>t_authorization := Some ''Bearer t''\<rparr>"
  let ?rq = "demo_request (PostConsensus (message_to_dict demo_message)) 0 (Some ''Bearer t'')"
  have "accepted_tokens ''t'' = [''t'']" by code_simp
  then have T: "make_http_transport ''t'' None = Inr ?T"
    by (simp add: make_http_transport_def primary_token_def demo_transport_def)
  have c: "current ?R = [demo_peer (CHR ''a'') ''h'']" by code_simp
  have "guarded ?rq" by (simp add: guarded_def demo_request_def) code_simp
  moreover have "int_of_str ''2'' = Inr 2" by code_simp
  moreover have "float_round 2 = 2" "float_round 1 = 1" by code_simp+
  ultimately obtain s1 where g: "guard ?rq solo_server = (None, s1)"
    by (simp add: guard_def demo_request_def Let_def client_of_def allow_def make_rate_limiter_def rl_enabled_def)
  have "is_ascii ''t''" by code_simp
  from broadcast_reaches_inbox [OF T this, of "url ?T (demo_peer (CHR ''a'') ''h'') ''/consensus''" "message_to_dict demo_message" ?R
      demo_message ?rq solo_server s1 short_crypto] g solo_inv(2,3) c \<open>accepted_tokens ''t'' = [''t'']\<close>
  show ?thesis by (simp add: demo_request_def post_all_def)
qed

text \<open>A consensus message with a field of the wrong type escapes the error handling. The
  endpoint answers 400 for a missing key or a bad value, but \<open>int(None)\<close> raises a
  \<open>TypeError\<close>, which it does not catch: the request ends in an internal error, while the
  mempool endpoint answers 400 for a record with the same defect.\<close>

theorem consensus_type_error_escapes:
  "\<exists>d r s1 s2. d = JObj [(''type'', JStr ''PREPARE''), (''height'', JNull)] \<and>
     consensus d solo_server = Some (InternalError, s1) \<and> s1 = solo_server \<and>
     r = JObj (map (\<lambda>(k, v). (k, if k = ''observed_at'' then JNull else v)) (record_core demo_record)) \<and>
     mempool short_crypto (JObj [(''records'', JList [r])]) solo_server = Some (Refused 400, s2) \<and> s2 = solo_server"
proof -
  have "message_from_dict (JObj [(''type'', JStr ''PREPARE''), (''height'', JNull)]) = Inl TypeError" by code_simp
  moreover have "record_from_dict (JObj (map (\<lambda>(k, v). (k, if k = ''observed_at'' then JNull else v)) (record_core demo_record)))
      = Inl TypeError" by code_simp
  ultimately show ?thesis by (simp add: consensus_def mempool_def refused_def)
qed

text \<open>C32: no traffic can stop a node or rewrite its chain. Whatever sequence of requests is sent to
  a node, authorised or not, well formed or not, every one of them is answered; the blocks that
  the node had stored are still there, in their places, with blocks only added behind them, and
  its inbox is within its limit.\<close>

theorem http_traffic_safe:
  assumes "ed25519_correct C" "private_ok (n_private_key (sv_node s))" "repo_stores C (n_repo (sv_node s)) bs"
    "inbox_bounded (sv_node s)"
  shows "\<exists>s' new. serve_all C rqs s = Some s' \<and> repo_load_all (n_repo (sv_node s')) = Inr (bs @ new) \<and> inbox_bounded (sv_node s')"
proof -
  obtain s' where s': "serve_all C rqs s = Some s'" using serve_all_returns [OF assms(1,2)] by blast
  obtain new where "repo_stores C (n_repo (sv_node s')) (bs @ new)"
    using serve_all_extends [OF s'] assms(3) by (auto simp: extends_def)
  then show ?thesis using s' sql.load_all_eq serve_all_extends [OF s'] assms(4) by (fastforce simp: inbox_step_def)
qed

theorem http_traffic_safe_witness:
  "\<exists>s' new. serve_all short_crypto [demo_request (PostBlock (JObj [])) 0 (Some ''Bearer t''), demo_request (GetBlock 0) 1 None] solo_server
     = Some s' \<and> repo_load_all (n_repo (sv_node s'))
     = Inr ([genesis_block short_crypto (Some (vs_validators solo_validators)) ZERO_HASH 0] @ new)"
proof -
  have "private_ok (n_private_key (sv_node solo_server))" "inbox_bounded (sv_node solo_server)"
    "repo_stores short_crypto (n_repo (sv_node solo_server)) [genesis_block short_crypto (Some (vs_validators solo_validators)) ZERO_HASH 0]"
    using solo_inv(2,3) solo_key demo_key_ok solo_stores by (simp_all add: inbox_bounded_def)
  from http_traffic_safe [OF short_crypto_correct this(1,3,2)] show ?thesis by blast
qed

text \<open>C19: a node catches up over HTTP. A node and the peers of its registry hold chains of which the
  longest, at a reachable peer in a good state, extends all others. Then synchronising up to its
  last block through the HTTP transport, with some peers out of reach and some behind, raises
  nothing and leaves the node with that chain and the same active validators. It sends nothing,
  and calls the commit hook for none of the blocks.\<close>

theorem http_catch_up:
  assumes "inv_at C n bs" "q0 \<in> set (current R)" "srv q0 = Some s0" "inv_at C (sv_node s0) (bs @ new)"
    "\<forall>q \<in> set (current R). \<forall>i. answers_blocks C srv get T i q"
    "\<forall>q \<in> set (current R). \<forall>s. srv q = Some s \<longrightarrow> repo_stores C (n_repo (sv_node s)) (held q) \<and> prefix (held q) (bs @ new)"
    "\<forall>b \<in> set new. n_fits n (block_index b) \<and> n_fits n (bh_timestamp (header b))"
  shows "\<exists>n'. sync_locked C (fetch_block get T R) (int (length (bs @ new)) - 1) n = (None, n') \<and>
    repo_load_all (n_repo n') = Inr (bs @ new) \<and> n_active n' = n_active (sv_node s0) \<and> n_out n' = n_out n"
proof -
  have st: "repo_stores C (n_repo (sv_node s0)) (bs @ new)" and fc: "final_chain C (bs @ new) (n_active (sv_node s0))"
    using assms(4) by (simp_all add: inv_at_def)
  have held: "\<forall>q \<in> set (current R). \<forall>s. srv q = Some s \<longrightarrow> repo_stores C (n_repo (sv_node s)) (held q)"
    and pre: "\<forall>q \<in> set (current R). \<forall>s. srv q = Some s \<longrightarrow> prefix (held q) (bs @ new)"
    using assms(6) by simp_all
  have "repo_stores C (n_repo (sv_node s0)) (held q0)" using held assms(2,3) by simp
  from sql.stores_unique [OF this st] have h0: "held q0 = bs @ new" .
  have fetched: "fetch_block get T R i = Inr (map_option (\<lambda>q. held q ! nat i) (find (has_block srv held i) (current R)))" for i
    using fetch_from_servers [of "current R" C srv get T i held] assms(5) held by (simp add: fetch_block_def)
  have f: "\<forall>i < length new. fetch_block get T R (int (length bs + i)) = Inr (Some (new ! i))"
  proof (intro allI impI)
    fix i assume i: "i < length new"
    have "has_block srv held (int (length bs + i)) q0" using assms(3) h0 i by (simp add: has_block_def)
    from fetched_prefix [OF pre assms(2) this] show "fetch_block get T R (int (length bs + i)) = Inr (Some (new ! i))"
      by (simp only: fetched sum.case nat_int nth_append_length_plus)
  qed
  have "\<forall>j < length (bs @ new). block_index ((bs @ new) ! j) = int j" using st by (simp add: repo_stores_def)
  then have i: "\<forall>i < length new. block_index (new ! i) = int (length bs + i)" by (auto simp: nth_append dest: spec [of _ "length bs + _"])
  have "distinct (map (block_hash C) (bs @ new))" using st by (simp add: repo_stores_def)
  from sync_chain [OF assms(1) fc f i this assms(7)] show ?thesis by blast
qed

definition demo_get :: "server \<Rightarrow> string \<Rightarrow> http_response" where
  \<comment> \<open>one peer, whose server answers a \<open>/blocks\<close> request\<close>
  "demo_get s u =
     (case int_of_str (drop (length (url demo_transport (demo_peer (CHR ''a'') ''h'') ''/blocks/'')) u) of
        Inl _ \<Rightarrow> HTTPError
      | Inr i \<Rightarrow> (case serve short_crypto (block_request i) s of None \<Rightarrow> HTTPError | Some (r, _) \<Rightarrow> http_of r))"

lemma demo_get_answers:
  "answers_blocks short_crypto (\<lambda>_. Some s) (demo_get s) demo_transport i (demo_peer (CHR ''a'') ''h'')"
proof -
  have "url T q (path @ x) = url T q path @ x" for T q path x by (simp add: url_def)
  then show ?thesis by (simp only: answers_blocks_def demo_get_def int_of_str_show_int option.case sum.case
        drop_append drop_all diff_self_eq_0 drop_0 order_refl append_Nil)
qed

theorem http_catch_up_witness:
  "\<exists>s n'. repo_load_all (n_repo solo) = Inr [solo_genesis] \<and>
     sync_locked short_crypto (fetch_block (demo_get s) demo_transport (demo_pair (CHR ''a'') ''h'' (CHR ''b''))) 1 solo = (None, n') \<and>
     repo_load_all (n_repo n') = Inr [solo_genesis, pushed_demo]"
proof -
  let ?R = "demo_pair (CHR ''a'') ''h'' (CHR ''b'')" and ?q = "demo_peer (CHR ''a'') ''h''"
  have R: "current ?R = [?q]" by code_simp
  obtain m where m: "inv_at short_crypto m ([solo_genesis] @ [pushed_demo])"
    using append_final [OF pushed_demo_chain] pushed_demo_header(1) pushed_demo_final by auto
  define s where "s = solo_server\<lparr>sv_node := m\<rparr>"
  have s: "inv_at short_crypto (sv_node s) ([solo_genesis] @ [pushed_demo])" using m by (simp add: s_def)
  have "repo_load_all (n_repo solo) = Inr [solo_genesis]"
    using sql.load_all_eq [of short_crypto] pushed_demo_chain(1) by (simp add: inv_at_def)
  then show ?thesis
    using http_catch_up [OF pushed_demo_chain(1), of ?q ?R "\<lambda>_. Some s" s "[pushed_demo]" "demo_get s" demo_transport
        "\<lambda>_. [solo_genesis] @ [pushed_demo]"] s R demo_get_answers pushed_demo_header(1) pushed_demo_final
    by (auto simp: inv_at_def)
qed

definition next_block :: "crypto \<Rightarrow> node \<Rightarrow> block \<Rightarrow> block \<Rightarrow> bool" where
  \<comment> \<open>what \<open>_sync_locked\<close> requires of a fetched block\<close>
  "next_block C n latest b \<longleftrightarrow> block_index b = repo_height (n_repo n) + 1 \<and> previous_hash (header b) = block_hash C latest \<and>
     verify_finality C b (n_active n)"

lemma fetch_block_first:
  assumes "current R = q # qs" "get (url T q (''/blocks/'' @ show_int i)) = Response 200 body"
  shows "fetch_block get T R i = bindr (bindr body block_from_dict) (\<lambda>b. Inr (Some b))"
  using assms by (cases body) (simp_all add: fetch_block_def)

text \<open>C20: one peer can keep a node from catching up. Let the first peer of the registry answer the
  request for the next block with status 200, and with anything but a finalized block that extends
  the node's chain. Then synchronising changes nothing, whatever the other peers hold: a body
  that is no block makes it raise, a wrong block makes it stop without an error. In the first
  case the consensus message that caused it is lost as well: the worker drops it and goes on
  with the next.\<close>

theorem first_peer_stops_catch_up:
  assumes "current R = q # qs" "get (url T q (''/blocks/'' @ show_int (repo_height (n_repo n) + 1))) = Response 200 body"
    "repo_latest (n_repo n) = Inr (Some latest)" "repo_height (n_repo n) < up_to"
  shows "case bindr body block_from_dict of
      Inl e \<Rightarrow> sync_locked C (fetch_block get T R) up_to n = (Some (Raised e), n) \<and>
        (\<forall>m ms. n_inbox n = m # ms \<and> up_to < m_height m \<longrightarrow> worker_step C (fetch_block get T R) n = Some (n\<lparr>n_inbox := ms\<rparr>))
    | Inr b \<Rightarrow> \<not> next_block C n latest b \<longrightarrow> sync_locked C (fetch_block get T R) up_to n = (None, n)"
proof -
  note f = fetch_block_first [of R q qs get T "repo_height (n_repo n) + 1" body, OF assms(1,2)]
  show ?thesis
  proof (cases "bindr body block_from_dict")
    case (Inl e)
    have stop: "sync_locked C (fetch_block get T R) k k' = (Some (Raised e), k')"
      if "n_repo k' = n_repo n" "repo_height (n_repo n) < k" for k k'
      using f Inl that by (simp add: sync_locked.simps [of C])
    have "worker_step C (fetch_block get T R) n = Some (n\<lparr>n_inbox := ms\<rparr>)" if "n_inbox n = m # ms" "up_to < m_height m" for m ms
      using stop [of "n\<lparr>n_inbox := ms\<rparr>" "m_height m - 1"] that assms(4)
      by (simp add: worker_step_def on_message_def catch_up_def)
    then show ?thesis using stop [of n up_to] assms(4) Inl by simp
  next
    case (Inr b)
    then show ?thesis using f assms(3,4) by (auto simp: sync_locked.simps [of C] next_block_def)
  qed
qed

theorem first_peer_stops_catch_up_witness:
  "sync_locked short_crypto (fetch_block (\<lambda>_. Response 200 (Inl ValueError)) demo_transport (demo_pair (CHR ''a'') ''h'' (CHR ''b''))) 1 solo
     = (Some (Raised ValueError), solo)"
proof -
  let ?R = "demo_pair (CHR ''a'') ''h'' (CHR ''b'')" and ?q = "demo_peer (CHR ''a'') ''h''"
  have R: "current ?R = [?q]" by code_simp
  have st: "repo_stores short_crypto (n_repo solo) [solo_genesis]" using pushed_demo_chain(1) by (simp add: inv_at_def)
  have "repo_latest (n_repo solo) = Inr (Some solo_genesis)" "repo_height (n_repo solo) < 1"
    using sql.latest_eq [OF st] sql.height_eq [OF st] by simp_all
  from first_peer_stops_catch_up [OF R _ this, of "\<lambda>_. Response 200 (Inl ValueError)" demo_transport "Inl ValueError" short_crypto]
  show ?thesis by simp
qed

end
