(* ===== verification/Node_Metrics.thy ===== *)
theory Node_Metrics
  imports Node_Properties
begin

text \<open>
  What the collectors of \<open>metrics.py\<close> say about the chain: the counters count the blocks a
  node has added since it started, and the gauges describe the last of them.
\<close>

type_synonym chain_gauges = "int \<times> int \<times> int"   \<comment> \<open>height, active validators, quorum\<close>

definition gauges :: "node \<Rightarrow> chain_gauges" where
  "gauges n = (CHAIN_HEIGHT (n_metrics n), VALIDATORS_ACTIVE (n_metrics n), QUORUM (n_metrics n))"

definition chain_state :: "node \<Rightarrow> chain_gauges" where
  "chain_state n = (node_height n, vs_size (n_active n), quorum (n_active n))"

definition counts :: "node \<Rightarrow> block list \<Rightarrow> node \<Rightarrow> bool" where
  "counts n new n' \<longleftrightarrow> BLOCKS_COMMITTED (n_metrics n') = BLOCKS_COMMITTED (n_metrics n) + int (length new) \<and>
     TAMPERING_DETECTED (n_metrics n') = TAMPERING_DETECTED (n_metrics n) + sum_list (map tampered_count new)"

definition counted :: "crypto \<Rightarrow> node_error option \<Rightarrow> node \<Rightarrow> node \<Rightarrow> bool" where
  \<comment> \<open>a block that is written by an operation which then raises is not counted\<close>
  "counted C x n n' \<longleftrightarrow> (\<forall>bs. repo_stores C (n_repo n) bs \<longrightarrow> (\<exists>new lost. repo_stores C (n_repo n') (bs @ new @ lost) \<and>
     counts n new n' \<and> length lost \<le> 1 \<and>
     (x = None \<longrightarrow> lost = [] \<and> (new = [] \<longrightarrow> chain_state n' = chain_state n)) \<and>
     (if new = [] then gauges n' = gauges n else x = None \<longrightarrow> gauges n' = chain_state n')))"

lemma counted_same:
  assumes "n_repo n' = n_repo n" "n_active n' = n_active n" "gauges n' = gauges n" "counts n [] n'"
  shows "counted C x n n'"
  unfolding counted_def
proof (intro allI impI)
  fix bs assume "repo_stores C (n_repo n) bs"
  then show "\<exists>new lost. repo_stores C (n_repo n') (bs @ new @ lost) \<and>
     counts n new n' \<and> length lost \<le> 1 \<and>
     (x = None \<longrightarrow> lost = [] \<and> (new = [] \<longrightarrow> chain_state n' = chain_state n)) \<and>
     (if new = [] then gauges n' = gauges n else x = None \<longrightarrow> gauges n' = chain_state n')"
    using assms by (intro exI [of _ "[]"]) (simp add: chain_state_def node_height_def)
qed

lemma counted_trans:
  assumes "counted C None n1 n2" "counted C x n2 n3"
  shows "counted C x n1 n3"
  unfolding counted_def
proof (intro allI impI)
  fix bs assume "repo_stores C (n_repo n1) bs"
  then obtain new where a: "repo_stores C (n_repo n2) (bs @ new)" "counts n1 new n2"
    "new = [] \<longrightarrow> chain_state n2 = chain_state n1" "if new = [] then gauges n2 = gauges n1 else gauges n2 = chain_state n2"
    using assms(1) by (auto simp: counted_def)
  then obtain more lost where b: "repo_stores C (n_repo n3) (bs @ (new @ more) @ lost)" "counts n2 more n3"
    "length lost \<le> 1" "x = None \<longrightarrow> lost = [] \<and> (more = [] \<longrightarrow> chain_state n3 = chain_state n2)"
    "if more = [] then gauges n3 = gauges n2 else x = None \<longrightarrow> gauges n3 = chain_state n3"
    using assms(2) unfolding counted_def by (metis append.assoc)
  have "if new @ more = [] then gauges n3 = gauges n1 else x = None \<longrightarrow> gauges n3 = chain_state n3"
    using a(4) b(4,5) by (auto split: if_splits)
  then show "\<exists>new lost. repo_stores C (n_repo n3) (bs @ new @ lost) \<and>
     counts n1 new n3 \<and> length lost \<le> 1 \<and>
     (x = None \<longrightarrow> lost = [] \<and> (new = [] \<longrightarrow> chain_state n3 = chain_state n1)) \<and>
     (if new = [] then gauges n3 = gauges n1 else x = None \<longrightarrow> gauges n3 = chain_state n3)"
    using a b by (intro exI [of _ "new @ more"] exI [of _ lost]) (simp add: counts_def)
qed

lemma new_engine_metrics: "n_metrics (snd (new_engine C n)) = n_metrics n"
  by (simp add: new_engine_def Let_def split: sum.splits option.splits)

lemma observed_metrics:
  assumes "observed b (new_engine C n) = (x, n')"
  shows "n_repo n' = n_repo n" "if x = None then gauges n' = chain_state n' \<and> counts n [b] n' else n_metrics n' = n_metrics n"
proof -
  obtain y m where m: "new_engine C n = (y, m)" by fastforce
  have "n_metrics m = n_metrics n" "n_repo m = n_repo n" using new_engine_metrics [of C n] new_engine_repo [of C n] m by simp_all
  then show "n_repo n' = n_repo n"
    "if x = None then gauges n' = chain_state n' \<and> counts n [b] n' else n_metrics n' = n_metrics n"
    using assms m
    by (cases y; auto simp: observed_def observe_append_def gauges_def chain_state_def counts_def node_height_def)+
qed

lemma append_metrics:
  assumes "append_and_advance C b n = (x, n')"
  shows "x \<noteq> None \<and> n' = n \<or> (\<exists>rows. repo_append C (n_fits n) (n_repo n) b = Inr rows \<and> n_repo n' = rows \<and>
    (if x = None then gauges n' = chain_state n' \<and> counts n [b] n' else n_metrics n' = n_metrics n))"
proof (cases "repo_append C (n_fits n) (n_repo n) b")
  case (Inr rows)
  define n2 where "n2 = (forget_committed C b (n\<lparr>n_repo := rows\<rparr>))
    \<lparr>n_journal_store := prune_below (n_journal_store (forget_committed C b (n\<lparr>n_repo := rows\<rparr>))) (block_index b + 1)\<rparr>"
  have n2: "n_repo n2 = rows" "n_metrics n2 = n_metrics n" by (simp_all add: n2_def forget_committed_def Let_def)
  have out: "n_repo n' = rows \<and> (if x = None then gauges n' = chain_state n' \<and> counts n [b] n'
      else n_metrics n' = n_metrics n)" if "observed b (new_engine C m) = (x, n')" "n_repo m = rows" "n_metrics m = n_metrics n" for m
    using observed_metrics [OF that(1)] that(2,3) by (simp add: counts_def split: if_splits)
  have "observed b (new_engine C n2) = (x, n') \<or> (\<exists>S. observed b (new_engine C (n2\<lparr>n_active := S\<rparr>)) = (x, n')) \<or> x \<noteq> None \<and> n' = n2"
    using assms unfolding append_and_advance_def Inr sum.case Let_def n2_def [symmetric] by (auto split: if_splits sum.splits)
  then show ?thesis using out n2 Inr by auto
qed (use assms in \<open>auto simp: append_and_advance_def\<close>)

lemma counted_append:
  assumes "append_and_advance C b n = (x, n')"
  shows "counted C x n n'"
  using append_metrics [OF assms]
proof (elim disjE exE conjE)
  fix rows
  assume r: "repo_append C (n_fits n) (n_repo n) b = Inr rows" "n_repo n' = rows"
    and m: "if x = None then gauges n' = chain_state n' \<and> counts n [b] n' else n_metrics n' = n_metrics n"
  show ?thesis
  proof (cases "x = None")
    case True
    then show ?thesis
      using repo_append_Inr [OF _ r(1)] r(2) m unfolding counted_def by (intro allI impI exI [of _ "[b]"] exI [of _ "[]"]) auto
  next
    case False
    then show ?thesis
      using repo_append_Inr [OF _ r(1)] r(2) m unfolding counted_def
      by (intro allI impI exI [of _ "[]"] exI [of _ "[b]"]) (auto simp: gauges_def counts_def)
  qed
qed (simp add: counted_same counts_def)

lemma call_engine_metrics: "call_engine f n = (r, n') \<Longrightarrow> n_metrics n' = n_metrics n"
  by (auto simp: call_engine_def Let_def split: option.splits prod.splits)

interpretation counting: node_steps C "counted C" for C
proof (unfold_locales, goal_cases)
  case (2 n1 n2 x n3) then show ?case by (rule counted_trans)
next
  case (4 f n r n')
  then show ?case using call_engine_frame [OF 4(2)] call_engine_metrics [OF 4(2)]
    by (intro counted_same) (simp_all add: gauges_def counts_def)
next
  case (5 n x n')
  then show ?case
    using new_engine_repo [of C n] new_engine_frame(5) [of C n] new_engine_metrics [of C n]
    by (intro counted_same) (simp_all add: gauges_def counts_def)
next
  case (6 b n x n') then show ?case by (intro counted_append)
qed (simp_all add: counted_same gauges_def counts_def enqueue_inbound_def observe_inbox_def send_def)

lemma make_node_metrics: "make_node C key V fits rows now reads store limit = Inr n \<Longrightarrow> n_metrics n = initial_metrics"
  by (auto simp: make_node_def Let_def new_engine_def split: sum.splits option.splits if_splits prod.splits)


section \<open>Properties\<close>

text \<open>C15: the collectors agree with the chain. Start a node on any repository and let anything
  happen to it. Since the start it has added some blocks, and the counters read exactly their
  number and the number of tampered records in them; only a block whose storing was followed by
  an exception is missing. After a run without exceptions that added a block, the gauges show the
  height, the size of the active set and its quorum; as long as the node has added nothing, they
  read zero, whatever the height of the chain it was started on.\<close>

theorem metrics_agree_with_chain:
  assumes "make_node C key V fits rows now reads store limit = Inr n0" "repo_stores C (n_repo n0) bs"
    "run_node C n0 is = Some (x, n)"
  shows "\<exists>new lost. repo_load_all (n_repo n) = Inr (bs @ new @ lost) \<and> length lost \<le> 1 \<and> (x = None \<longrightarrow> lost = []) \<and>
    BLOCKS_COMMITTED (n_metrics n) = int (length new) \<and> TAMPERING_DETECTED (n_metrics n) = sum_list (map tampered_count new) \<and>
    (if new = [] then CHAIN_HEIGHT (n_metrics n) = 0 \<and> VALIDATORS_ACTIVE (n_metrics n) = 0 \<and> QUORUM (n_metrics n) = 0
     else x = None \<longrightarrow> CHAIN_HEIGHT (n_metrics n) = node_height n \<and> VALIDATORS_ACTIVE (n_metrics n) = vs_size (n_active n) \<and>
       QUORUM (n_metrics n) = quorum (n_active n))"
proof -
  obtain new lost where r: "repo_stores C (n_repo n) (bs @ new @ lost)" "counts n0 new n" "length lost \<le> 1"
    "x = None \<longrightarrow> lost = []" "if new = [] then gauges n = gauges n0 else x = None \<longrightarrow> gauges n = chain_state n"
    using counting.ran [OF assms(3)] assms(2) unfolding counted_def by blast
  have "n_metrics n0 = initial_metrics" by (rule make_node_metrics [OF assms(1)])
  then have "BLOCKS_COMMITTED (n_metrics n) = int (length new)" "TAMPERING_DETECTED (n_metrics n) = sum_list (map tampered_count new)"
    "new = [] \<Longrightarrow> gauges n = (0, 0, 0)"
    using r(2,5) by (simp_all add: counts_def gauges_def initial_metrics_def)
  then show ?thesis
    using sql.load_all_eq [OF r(1)] r(3-5)
    by (intro exI [of _ new] exI [of _ lost]) (auto simp: gauges_def chain_state_def split: if_splits)
qed

theorem metrics_agree_with_chain_witness:
  "\<exists>n. run_node short_crypto solo [SubmitRecords [demo_record]] = Some (None, n) \<and> CHAIN_HEIGHT (n_metrics n) = 1 \<and>
     BLOCKS_COMMITTED (n_metrics n) = 1"
proof -
  have st: "repo_stores short_crypto (n_repo solo) [solo_genesis]" using pushed_demo_chain(1) by (simp add: inv_at_def)
  have "completed (run_node short_crypto solo [SubmitRecords [demo_record]]) (\<lambda>n. node_height n = 1)" by code_simp
  then obtain n where n: "run_node short_crypto solo [SubmitRecords [demo_record]] = Some (None, n)" "node_height n = 1"
    by (blast dest: completedD)
  obtain new where new: "repo_load_all (n_repo n) = Inr ([solo_genesis] @ new)" "BLOCKS_COMMITTED (n_metrics n) = int (length new)"
    "new \<noteq> [] \<Longrightarrow> CHAIN_HEIGHT (n_metrics n) = node_height n" "repo_stores short_crypto (n_repo n) ([solo_genesis] @ new)"
    using metrics_agree_with_chain [OF solo_made [unfolded solo_on_def] st n(1)] growing.ran [OF n(1)] st sql.load_all_eq
    unfolding extends_def by (metis append_Nil2 sum.inject(2))
  have "length new = 1" using sql.height_eq [OF new(4)] n(2) by (simp add: node_height_def)
  moreover from this have "CHAIN_HEIGHT (n_metrics n) = 1" using new(3) n(2) by fastforce
  ultimately show ?thesis using n(1) new(2) by auto
qed

end
