(* ===== verification/Process.thy ===== *)
theory Process
  imports App Gateway Server_Properties Node_Metrics
begin

text \<open>
  The process of \<open>app.py\<close>: its settings with their defaults (\<open>config.py\<close>), \<open>main\<close> and \<open>run\<close>,
  which build the node and its server and start the tasks. The properties compose the
  theories of the parts into statements about started processes.
\<close>

section \<open>Settings\<close>

record app_settings = settings +
  st_orion :: orion_settings
  st_bind_host :: string
  st_bind_port :: int
  st_block_interval :: rat
  st_rate_limit_rps :: rat
  st_rate_limit_burst :: int
  st_max_body_bytes :: int
  st_storage_url :: string
  st_otel_enabled :: bool
  st_otel_endpoint :: string
  st_otel_service_name :: string
  st_log_level :: string
  st_debug_api :: bool
  st_pseudonymize_entities :: bool

definition default_node :: secret_settings where
  \<comment> \<open>the secrets of \<open>NodeSettings\<close> and \<open>Settings\<close>\<close>
  "default_node = \<lparr>private_key_hex = [], private_key_file = [], cluster_token = [], cluster_token_file = [],
     commit_key_hex = [], commit_key_file = []\<rparr>"

definition default_orion :: orion_settings where
  "default_orion = \<lparr>or_host = ''localhost'', or_port = 27017, or_username = ''helix'', or_password = [], or_database = ''orion'',
     or_tls = False, or_tls_ca_file = [], or_poll_interval = 5, or_use_change_streams = False\<rparr>"

definition default_tls :: tls_settings where
  "default_tls = \<lparr>tls_enabled = False, cert_file = [], key_file = [], ca_file = [], mutual = False,
     client_cert_file = [], client_key_file = []\<rparr>"

definition default_settings :: app_settings where
  \<comment> \<open>\<open>Settings()\<close> without environment and \<open>.env\<close> file\<close>
  "default_settings =
     \<lparr>st_secrets = default_node, st_node_id = ''node-1'', st_peers = [], st_advertise = [], st_bootstrap_genesis = False,
      st_max_inbox = 10000, st_tls = default_tls, st_webhook_url = [], st_orion = default_orion, st_bind_host = ''0.0.0.0'',
      st_bind_port = 8000, st_block_interval = 5, st_rate_limit_rps = 0, st_rate_limit_burst = 200,
      st_max_body_bytes = 1048576, st_storage_url = ''sqlite:///data/helix_chain.db'', st_otel_enabled = False,
      st_otel_endpoint = [], st_otel_service_name = ''helix-node'', st_log_level = ''INFO'', st_debug_api = False,
      st_pseudonymize_entities = False\<rparr>"


section \<open>Starting\<close>

datatype task =
    Serve
  | InboundWorker
  | MonitorLoop
  | RoundTimerLoop rat
  | DiscoveryLoop rat
  | WebhookRun string

record process =
  pr_app :: app
  pr_server :: server
  pr_host :: string
  pr_port :: int
  pr_ssl :: "(string, kwarg) dict"
  pr_tasks :: "task list"

definition run_app ::
    "crypto \<Rightarrow> (string \<Rightarrow> string result) \<Rightarrow> (string \<Rightarrow> http_response) \<Rightarrow> (int \<Rightarrow> bool) \<Rightarrow> repo \<Rightarrow> (nat \<Rightarrow> int)
     \<Rightarrow> nat \<Rightarrow> journal_store \<Rightarrow> app_settings \<Rightarrow> node_error + process" where
  \<comment> \<open>\<open>run\<close> up to the start of the tasks\<close>
  "run_app C read_text get fits rows now reads store st =
     bindr (build_node C read_text get fits rows now reads store (settings.truncate st)) (\<lambda>a.
     bindr (raised (resolved_cluster_token read_text (st_secrets st))) (\<lambda>token.
     bindr (raised (app_confidentiality read_text (st_secrets st) (st_pseudonymize_entities st))) (\<lambda>cf.
     let api = create_app (a_node a) (st_node_id st) (a_registry a) (st_debug_api st) token
                 (st_rate_limit_rps st) (st_rate_limit_burst st) (st_max_body_bytes st) cf in
     bindr (raised (uvicorn_ssl_kwargs (st_tls st))) (\<lambda>ssl.
       let tasks = [Serve, InboundWorker, MonitorLoop, RoundTimerLoop (round_timeout (st_block_interval st)),
                    DiscoveryLoop (discovery_interval (st_block_interval st))];
           tasks = (case a_webhook a of None \<Rightarrow> tasks | Some hook \<Rightarrow> tasks @ [WebhookRun hook])
       in Inr \<lparr>pr_app = a, pr_server = api, pr_host = st_bind_host st, pr_port = st_bind_port st, pr_ssl = ssl,
               pr_tasks = tasks\<rparr>))))"

definition main_app ::
    "bool \<Rightarrow> crypto \<Rightarrow> (string \<Rightarrow> string result) \<Rightarrow> (string \<Rightarrow> http_response) \<Rightarrow> (int \<Rightarrow> bool) \<Rightarrow> repo \<Rightarrow> (nat \<Rightarrow> int)
     \<Rightarrow> nat \<Rightarrow> journal_store \<Rightarrow> app_settings \<Rightarrow> tracer \<times> (node_error + process)" where
  \<comment> \<open>\<open>main\<close>\<close>
  "main_app sdk_importable C read_text get fits rows now reads store st =
     (configure sdk_importable (st_otel_enabled st) (st_otel_endpoint st) (st_otel_service_name st) NoopTracer,
      run_app C read_text get fits rows now reads store st)"

definition monitor_loop ::
    "crypto \<Rightarrow> (string \<Rightarrow> string result) \<Rightarrow> app_settings \<Rightarrow> observation list \<Rightarrow> node \<Rightarrow> (loop_end \<times> monitor) option" where
  \<comment> \<open>creating the indexes has no effect on the state, and its failure is logged\<close>
  "monitor_loop C read_text st obs n =
     (let mo = \<lparr>mo_seen = [], mo_node = n\<rparr> in
      case app_confidentiality read_text (st_secrets st) (st_pseudonymize_entities st) of
        Inl e \<Rightarrow> Some (Escaped, mo)
      | Inr cf \<Rightarrow>
          if or_use_change_streams (st_orion st) then change_stream_loop C cf obs mo
          else map_option (\<lambda>mo'. (Waiting, mo')) (polling_loop C cf obs mo))"

definition gateway_run_check ::
    "crypto \<Rightarrow> confidentiality \<Rightarrow> int \<Rightarrow> (string \<Rightarrow> string option) \<Rightarrow> mongo \<Rightarrow> gateway \<Rightarrow> string list \<Rightarrow> node
     \<Rightarrow> (gateway \<times> string list \<times> outcome) option" where
  \<comment> \<open>\<open>run_check\<close> with the checker reading through the gateway\<close>
  "gateway_run_check C cf now hostname db gw seen n =
     (case gateway_check C cf now hostname db gw of
        (Inl e, gw') \<Rightarrow> Some (gw', seen, (Some (Raised e), n))
      | (Inr rs, gw') \<Rightarrow>
          let (seen', fresh) = filter_new C seen rs in
          (case (if fresh \<noteq> [] then submit_records C fresh n else Some (None, n)) of
             None \<Rightarrow> None
           | Some (Some e, n') \<Rightarrow> Some (gw', seen', (Some e, n'))
           | Some (None, n') \<Rightarrow> map_option (\<lambda>out. (gw', seen', out)) (tick C n')))"

lemma gateway_run_check_refines:
  assumes "gateway_check C cf now hostname db gw = (Inr (check C cf now main brokers obs), gw')"
  shows "gateway_run_check C cf now hostname db gw seen n
    = map_option (\<lambda>(seen', out). (gw', seen', out)) (run_check C cf now main brokers obs seen n)"
  using assms
  by (simp add: gateway_run_check_def run_check_def Let_def option.map_comp comp_def split: prod.splits option.splits)


section \<open>What is started\<close>

lemma truncate_simps [simp]:
  "st_secrets (settings.truncate st) = st_secrets st" "st_peers (settings.truncate st) = st_peers st"
  "st_bootstrap_genesis (settings.truncate st) = st_bootstrap_genesis st" "st_max_inbox (settings.truncate st) = st_max_inbox st"
  "st_tls (settings.truncate st) = st_tls st"
  by (simp_all add: settings.truncate_def)

lemma run_app_Inr:
  assumes "run_app C read_text get fits rows now reads store st = Inr p"
  obtains token cf where "build_node C read_text get fits rows now reads store (settings.truncate st) = Inr (pr_app p)"
    "resolved_cluster_token read_text (st_secrets st) = Inr token"
    "pr_server p = create_app (a_node (pr_app p)) (st_node_id st) (a_registry (pr_app p)) (st_debug_api st) token
       (st_rate_limit_rps st) (st_rate_limit_burst st) (st_max_body_bytes st) cf"
    "uvicorn_ssl_kwargs (st_tls st) = Inr (pr_ssl p)"
  using assms by (auto simp: run_app_def raised_def Let_def bindr_Inr_iff split: sum.splits)

lemma build_node_keys:
  assumes "build_node C read_text get fits [] now reads store st = Inr a" "\<not> st_bootstrap_genesis st"
  obtains key V token where "private_ok key" "make_node C key V fits [] now reads store (st_max_inbox st) = Inr (a_node a)"
    "resolved_cluster_token read_text (st_secrets st) = Inr token" "make_http_transport token (Some (st_tls st)) = Inr (a_transport a)"
proof -
  have ok: "private_from_hex h = Inr k \<Longrightarrow> private_ok k" for h k
    by (auto simp: private_from_hex_def private_ok_def bindr_Inr_iff split: if_splits)
  have "\<exists>h key V token. private_from_hex h = Inr key \<and> make_node C key V fits [] now reads store (st_max_inbox st) = Inr (a_node a) \<and>
      resolved_cluster_token read_text (st_secrets st) = Inr token \<and> make_http_transport token (Some (st_tls st)) = Inr (a_transport a)"
    using assms by (auto simp: build_node_def bootstrap_repo_def raised_def Let_def bindr_Inr_iff split: sum.splits if_splits) blast+
  then show thesis using that ok by blast
qed

lemma started_process:
  assumes "run_app C read_text get fits [] now reads store st = Inr p" "\<not> st_bootstrap_genesis st"
    "ed25519_correct C" "store_upto 0 store"
  obtains V :: validator_set where "inv_at C (sv_node (pr_server p)) [genesis_block C (Some (vs_validators V)) ZERO_HASH 0]"
    "n_max_inbox (sv_node (pr_server p)) = st_max_inbox st" "n_inbox (sv_node (pr_server p)) = []"
    "sv_node (pr_server p) = a_node (pr_app p)" "private_ok (n_private_key (sv_node (pr_server p)))"
proof -
  obtain token cf where b: "build_node C read_text get fits [] now reads store (settings.truncate st) = Inr (pr_app p)"
    "pr_server p = create_app (a_node (pr_app p)) (st_node_id st) (a_registry (pr_app p)) (st_debug_api st) token
       (st_rate_limit_rps st) (st_rate_limit_burst st) (st_max_body_bytes st) cf"
    using run_app_Inr [OF assms(1)] by metis
  obtain key V where k: "private_ok key" "make_node C key V fits [] now reads store (st_max_inbox st) = Inr (a_node (pr_app p))"
    using build_node_keys [OF b(1)] assms(2) by (metis truncate_simps(3,4))
  have "sv_node (pr_server p) = a_node (pr_app p)" using b(2) by (simp add: create_app_def)
  then show thesis using make_node_start [OF k(2) assms(3) k(1) assms(4)] k(1) by (intro that [of V]) simp_all
qed

lemma started_tokens:
  assumes "run_app C read_text get fits [] now reads store st = Inr p" "\<not> st_bootstrap_genesis st"
    "resolved_cluster_token read_text (st_secrets st) = Inr token"
  shows "sv_accepted (pr_server p) = accepted_tokens token" "make_http_transport token (Some (st_tls st)) = Inr (a_transport (pr_app p))"
proof -
  obtain token' cf where b: "build_node C read_text get fits [] now reads store (settings.truncate st) = Inr (pr_app p)"
    "resolved_cluster_token read_text (st_secrets st) = Inr token'"
    "pr_server p = create_app (a_node (pr_app p)) (st_node_id st) (a_registry (pr_app p)) (st_debug_api st) token'
       (st_rate_limit_rps st) (st_rate_limit_burst st) (st_max_body_bytes st) cf"
    using run_app_Inr [OF assms(1)] by metis
  show "sv_accepted (pr_server p) = accepted_tokens token" using b(2,3) assms(3) by (simp add: create_app_def)
  show "make_http_transport token (Some (st_tls st)) = Inr (a_transport (pr_app p))"
    using build_node_keys [OF b(1)] assms(2,3) by (metis sum.inject(2) truncate_simps(1,3,5))
qed

lemma default_settings_exit:
  "run_app C read_text get fits rows now reads store default_settings = Inl (Raised SystemExit)"
  by (simp add: run_app_def build_node_def default_settings_def default_node_def resolved_private_key_hex_def read_secret_def
      raised_def settings.truncate_def)


section \<open>Properties\<close>

text \<open>C24: tampering at a broker reaches the mempool or the chain. A validator's monitoring step reads
  the main broker and the brokers its subscriptions refer to, and completes without an
  exception. Take a value stored at a federated broker that differs from the last value the
  main broker has for the entity and attribute, or that the main broker does not have, and assume
  that neither the deduper nor the mempool has seen its content before, and that SHA-256 does not
  collide on the texts of the records involved. Then the record of this observation with the
  verdict TAMPERED, signed by the node, verifies against the active set and is pending, or a block
  stored in this step holds a record of the same observation and verdict.\<close>

theorem tampering_reaches_mempool:
  assumes "clients_ok gw" "st = gw_settings gw" "entities_at db st (or_host st) = Inr main"
    "distinct_values db (new_client st (or_host st)) (or_database st) ''csubs'' ''reference'' = Inr refs"
    "brokers = federated_hosts hostname (or_host st) [] refs" "\<forall>b \<in> set brokers. entities_at db st b = Inr (obs b)"
    "broker \<in> set brokers" "ob \<in> set (obs broker)" "\<not> last_agrees main ob"
    and r: "r = observed_record C cf now broker ob TAMPERED"
    and "dedup_key C r \<notin> set seen" "content_key C r \<notin> set (n_mempool_seen n)"
    "ed25519_correct C" "private_ok (n_private_key n)" "contains (n_active n) (n_me C n)" "repo_stores C (n_repo n) bs"
    "gateway_run_check C cf now hostname db gw seen n = Some (gw', seen', (None, n'))" "repo_load_all (n_repo n') = Inr bs'"
    and cf: "collision_free C (dedup_text ` set (check C cf now main brokers obs))"
    "collision_free C (signing_bytes ` (insert r (\<Union>b \<in> set bs'. set (records b))))"
  shows "record_verify C (signed C r (n_private_key n)) (n_active n) = Inr True \<and> r_verdict r = TAMPERED \<and>
    (signed C r (n_private_key n) \<in> set (n_pending n') \<or>
     (\<exists>b \<in> set (drop (length bs) bs'). \<exists>s \<in> set (records b). same_observation s r))"
proof -
  obtain gw1 where "gateway_check C cf now hostname db gw = (Inr (check C cf now main brokers obs), gw1)"
    using gateway_check_ok [OF assms(1-6)] by blast
  then have run: "run_check C cf now main brokers obs seen n = Some (seen', (None, n'))"
    using assms(17) by (auto simp: gateway_run_check_refines)
  obtain new where new: "repo_stores C (n_repo n') (bs @ new)"
    "signed C r (n_private_key n) \<in> set (n_pending n') \<or> stored_in C new (signed C r (n_private_key n))"
    using tampered_retained [OF run assms(13-16,7-9) r assms(11,12) cf(1)] by blast
  have bs': "bs' = bs @ new" using sql.load_all_eq [OF new(1)] assms(18) by simp
  have "\<exists>b \<in> set new. \<exists>s \<in> set (records b). same_observation s r" if st: "stored_in C new (signed C r (n_private_key n))"
  proof -
    obtain b s where s: "b \<in> set new" "s \<in> set (records b)" "content_key C s = content_key C r"
      using st by (auto simp: stored_in_def content_key_signed)
    have "signing_bytes s = signing_bytes r"
      using inj_onD [OF cf(2) [unfolded collision_free_def], of "signing_bytes s" "signing_bytes r"] s bs'
      by (auto simp: content_key_def sha256_hex_def hex_of_bytes_inj)
    then show ?thesis using s by (auto simp: signing_bytes_eq_iff)
  qed
  then show ?thesis
    using new(2) bs' record_verify_signed [OF assms(13,14)] assms(15) by (auto simp: n_me_def r observed_record_def)
qed

definition demo_round :: "(gateway \<times> string list \<times> outcome) option" where
  "demo_round = gateway_run_check short_crypto (make_confidentiality None False) 5 Some mongo_demo (make_gateway orion_demo) [] solo"

theorem tampering_reaches_mempool_witness:
  "\<exists>gw seen n bs. demo_round = Some (gw, seen, (None, n)) \<and> repo_load_all (n_repo n) = Inr bs \<and>
     (let r = observed_record short_crypto (make_confidentiality None False) 5 ''f'' (demo_obs (JInt 2) ''f'') TAMPERED in
      signed short_crypto r (n_private_key solo) \<in> set (n_pending n) \<or>
      (\<exists>b \<in> set (drop 1 bs). \<exists>s \<in> set (records b). same_observation s r))"
proof -
  let ?cf = "make_confidentiality None False"
  define r where "r = observed_record short_crypto ?cf 5 ''f'' (demo_obs (JInt 2) ''f'') TAMPERED"
  have "case demo_round of Some (_, _, None, n) \<Rightarrow> (case repo_load_all (n_repo n) of Inl _ \<Rightarrow> False
      | Inr bs \<Rightarrow> list_all (\<lambda>b. list_all (\<lambda>s. signing_bytes s = signing_bytes r) (records b)) bs) | _ \<Rightarrow> False"
    unfolding r_def by code_simp
  then obtain gw seen n where d0: "demo_round = Some (gw, seen, (None, n))" "case repo_load_all (n_repo n) of Inl _ \<Rightarrow> False
      | Inr bs \<Rightarrow> list_all (\<lambda>b. list_all (\<lambda>s. signing_bytes s = signing_bytes r) (records b)) bs"
    by (cases demo_round) (auto split: option.splits)
  then obtain bs where "repo_load_all (n_repo n) = Inr bs" "\<forall>b \<in> set bs. \<forall>s \<in> set (records b). signing_bytes s = signing_bytes r"
    by (cases "repo_load_all (n_repo n)") (auto simp: list_all_iff)
  note d = d0(1) this
  have k: "private_ok (n_private_key solo)" by (simp add: solo_key demo_key_ok)
  have m: "contains (n_active solo) (n_me short_crypto solo)" by code_simp
  have st: "repo_stores short_crypto (n_repo solo) [solo_genesis]" using pushed_demo_chain(1) by (simp add: inv_at_def)
  have seen: "content_key short_crypto r \<notin> set (n_mempool_seen solo)" unfolding r_def by code_simp
  have "signing_bytes ` insert r (\<Union>b \<in> set bs. set (records b)) = {signing_bytes r}" using d(3) by auto
  then have c2: "collision_free short_crypto (signing_bytes ` insert r (\<Union>b \<in> set bs. set (records b)))"
    unfolding collision_free_def by (simp only: inj_on_insert) simp
  have na: "\<not> last_agrees [demo_obs (JInt 1) ''m''] (demo_obs (JInt 2) ''f'')" by (simp add: demo_obs_def)
  have c1: "collision_free short_crypto (dedup_text ` set (check short_crypto ?cf 5 [demo_obs (JInt 1) ''m''] [''f''] (\<lambda>b. [demo_obs (JInt 2) b])))"
    by (simp add: check_verdict_eq collision_free_def)
  have "signed short_crypto r (n_private_key solo) \<in> set (n_pending n) \<or>
      (\<exists>b \<in> set (drop 1 bs). \<exists>s \<in> set (records b). same_observation s r)"
    using tampering_reaches_mempool [OF clients_ok_start(1) demo_gateway(1-4) _ _ _ na r_def _ seen short_crypto_correct k m st
        d(1) [unfolded demo_round_def] d(2) c1 c2] demo_gateway(5) by simp
  then show ?thesis
    using d(1,2) by (intro exI [of _ gw] exI [of _ seen] exI [of _ n] exI [of _ bs]) (simp add: Let_def flip: r_def)
qed

text \<open>C22: fresh processes with matching configurations form a network. Start two processes on empty
  databases, without genesis bootstrap, with settings that name the same set of keys, in any
  order and with any addresses, and with the same ASCII token. Then both hold the same single block and the same active
  validators, each one's server takes requests with the authorisation that the other's transport
  sends, and whatever requests then arrive at a server, all of them are answered, the chain
  stays an extension of that block, and the inbox stays within the configured limit.\<close>

theorem processes_interoperate:
  assumes "ed25519_correct C" "store_upto 0 store" "store_upto 0 store'" "is_ascii token"
    "run_app C read_text get fits [] now reads store st = Inr p" "\<not> st_bootstrap_genesis st"
    "run_app C read_text' get' fits' [] now' reads' store' st' = Inr p'" "\<not> st_bootstrap_genesis st'"
    "resolved_cluster_token read_text (st_secrets st) = Inr token" "resolved_cluster_token read_text' (st_secrets st') = Inr token"
    "insert (n_me C (a_node (pr_app p))) (p_public_key ` set (st_peers st))
       = insert (n_me C (a_node (pr_app p'))) (p_public_key ` set (st_peers st'))"
  shows "\<exists>g. repo_load_all (n_repo (sv_node (pr_server p))) = Inr [g] \<and> repo_load_all (n_repo (sv_node (pr_server p'))) = Inr [g] \<and>
    n_active (sv_node (pr_server p)) = n_active (sv_node (pr_server p')) \<and>
    require_token (sv_accepted (pr_server p)) (t_authorization (a_transport (pr_app p'))) = None \<and>
    (\<forall>rqs. \<exists>s new. serve_all C rqs (pr_server p) = Some s \<and> repo_load_all (n_repo (sv_node s)) = Inr (g # new) \<and>
       (0 < st_max_inbox st \<longrightarrow> int (length (n_inbox (sv_node s))) \<le> st_max_inbox st))"
proof -
  obtain V :: validator_set where V: "inv_at C (sv_node (pr_server p)) [genesis_block C (Some (vs_validators V)) ZERO_HASH 0]"
    "n_max_inbox (sv_node (pr_server p)) = st_max_inbox st" "n_inbox (sv_node (pr_server p)) = []"
    "sv_node (pr_server p) = a_node (pr_app p)" "private_ok (n_private_key (sv_node (pr_server p)))"
    by (rule started_process [OF assms(5,6,1,2)])
  let ?g = "genesis_block C (Some (vs_validators V)) ZERO_HASH 0" and ?s = "pr_server p"
  have same: "n_repo (a_node (pr_app p)) = n_repo (a_node (pr_app p')) \<and> n_active (a_node (pr_app p)) = n_active (a_node (pr_app p'))"
    using run_app_Inr [OF assms(5)] run_app_Inr [OF assms(7)] same_genesis assms(6,8,11) by (metis truncate_simps(2,3))
  have p': "sv_node (pr_server p') = a_node (pr_app p')" by (rule started_process [OF assms(7,8,1,3)])
  have st: "repo_stores C (n_repo (sv_node ?s)) [?g]" using V(1) by (simp add: inv_at_def)
  have "\<exists>s new. serve_all C rqs ?s = Some s \<and> repo_load_all (n_repo (sv_node s)) = Inr (?g # new) \<and>
      (0 < st_max_inbox st \<longrightarrow> int (length (n_inbox (sv_node s))) \<le> st_max_inbox st)" for rqs
  proof -
    obtain s where s: "serve_all C rqs ?s = Some s" using serve_all_returns [OF assms(1) V(5)] by blast
    obtain new where "repo_stores C (n_repo (sv_node s)) ([?g] @ new)"
      using serve_all_extends [OF s] st unfolding extends_def by blast
    then show ?thesis
      using s sql.load_all_eq serve_all_extends [OF s] V(2,3) by (fastforce simp: inbox_step_def inbox_bounded_def)
  qed
  moreover have "require_token (sv_accepted ?s) (t_authorization (a_transport (pr_app p'))) = None"
    using own_token_accepted [OF started_tokens(2) [OF assms(7,8,10)] assms(4)] started_tokens(1) [OF assms(5,6,9)] by simp
  ultimately show ?thesis using sql.load_all_eq [OF st] same p' V(4) by auto
qed

definition demo_app :: "char \<Rightarrow> peer list \<Rightarrow> app_settings" where
  "demo_app c ps = default_settings\<lparr>st_secrets := default_node\<lparr>private_key_hex := private_to_hex (demo_key c), cluster_token := ''t''\<rparr>,
     st_peers := ps\<rparr>"

definition demo_run :: "char \<Rightarrow> peer list \<Rightarrow> node_error + process" where
  "demo_run c ps = run_app short_crypto (\<lambda>_. Inl OSError) (\<lambda>_. HTTPError) (\<lambda>_. True) [] (\<lambda>_. 7) 0 NullJournalStore (demo_app c ps)"

theorem processes_interoperate_witness:
  "\<exists>p p' g. demo_run (CHR ''a'') [demo_peer (CHR ''b'') ''h''] = Inr p \<and>
     demo_run (CHR ''b'') [demo_peer (CHR ''b'') ''g'', demo_peer (CHR ''a'') ''g''] = Inr p' \<and>
     repo_load_all (n_repo (sv_node (pr_server p))) = Inr [g] \<and> repo_load_all (n_repo (sv_node (pr_server p'))) = Inr [g] \<and>
     require_token (sv_accepted (pr_server p)) (t_authorization (a_transport (pr_app p'))) = None"
proof -
  let ?me = "\<lambda>r c. case r of Inl _ \<Rightarrow> False | Inr p \<Rightarrow> n_me short_crypto (a_node (pr_app p)) = PublicKey [c]"
  have "?me (demo_run (CHR ''a'') [demo_peer (CHR ''b'') ''h'']) (CHR ''a'')"
    "?me (demo_run (CHR ''b'') [demo_peer (CHR ''b'') ''g'', demo_peer (CHR ''a'') ''g'']) (CHR ''b'')" by code_simp+
  then obtain p p' where p: "demo_run (CHR ''a'') [demo_peer (CHR ''b'') ''h''] = Inr p"
    "demo_run (CHR ''b'') [demo_peer (CHR ''b'') ''g'', demo_peer (CHR ''a'') ''g''] = Inr p'"
    "n_me short_crypto (a_node (pr_app p)) = PublicKey ''a''" "n_me short_crypto (a_node (pr_app p')) = PublicKey ''b''"
    by (auto split: sum.splits)
  have t: "resolved_cluster_token (\<lambda>_. Inl OSError) (st_secrets (demo_app c ps)) = Inr ''t''"
    "\<not> st_bootstrap_genesis (demo_app c ps)" for c ps
    by (simp_all add: demo_app_def default_node_def default_settings_def resolved_cluster_token_def read_secret_def)
  have "is_ascii ''t''" by code_simp
  from processes_interoperate [OF short_crypto_correct _ _ this p(1) [unfolded demo_run_def] t(2) p(2) [unfolded demo_run_def] t(2) t(1) t(1)]
  show ?thesis using p by (auto simp: demo_app_def default_settings_def demo_peer_def)
qed

end
