(* ===== verification/Spec2Isabelle.thy ===== *)
theory Spec2Isabelle
  imports Agreement_Failure Engine_Progress Network Tools Legacy Process
begin

text \<open>
  Verification of the Helix blockchain (\<^verbatim>\<open>src/src/helix_blockchain\<close>): a permissioned
  blockchain that records tampering with FIWARE Orion context data. Validators observe brokers,
  sign integrity records, agree on blocks of records with a Byzantine-fault-tolerant protocol,
  store the finalized chain, and serve it over HTTP.

  \<^bold>\<open>The program.\<close> Collectors compare the brokers and produce records; the node takes records
  into its mempool, gossips them and hands them to the consensus engine of the next height; the
  engine exchanges signed messages, writes its votes to a journal before sending them, and
  finalizes blocks with commit seals; the node checks finality, appends the block to the
  repository, applies the validator changes it carries, and starts the next engine. Nodes that
  lag behind fetch blocks from peers. A transport posts to the peers of a registry that
  discovery keeps up to date; the server on the other side guards, authenticates and dispatches
  to the node.

  \<^bold>\<open>The theories,\<close> each with the source it models:
  \<^item> \<open>Helix_Prelude\<close>, \<open>Py_Text\<close>: the Python vocabulary (exceptions as values, insertion-ordered
    dictionaries, hexadecimal, decimal numbers, \<open>strip\<close>, \<open>split\<close>, \<open>int\<close>). \<open>Py_Float\<close>: the
    arithmetic of floats, rounded to 53 bits, and the bound on its error.
  \<^item> \<open>Canonical\<close>: \<^verbatim>\<open>domain/canonical.py\<close>; canonical bytes are a normal form.
  \<^item> \<open>Crypto\<close>: \<^verbatim>\<open>domain/crypto.py\<close>, over a record of primitives.
  \<^item> \<open>Merkle\<close>: \<^verbatim>\<open>domain/merkle.py\<close>; completeness and soundness of inclusion proofs, what the root
    fixes and what it does not.
  \<^item> \<open>Validator_Set\<close>: \<^verbatim>\<open>consensus/validator_set.py\<close>; quorum intersection, proposer rotation.
  \<^item> \<open>Records\<close>, \<open>Membership\<close>, \<open>Block\<close>: \<^verbatim>\<open>domain/records.py\<close>, \<^verbatim>\<open>domain/membership.py\<close>,
    \<^verbatim>\<open>domain/block.py\<close>; signatures and identities, changes as an operation on sets of keys and
    their replay, the validated in-memory chain.
  \<^item> \<open>Messages\<close>, \<open>Journal\<close>: \<^verbatim>\<open>consensus/messages.py\<close>, \<^verbatim>\<open>consensus/journal.py\<close>; round trips, what
    signatures cover, durability of votes.
  \<^item> \<open>Engine\<close>: \<^verbatim>\<open>consensus/engine.py\<close>, the whole state machine. \<open>Engine_Steps\<close> states what every
    operation of the engine is composed of (locale \<open>engine_steps\<close>), \<open>Engine_Invariant\<close> the
    invariant, \<open>Engine_Links\<close> the properties that depend on the tip and the journal.
  \<^item> \<open>Validator_Run\<close>, \<open>Agreement\<close>, \<open>Agreement_Failure\<close>: runs of one validator across crashes (it
    never equivocates, what it finalizes verifies, what it sends is accepted), agreement of the
    correct validators of a cluster within a round, for canonically spelled senders, and the
    executions in which agreement across rounds, agreement with other spellings, the check of a
    re-proposed block and distinctness of seals fail. \<open>Engine_Progress\<close>: the normal case decides,
    round 0 ends in a finalized block once the proposal and a quorum of votes have arrived, in any
    order.
  \<^item> \<open>Storage\<close>: \<^verbatim>\<open>storage/sql.py\<close>; the interface is the locale \<open>block_store\<close>.
  \<^item> \<open>Metrics\<close>: \<^verbatim>\<open>metrics.py\<close> and the choice of the tracer in \<^verbatim>\<open>tracing.py\<close>.
  \<^item> \<open>Node\<close>: \<^verbatim>\<open>network/node.py\<close>, with the metrics it updates. \<open>Node_Termination\<close> shows that every operation returns,
    \<open>Node_Invariant\<close> the invariant of the stored chain, \<open>Node_Runs\<close> what holds over all runs (locale
    \<open>node_steps\<close>, of outcomes that may be exceptions, interpreted for the growth of the chain, its
    finality, the mempool and the inbox), \<open>Node_Properties\<close> the statements, and
    \<open>Node_Metrics\<close> what the collectors say about the chain.
  \<^item> \<open>Config\<close>: \<^verbatim>\<open>config.py\<close> and \<^verbatim>\<open>tls.py\<close>; \<open>Discovery\<close>: \<^verbatim>\<open>network/discovery.py\<close>, the HTTP part
    of \<^verbatim>\<open>network/transport.py\<close> and the discovery loop; \<open>Network\<close>: the in-memory bus of
    \<^verbatim>\<open>network/transport.py\<close> and a cluster of nodes on it (locale \<open>bus_steps\<close> for what a delivery
    preserves, \<open>bus_noninterference\<close> for what it does not depend on).
  \<^item> \<open>Rate_Limit\<close>: \<^verbatim>\<open>network/ratelimit.py\<close> (locale \<open>metered\<close>); \<open>Server\<close>, \<open>Server_Properties\<close>:
    \<^verbatim>\<open>network/server.py\<close>; \<open>Console\<close>: the proof check of the web console, with its serializer, in
    \<^verbatim>\<open>static/index.html\<close>.
  \<^item> \<open>Collectors\<close>: \<^verbatim>\<open>collectors/integrity.py\<close>, the parsing of \<^verbatim>\<open>collectors/orion.py\<close>,
    \<^verbatim>\<open>domain/confidentiality.py\<close>; \<open>Gateway\<close>: the connections and reads of \<^verbatim>\<open>collectors/orion.py\<close> and
    the check through them; \<open>Notifier\<close>: \<^verbatim>\<open>notify/notifier.py\<close>; \<open>Bootstrap\<close>:
    \<^verbatim>\<open>network/bootstrap.py\<close> and \<open>build_node\<close> of \<^verbatim>\<open>app.py\<close>; \<open>App\<close>: the monitoring loops of
    \<^verbatim>\<open>app.py\<close>; \<open>Process\<close>: all settings, \<open>run\<close> and \<open>main\<close>.
  \<^item> \<open>Tools\<close>: \<^verbatim>\<open>tools/keygen.py\<close>, \<^verbatim>\<open>tools/gen_certs.py\<close>, \<^verbatim>\<open>scripts/gen_dev_secrets.py\<close>. \<open>Legacy\<close>: the
    proof-of-work chain and the document checks of the first version, \<^verbatim>\<open>src/legacy\<close>.

  \<^bold>\<open>Composition.\<close> \<open>Server_Properties\<close> puts the parts together: every HTTP request is an input of
  the node or leaves it alone, so that any traffic is answered and only adds to the chain;
  a broadcast of one node's transport is what another's server enqueues, and a
  node that synchronises through its transport from such servers ends with their chain.
  \<open>Process\<close> does the same for the way from a value stored at a broker to the mempool, and for
  processes started from settings: matching configurations give one network.

  \<^bold>\<open>Conventions.\<close> \<open>bytes\<close> is a list of characters and \<open>str\<close> its UTF-8 encoding; \<open>int\<close> is
  unbounded as in Python; a float is a rational number, each operation on it is rounded; dictionaries are association lists in insertion order; JSON is the type
  \<open>json\<close>, and a text column of the database holds such a value. A method that raises returns an
  error, together with the state it leaves where the caller goes on with it. \<open>IllTyped\<close> marks data
  of a type that the annotations exclude. Database tables are lists of rows; which integers a
  column can hold is the parameter \<open>fits\<close>. The wall clock is a stream of readings. What a node
  sends is appended to its list of effects; a coroutine that holds the node's lock is one step.

  \<^bold>\<open>Parameters.\<close> SHA-256, HMAC and Ed25519 are the fields of a record \<open>crypto\<close>. The hypotheses
  about them are named: \<open>ed25519_correct\<close> (a signature made with a key verifies), \<open>collision_free\<close>
  (on the strings that occur) and \<open>digest_length\<close>; unforgeability is needed nowhere else than as the
  honesty assumption of \<open>Agreement\<close>. The answers of peers, brokers and the file system are
  arguments, as is \<open>urllib.parse\<close>.

  \<^bold>\<open>Loops.\<close> All loops are total functions with a termination proof, except for the node's commit
  loop, a \<open>partial_function\<close> of which it is proved that it returns from every state, and the search
  for a nonce in \<open>Legacy\<close>, which returns if a nonce exists and otherwise need not. The only
  bound in the model is \<open>max_steps\<close> of the in-memory bus, which the code has. Background tasks are
  modelled by their iterations.

  \<^bold>\<open>What fails.\<close> Where the code does not do what it says, the theorem states what it does:
  two blocks finalized at one height, one seal or vote counted several times, a block proposed again
  without a check, roots that ignore a repeated
  last leaf, contents of pushed blocks that are not checked, blocks stored before they are applied,
  records stored twice, observations that are lost, one peer that keeps a node from catching up,
  gauges that read zero after a restart, stale addresses that return, brokers with identical
  contents reported as tampered, times that the console misreads, and in the first version a
  chain that stops when its difficulty is adjusted.

  \<^bold>\<open>Not modelled.\<close> The libraries (FastAPI and uvicorn, httpx, SQLAlchemy, pymongo, pydantic,
  prometheus and OpenTelemetry clients) beyond the documented behaviour the code uses, in particular
  how settings are read from the environment and how collectors and spans are exported;
  overflow and subnormal numbers in the rate limiter's floats; white space and digits outside of
  ASCII in \<open>strip\<close> and \<open>int\<close>; logging, which writes to a library and is not read;
  the scheduling of the tasks that \<open>run\<close> starts; the static page \<open>/ui\<close> but for its proof check; of
  \<^verbatim>\<open>src/legacy\<close> the database connections, the main loop and the functions that cut addresses out of
  printed documents.
\<close>

end
